(* ===== verification/TB_Prelude.thy ===== *)
theory TB_Prelude
  imports Main "HOL-Library.Word" "HOL-Library.Multiset"
begin

text \<open>
  Shared vocabulary of the development: the machine integer types the C++ uses
  (\<open>std::uint8_t\<close>, \<open>std::uint32_t\<close>, \<open>std::uint64_t\<close>, \<open>std::size_t\<close>), and the lemmas on lists,
  multisets and words that several component theories use.
\<close>

unbundle bit_operations_syntax

type_synonym u8 = "8 word"
type_synonym u32 = "32 word"
type_synonym u64 = "64 word"

named_theorems content_simps \<open>how each queue operation changes the multiset it stores\<close>

subsection \<open>Lists of queues\<close>

text \<open>
  Several components keep one queue per priority, a list of lists. Updating one of the
  queues changes the combined contents by the difference at that index.
\<close>

lemma mset_concat_update:
  "i < length xss \<Longrightarrow>
   mset (concat (xss[i := ys])) + mset (xss ! i) = mset (concat xss) + mset ys"
proof (induction xss arbitrary: i)
  case (Cons xs xss)
  then show ?case by (cases i) (auto simp: ac_simps)
qed simp

lemma mset_concat_append_at [content_simps]:
  "i < length xss \<Longrightarrow> mset (concat (xss[i := xss ! i @ [x]])) = add_mset x (mset (concat xss))"
  using mset_concat_update [of i xss "xss ! i @ [x]"] by simp

lemma mset_concat_tl_at [content_simps]:
  assumes "i < length xss" "xss ! i \<noteq> []"
  shows "add_mset (hd (xss ! i)) (mset (concat (xss[i := tl (xss ! i)]))) = mset (concat xss)"
proof -
  have *: "mset (xss ! i) = add_mset (hd (xss ! i)) (mset (tl (xss ! i)))"
    using assms(2) by (metis list.collapse mset.simps(2))
  show ?thesis
    using mset_concat_update [OF assms(1), of "tl (xss ! i)"] unfolding * by simp
qed

lemma sum_length_concat: "sum_list (map length xss) = length (concat xss)"
  by (simp add: length_concat)

lemma concat_all_empty: "concat xss = [] \<longleftrightarrow> (\<forall>i < length xss. xss ! i = [])"
  by (auto simp: concat_eq_Nil_conv all_set_conv_all_nth)

lemma length_concat_append_at:
  "i < length xss \<Longrightarrow> length (concat (xss[i := xss ! i @ [x]])) = Suc (length (concat xss))"
  using mset_concat_append_at [of i xss x] by (metis size_add_mset size_mset)

lemma length_concat_tl_at:
  "i < length xss \<Longrightarrow> xss ! i \<noteq> [] \<Longrightarrow>
   Suc (length (concat (xss[i := tl (xss ! i)]))) = length (concat xss)"
  using mset_concat_tl_at [of i xss] by (metis size_add_mset size_mset)

lemma map_nth_prefix: "n \<le> length xs \<Longrightarrow> map (\<lambda>i. xs ! i) [0..<n] = take n xs"
  by (simp add: list_eq_iff_nth_eq)

lemma ball_set_update: "(\<forall>x \<in> set xs. P x) \<Longrightarrow> P y \<Longrightarrow> \<forall>x \<in> set (xs[i := y]). P x"
  using set_update_subset_insert [of xs i y] by auto

subsection \<open>Scanning loops with an early return\<close>

text \<open>
  \<open>for (...) { if (P(i)) return ...; }\<close> is \<open>List.find\<close>: the first index that satisfies the
  test.
\<close>

lemma find_None_all: "List.find P xs = None \<longleftrightarrow> (\<forall>x \<in> set xs. \<not> P x)"
  by (auto simp: find_None_iff)

lemma find_Some_in: "List.find P xs = Some x \<Longrightarrow> x \<in> set xs \<and> P x"
  by (auto simp: find_Some_iff)

lemma find_cong_set: "(\<And>x. x \<in> set xs \<Longrightarrow> P x = Q x) \<Longrightarrow> List.find P xs = List.find Q xs"
  by (induction xs) auto

lemma find_upt_least:
  "List.find P [a..<b] = Some i \<Longrightarrow> a \<le> i \<and> i < b \<and> P i \<and> (\<forall>j. a \<le> j \<and> j < i \<longrightarrow> \<not> P j)"
proof (induction "b - a" arbitrary: a)
  case 0
  then show ?case by simp
next
  case (Suc n)
  then have ab: "a < b" by simp
  show ?case
  proof (cases "P a")
    case True
    with Suc.prems ab show ?thesis by (auto simp: upt_conv_Cons)
  next
    case False
    with Suc.prems ab have "List.find P [Suc a..<b] = Some i" by (simp add: upt_conv_Cons)
    moreover have "n = b - Suc a" using Suc.hyps(2) by simp
    ultimately have "Suc a \<le> i \<and> i < b \<and> P i \<and> (\<forall>j. Suc a \<le> j \<and> j < i \<longrightarrow> \<not> P j)"
      using Suc.hyps(1) by blast
    with False show ?thesis by (metis Suc_leD Suc_leI le_neq_implies_less)
  qed
qed

subsection \<open>Words\<close>

lemma unat_push_bit_1: "unat (push_bit 1 (x :: u64)) = 2 * unat x mod 2 ^ 64"
  by (simp add: push_bit_eq_mult unat_word_ariths mult.commute)

text \<open>Widening a 32-bit number keeps its value.\<close>

lemma unat_widened: "unat (ucast (n :: 32 word) :: 64 word) = unat n"
proof -
  have "unat n < 2 ^ LENGTH(32)" by (rule unsigned_less)
  then have "unat n < 2 ^ 64" by simp
  then show ?thesis by (simp add: unsigned_ucast_eq take_bit_nat_eq_self)
qed

end
