(* ===== verification/Api_Types.thy ===== *)
theory Api_Types
  imports TB_Prelude
begin

text \<open>
  The vocabulary of \<open>thunderbolt/api\<close>: priorities, the task life cycle, handles, scheduler
  modes with the aging rule, the run-time configuration and the execution context.
\<close>

section \<open>Priorities (\<open>TaskTypes.hpp\<close>)\<close>

datatype TaskPriority = Critical | High | Normal | Low | Background

text \<open>The underlying \<open>std::uint8_t\<close>: lower is more urgent.\<close>

fun prio_index :: "TaskPriority \<Rightarrow> nat" where
  "prio_index Critical = 0"
| "prio_index High = 1"
| "prio_index Normal = 2"
| "prio_index Low = 3"
| "prio_index Background = 4"

definition kPriorityCount :: nat where
  "kPriorityCount = 5"

text \<open>\<open>static_cast<TaskPriority>(p)\<close> for the indices a scan produces.\<close>

definition prio_of_index :: "nat \<Rightarrow> TaskPriority" where
  "prio_of_index p =
     (if p = 0 then Critical else if p = 1 then High else if p = 2 then Normal
      else if p = 3 then Low else Background)"

lemma prio_index_less [simp]: "prio_index p < kPriorityCount"
  by (cases p) (auto simp: kPriorityCount_def)

lemma prio_of_index_index [simp]: "prio_of_index (prio_index p) = p"
  by (cases p) (auto simp: prio_of_index_def)

lemma prio_index_of_index [simp]: "p < kPriorityCount \<Longrightarrow> prio_index (prio_of_index p) = p"
  by (auto simp: prio_of_index_def kPriorityCount_def)

lemma prio_index_inject [simp]: "prio_index p = prio_index q \<longleftrightarrow> p = q"
  by (metis prio_of_index_index)

text \<open>``Priority comparisons are plain integer comparisons''.\<close>

definition priority_le :: "TaskPriority \<Rightarrow> TaskPriority \<Rightarrow> bool" where
  "priority_le p q \<longleftrightarrow> prio_index p \<le> prio_index q"

definition priority_less :: "TaskPriority \<Rightarrow> TaskPriority \<Rightarrow> bool" where
  "priority_less p q \<longleftrightarrow> prio_index p < prio_index q"

instantiation TaskPriority :: linorder
begin

definition less_eq_TaskPriority :: "TaskPriority \<Rightarrow> TaskPriority \<Rightarrow> bool" where
  "less_eq_TaskPriority = priority_le"

definition less_TaskPriority :: "TaskPriority \<Rightarrow> TaskPriority \<Rightarrow> bool" where
  "less_TaskPriority = priority_less"

instance
  by standard (auto simp: less_eq_TaskPriority_def less_TaskPriority_def priority_le_def priority_less_def)

end

text \<open>
  The order in which every priority scan of the runtime visits the queues:
  \<open>p = lowest_first ? (kPriorityCount - 1 - i) : i\<close> for \<open>i = 0 .. kPriorityCount - 1\<close>.
\<close>

definition scan_order :: "bool \<Rightarrow> nat list" where
  "scan_order lowest_first =
     map (\<lambda>i. if lowest_first then kPriorityCount - 1 - i else i) [0..<kPriorityCount]"

lemma scan_order_high: "scan_order False = [0..<kPriorityCount]"
  by (simp add: scan_order_def)

lemma scan_order_low: "scan_order True = rev [0..<kPriorityCount]"
  by (simp add: scan_order_def kPriorityCount_def upt_rec)

lemma set_scan_order [simp]: "set (scan_order b) = {..<kPriorityCount}"
  by (cases b) (auto simp: scan_order_high scan_order_low)

section \<open>The life cycle and handles\<close>

datatype TaskState = Free | Created | Waiting | Ready | Queued | Claimed | Executing | Completed

record TaskHandle =
  hindex :: u32
  hgeneration :: u32

definition kInvalidIndex :: u32 where
  "kInvalidIndex = 0xFFFFFFFF"

definition handle_valid :: "TaskHandle \<Rightarrow> bool" where
  "handle_valid h \<longleftrightarrow> hindex h \<noteq> kInvalidIndex"

text \<open>\<open>TaskHandle{}\<close>.\<close>

definition invalid_handle :: TaskHandle where
  "invalid_handle = \<lparr>hindex = kInvalidIndex, hgeneration = 0\<rparr>"

lemma invalid_handle_not_valid [simp]: "\<not> handle_valid invalid_handle"
  by (simp add: handle_valid_def invalid_handle_def)

section \<open>Scheduler modes and aging (\<open>SchedulerMode.hpp\<close>)\<close>

datatype SchedulerMode = Static | WorkStealing | PriorityAging

definition kAgingInterval :: u64 where
  "kAgingInterval = 8"

definition aging_pop_favours_lowest :: "SchedulerMode \<Rightarrow> u64 \<Rightarrow> bool" where
  "aging_pop_favours_lowest mode pop_index \<longleftrightarrow>
     mode = PriorityAging \<and> pop_index mod kAgingInterval = kAgingInterval - 1"

fun scheduler_mode_name :: "SchedulerMode \<Rightarrow> string" where
  "scheduler_mode_name Static = ''static''"
| "scheduler_mode_name WorkStealing = ''stealing''"
| "scheduler_mode_name PriorityAging = ''priority_aging''"

lemma not_aging_strict [simp]:
  "\<not> aging_pop_favours_lowest WorkStealing n" "\<not> aging_pop_favours_lowest Static n"
  by (simp_all add: aging_pop_favours_lowest_def)

section \<open>Configuration (\<open>RuntimeConfig.hpp\<close>) and context\<close>

datatype AffinityMode = AffinityDisabled | TopologyAware

definition kOptNone :: u32 where "kOptNone = 0"
definition kOptSkipEmptyDeques :: u32 where "kOptSkipEmptyDeques = push_bit 0 1"
definition kOptSingleBarrierOnComplete :: u32 where "kOptSingleBarrierOnComplete = push_bit 1 1"
definition kOptThreadCache :: u32 where "kOptThreadCache = push_bit 2 1"
definition kOptInPlaceSubmit :: u32 where "kOptInPlaceSubmit = push_bit 3 1"

record RuntimeConfig =
  worker_count :: u32
  task_capacity :: u32
  deque_capacity :: u32
  scheduler :: SchedulerMode
  optimizations :: u32
  affinity :: AffinityMode

definition default_config :: RuntimeConfig where
  "default_config =
     \<lparr>worker_count = 0, task_capacity = 65536, deque_capacity = 4096,
      scheduler = WorkStealing, optimizations = kOptThreadCache OR kOptInPlaceSubmit,
      affinity = AffinityDisabled\<rparr>"

definition opt_set :: "RuntimeConfig \<Rightarrow> u32 \<Rightarrow> bool" where
  "opt_set c flag \<longleftrightarrow> optimizations c AND flag \<noteq> 0"

text \<open>\<open>TaskContext::kExternalThread\<close>: the index of a thread that is no worker.\<close>

definition kExternalThread :: u32 where
  "kExternalThread = 0xFFFFFFFF"

text \<open>
  A task body is arbitrary user code; the model keeps an opaque value \<open>'b\<close> for it.
  \<open>TaskDesc\<close> carries a \<open>TaskFunction\<close>, which may hold no body.
\<close>

record 'b TaskDesc =
  dfunction :: "'b option"
  dpriority :: TaskPriority
  dflags :: u32
  destimated_cost :: u32

definition make_desc :: "'b option \<Rightarrow> TaskPriority \<Rightarrow> 'b TaskDesc" where
  "make_desc f p = \<lparr>dfunction = f, dpriority = p, dflags = 0, destimated_cost = 0\<rparr>"

end
