(* ===== verification/Abp_Deque.thy ===== *)
theory Abp_Deque
  imports Api_Types
begin

text \<open>
  \<open>core/executor/AbpDeque.hpp\<close>: the bounded work-stealing deque, each operation as one
  step (the interleaved version of the same code is in \<open>Abp_Concurrent\<close>).
  \<open>std::int64_t\<close> indices are \<open>int\<close>: they only grow by one per operation, and signed
  overflow would be undefined behaviour in the source.
\<close>

section \<open>The interface of a work-stealing deque\<close>

text \<open>
  What the scheduler relies on: the deque is a bounded list, the owner works at its end,
  thieves at its front. Laws are stated over an abstraction function \<open>content\<close>.
\<close>

locale work_deque =
  fixes inv :: "'d \<Rightarrow> bool"
    and content :: "'d \<Rightarrow> 'a list"
    and room :: "'d \<Rightarrow> nat"
    and push :: "'d \<Rightarrow> 'a \<Rightarrow> 'd \<times> bool"
    and pop :: "'d \<Rightarrow> 'd \<times> 'a option"
    and steal :: "'d \<Rightarrow> 'd \<times> 'a option"
  assumes push_inv: "inv d \<Longrightarrow> inv (fst (push d x))"
    and push_content: "inv d \<Longrightarrow>
      content (fst (push d x)) = (if snd (push d x) then content d @ [x] else content d)"
    and push_accepts: "inv d \<Longrightarrow> snd (push d x) \<longleftrightarrow> length (content d) < room d"
    and push_room: "inv d \<Longrightarrow> room (fst (push d x)) = room d"
    and pop_inv: "inv d \<Longrightarrow> inv (fst (pop d))"
    and pop_nonempty: "inv d \<Longrightarrow> content d \<noteq> [] \<Longrightarrow>
      snd (pop d) = Some (last (content d)) \<and> content (fst (pop d)) = butlast (content d)"
    and pop_empty: "inv d \<Longrightarrow> content d = [] \<Longrightarrow> snd (pop d) = None \<and> content (fst (pop d)) = []"
    and steal_inv: "inv d \<Longrightarrow> inv (fst (steal d))"
    and steal_nonempty: "inv d \<Longrightarrow> content d \<noteq> [] \<Longrightarrow>
      snd (steal d) = Some (hd (content d)) \<and> content (fst (steal d)) = tl (content d)"
    and steal_empty: "inv d \<Longrightarrow> content d = [] \<Longrightarrow> snd (steal d) = None \<and> content (fst (steal d)) = []"
begin

lemma push_mset: "inv d \<Longrightarrow>
  mset (content (fst (push d x))) = mset (content d) + (if snd (push d x) then {#x#} else {#})"
  by (simp add: push_content)

lemma pop_mset:
  assumes "inv d"
  shows "mset (content (fst (pop d))) + mset (case snd (pop d) of None \<Rightarrow> [] | Some x \<Rightarrow> [x])
         = mset (content d)"
proof (cases "content d = []")
  case True
  then show ?thesis using pop_empty [OF assms] by simp
next
  case False
  then have "mset (content d) = mset (butlast (content d) @ [last (content d)])" by simp
  then show ?thesis using pop_nonempty [OF assms False] by simp
qed

lemma steal_mset:
  assumes "inv d"
  shows "mset (content (fst (steal d))) + mset (case snd (steal d) of None \<Rightarrow> [] | Some x \<Rightarrow> [x])
         = mset (content d)"
proof (cases "content d = []")
  case True
  then show ?thesis using steal_empty [OF assms] by simp
next
  case False
  then have "mset (content d) = mset (hd (content d) # tl (content d))" by simp
  then show ?thesis using steal_nonempty [OF assms False] by simp
qed

lemma pop_some_iff: "inv d \<Longrightarrow> snd (pop d) \<noteq> None \<longleftrightarrow> content d \<noteq> []"
  using pop_empty pop_nonempty by force

lemma steal_some_iff: "inv d \<Longrightarrow> snd (steal d) \<noteq> None \<longleftrightarrow> content d \<noteq> []"
  using steal_empty steal_nonempty by force

text \<open>Pushing a batch that fits and popping as often returns it reversed: the owner is LIFO.\<close>

primrec push_all :: "'d \<Rightarrow> 'a list \<Rightarrow> 'd" where
  "push_all d [] = d"
| "push_all d (x # xs) = push_all (fst (push d x)) xs"

primrec pop_times :: "'d \<Rightarrow> nat \<Rightarrow> 'd \<times> 'a list" where
  "pop_times d 0 = (d, [])"
| "pop_times d (Suc n) =
     (case pop d of (d', None) \<Rightarrow> (d', [])
      | (d', Some x) \<Rightarrow> (case pop_times d' n of (d'', xs) \<Rightarrow> (d'', x # xs)))"

primrec steal_times :: "'d \<Rightarrow> nat \<Rightarrow> 'd \<times> 'a list" where
  "steal_times d 0 = (d, [])"
| "steal_times d (Suc n) =
     (case steal d of (d', None) \<Rightarrow> (d', [])
      | (d', Some x) \<Rightarrow> (case steal_times d' n of (d'', xs) \<Rightarrow> (d'', x # xs)))"

lemma push_all_content:
  "inv d \<Longrightarrow> length (content d) + length xs \<le> room d \<Longrightarrow>
   inv (push_all d xs) \<and> content (push_all d xs) = content d @ xs"
proof (induction xs arbitrary: d)
  case (Cons x xs)
  then have acc: "snd (push d x)" by (simp add: push_accepts)
  with Cons.prems have "content (fst (push d x)) = content d @ [x]" by (simp add: push_content)
  with Cons.prems Cons.IH [of "fst (push d x)"] show ?case
    by (simp add: push_inv push_room)
qed simp

lemma pop_times_content:
  "inv d \<Longrightarrow> n \<le> length (content d) \<Longrightarrow>
   snd (pop_times d n) = take n (rev (content d)) \<and>
   content (fst (pop_times d n)) = take (length (content d) - n) (content d)"
proof (induction n arbitrary: d)
  case (Suc n)
  then have ne: "content d \<noteq> []" by auto
  obtain d' where d': "pop d = (d', Some (last (content d)))" and c': "content d' = butlast (content d)"
    using pop_nonempty [OF Suc.prems(1) ne] by (metis prod.collapse)
  have "inv d'" using pop_inv [OF Suc.prems(1)] d' by simp
  then have IH: "snd (pop_times d' n) = take n (rev (content d')) \<and>
      content (fst (pop_times d' n)) = take (length (content d') - n) (content d')"
    using Suc.IH Suc.prems(2) c' by simp
  obtain ys y where ys: "content d = ys @ [y]" using ne by (metis append_butlast_last_id)
  show ?case using IH d' c' ys by (auto split: prod.splits)
qed simp

lemma steal_times_content:
  "inv d \<Longrightarrow> n \<le> length (content d) \<Longrightarrow>
   snd (steal_times d n) = take n (content d) \<and>
   content (fst (steal_times d n)) = drop n (content d)"
proof (induction n arbitrary: d)
  case (Suc n)
  then have ne: "content d \<noteq> []" by auto
  obtain d' where d': "steal d = (d', Some (hd (content d)))" and c': "content d' = tl (content d)"
    using steal_nonempty [OF Suc.prems(1) ne] by (metis prod.collapse)
  have "inv d'" using steal_inv [OF Suc.prems(1)] d' by simp
  then have IH: "snd (steal_times d' n) = take n (content d') \<and>
      content (fst (steal_times d' n)) = drop n (content d')"
    using Suc.IH Suc.prems(2) c' by simp
  obtain y ys where ys: "content d = y # ys" using ne by (metis list.exhaust)
  show ?case using IH d' c' ys by (auto split: prod.splits)
qed simp

end

section \<open>The code's deque\<close>

datatype StealOutcome = Success | Empty | Abort

record 'a abp_deque =
  dq_top :: int
  dq_bottom :: int
  dq_buffer :: "'a list"
  dq_capacity :: nat
  dq_mask :: int

text \<open>
  The constructor's rounding loop, \<open>while (rounded < capacity) rounded <<= 1;\<close> on a
  64-bit \<open>std::size_t\<close>. \<open>None\<close> is ``does not return''.
\<close>

partial_function (option) abp_round :: "u64 \<Rightarrow> u64 \<Rightarrow> u64 option" where
  "abp_round rounded capacity =
     (if rounded < capacity then abp_round (push_bit 1 rounded) capacity else Some rounded)"

declare abp_round.simps [code]

definition abp_new :: "'a \<Rightarrow> u64 \<Rightarrow> 'a abp_deque option" where
  "abp_new dflt capacity =
     (case abp_round 1 capacity of
        None \<Rightarrow> None
      | Some rounded \<Rightarrow>
          Some \<lparr>dq_top = 0, dq_bottom = 0, dq_buffer = replicate (unat rounded) dflt,
                dq_capacity = unat rounded, dq_mask = uint (rounded - 1)\<rparr>)"

text \<open>\<open>buffer_[i & mask_]\<close>.\<close>

definition dq_slot :: "'a abp_deque \<Rightarrow> int \<Rightarrow> nat" where
  "dq_slot d i = nat (i AND dq_mask d)"

definition abp_push :: "'a abp_deque \<Rightarrow> 'a \<Rightarrow> 'a abp_deque \<times> bool" where
  "abp_push d value =
     (let b = dq_bottom d; t = dq_top d in
      if b - t \<ge> int (dq_capacity d) then (d, False)
      else (d\<lparr>dq_buffer := (dq_buffer d)[dq_slot d b := value], dq_bottom := b + 1\<rparr>, True))"

text \<open>\<open>top_.compare_exchange_strong(expected, desired)\<close>.\<close>

definition cas_top :: "int \<Rightarrow> int \<Rightarrow> 'a abp_deque \<Rightarrow> 'a abp_deque \<times> bool" where
  "cas_top expected desired d =
     (if dq_top d = expected then (d\<lparr>dq_top := desired\<rparr>, True) else (d, False))"

definition abp_pop :: "'a abp_deque \<Rightarrow> 'a abp_deque \<times> 'a option" where
  "abp_pop d =
     (let b = dq_bottom d - 1; d1 = d\<lparr>dq_bottom := b\<rparr>; t = dq_top d1 in
      if t > b then (d1\<lparr>dq_bottom := b + 1\<rparr>, None)
      else (let out = dq_buffer d1 ! dq_slot d1 b in
            if t \<noteq> b then (d1, Some out)
            else (case cas_top t (t + 1) d1 of
                    (d2, won) \<Rightarrow> (d2\<lparr>dq_bottom := b + 1\<rparr>, if won then Some out else None))))"

definition abp_steal :: "'a abp_deque \<Rightarrow> 'a abp_deque \<times> StealOutcome \<times> 'a option" where
  "abp_steal d =
     (let t = dq_top d; b = dq_bottom d in
      if t \<ge> b then (d, Empty, None)
      else (let out = dq_buffer d ! dq_slot d t in
            case cas_top t (t + 1) d of
              (d1, won) \<Rightarrow> if won then (d1, Success, Some out) else (d1, Abort, None)))"

definition size_hint :: "'a abp_deque \<Rightarrow> nat" where
  "size_hint d = (let n = dq_bottom d - dq_top d in if n > 0 then nat n else 0)"

definition empty_hint :: "'a abp_deque \<Rightarrow> bool" where
  "empty_hint d \<longleftrightarrow> size_hint d = 0"

section \<open>Representation invariant and abstraction\<close>

definition dq_inv :: "'a abp_deque \<Rightarrow> bool" where
  "dq_inv d \<longleftrightarrow>
     (\<exists>k. dq_capacity d = 2 ^ k \<and> dq_mask d = 2 ^ k - 1) \<and>
     length (dq_buffer d) = dq_capacity d \<and>
     0 \<le> dq_top d \<and> dq_top d \<le> dq_bottom d \<and> dq_bottom d - dq_top d \<le> int (dq_capacity d)"

definition dq_content :: "'a abp_deque \<Rightarrow> 'a list" where
  "dq_content d = map (\<lambda>i. dq_buffer d ! dq_slot d i) [dq_top d..dq_bottom d - 1]"

lemma length_dq_content: "dq_inv d \<Longrightarrow> int (length (dq_content d)) = dq_bottom d - dq_top d"
  by (simp add: dq_content_def dq_inv_def)

text \<open>Masking is reduction modulo the capacity.\<close>

lemma dq_slot_mod: "dq_inv d \<Longrightarrow> dq_slot d i = nat (i mod int (dq_capacity d))"
proof -
  assume "dq_inv d"
  then obtain k where k: "dq_capacity d = 2 ^ k" "dq_mask d = 2 ^ k - 1"
    by (auto simp: dq_inv_def)
  have "i AND (2 ^ k - 1) = take_bit k i"
    by (simp add: take_bit_eq_mask mask_eq_exp_minus_1)
  then show ?thesis by (simp add: dq_slot_def k take_bit_eq_mod)
qed

lemma dq_capacity_pos: "dq_inv d \<Longrightarrow> 0 < dq_capacity d"
  by (auto simp: dq_inv_def)

lemma dq_slot_less: "dq_inv d \<Longrightarrow> dq_slot d i < dq_capacity d"
proof -
  assume i: "dq_inv d"
  have "i mod int (dq_capacity d) < int (dq_capacity d)"
    using dq_capacity_pos [OF i] by simp
  then show ?thesis using dq_capacity_pos [OF i] by (simp add: dq_slot_mod [OF i] nat_less_iff)
qed

text \<open>Indices less than a capacity apart use different slots.\<close>

lemma mod_eq_close:
  assumes "(i :: int) mod c = j mod c" "\<bar>i - j\<bar> < c"
  shows "i = j"
proof -
  have "c dvd i - j" using assms(1) by (simp add: mod_eq_dvd_iff)
  then have "i - j \<noteq> 0 \<Longrightarrow> \<bar>c\<bar> \<le> \<bar>i - j\<bar>" by (rule dvd_imp_le_int [rotated])
  then show ?thesis using assms(2) by linarith
qed

lemma dq_slot_inj:
  assumes "dq_inv d" "\<bar>i - j\<bar> < int (dq_capacity d)" "dq_slot d i = dq_slot d j"
  shows "i = j"
proof -
  have "i mod int (dq_capacity d) = j mod int (dq_capacity d)"
    using assms(1,3) dq_capacity_pos [OF assms(1)]
    by (simp add: dq_slot_mod nat_eq_iff2)
  then show ?thesis using assms(2) by (rule mod_eq_close)
qed

lemma dq_slot_upd [simp]:
  "dq_slot (d\<lparr>dq_top := t\<rparr>) i = dq_slot d i"
  "dq_slot (d\<lparr>dq_bottom := b\<rparr>) i = dq_slot d i"
  "dq_slot (d\<lparr>dq_buffer := bs\<rparr>) i = dq_slot d i"
  by (simp_all add: dq_slot_def)

lemma size_hint_content: "dq_inv d \<Longrightarrow> size_hint d = length (dq_content d)"
  using length_dq_content [of d] by (simp add: size_hint_def Let_def del: length_0_conv) arith

lemma empty_hint_content: "dq_inv d \<Longrightarrow> empty_hint d \<longleftrightarrow> dq_content d = []"
  by (simp add: empty_hint_def size_hint_content)

section \<open>Every operation keeps the invariant and moves the abstract list\<close>

lemma dq_inv_push: "dq_inv d \<Longrightarrow> dq_inv (fst (abp_push d x))"
  by (auto simp: abp_push_def dq_inv_def Let_def)

lemma abp_push_full: "dq_inv d \<Longrightarrow> snd (abp_push d x) \<longleftrightarrow> length (dq_content d) < dq_capacity d"
  using length_dq_content [of d] by (simp add: abp_push_def Let_def)

lemma abp_push_content:
  assumes "dq_inv d"
  shows "dq_content (fst (abp_push d x)) =
    (if snd (abp_push d x) then dq_content d @ [x] else dq_content d)"
proof (cases "dq_bottom d - dq_top d \<ge> int (dq_capacity d)")
  case True
  then show ?thesis by (simp add: abp_push_def Let_def)
next
  case False
  let ?b = "dq_bottom d" and ?t = "dq_top d"
  have tb: "?t \<le> ?b" using assms by (simp add: dq_inv_def)
  have len: "dq_slot d ?b < length (dq_buffer d)"
    using dq_slot_less [OF assms, of ?b] assms by (simp add: dq_inv_def)
  have other: "dq_slot d i \<noteq> dq_slot d ?b" if "i \<in> {?t..?b - 1}" for i
    using dq_slot_inj [OF assms, of i ?b] that False by auto
  then have keep: "(dq_buffer d)[dq_slot d ?b := x] ! dq_slot d i = dq_buffer d ! dq_slot d i"
    if "i \<in> {?t..?b - 1}" for i
    using that by (metis nth_list_update_neq)
  have "[?t..?b] = [?t..?b - 1] @ [?b]" using tb by (rule upto_rec2)
  then show ?thesis using False len keep
    by (simp add: abp_push_def Let_def dq_content_def del: atLeastAtMost_iff)
qed

lemma abp_push_capacity: "dq_capacity (fst (abp_push d x)) = dq_capacity d"
  by (simp add: abp_push_def Let_def)

lemma dq_inv_pop: "dq_inv d \<Longrightarrow> dq_inv (fst (abp_pop d))"
  by (auto simp: abp_pop_def dq_inv_def Let_def cas_top_def)

lemma abp_pop_empty:
  "dq_inv d \<Longrightarrow> dq_content d = [] \<Longrightarrow> snd (abp_pop d) = None \<and> dq_content (fst (abp_pop d)) = []"
  using length_dq_content [of d] by (simp add: abp_pop_def Let_def dq_content_def)

lemma abp_pop_nonempty:
  assumes "dq_inv d" "dq_content d \<noteq> []"
  shows "snd (abp_pop d) = Some (last (dq_content d)) \<and>
         dq_content (fst (abp_pop d)) = butlast (dq_content d)"
proof -
  let ?b = "dq_bottom d" and ?t = "dq_top d"
  have tb: "?t \<le> ?b - 1" using assms(2) by (simp add: dq_content_def)
  have u: "[?t..?b - 1] = [?t..?b - 2] @ [?b - 1]" using upto_rec2 [OF tb] by simp
  show ?thesis
  proof (cases "?t = ?b - 1")
    case True
    then show ?thesis by (simp add: abp_pop_def Let_def cas_top_def dq_content_def)
  next
    case False
    then show ?thesis using tb u by (simp add: abp_pop_def Let_def dq_content_def)
  qed
qed

definition abp_steal_opt :: "'a abp_deque \<Rightarrow> 'a abp_deque \<times> 'a option" where
  "abp_steal_opt d = (case abp_steal d of (d', outcome, out) \<Rightarrow> (d', out))"

lemma dq_inv_steal: "dq_inv d \<Longrightarrow> dq_inv (fst (abp_steal_opt d))"
  by (auto simp: abp_steal_opt_def abp_steal_def dq_inv_def Let_def cas_top_def)

lemma abp_steal_empty:
  "dq_inv d \<Longrightarrow> dq_content d = [] \<Longrightarrow>
   snd (abp_steal_opt d) = None \<and> dq_content (fst (abp_steal_opt d)) = []"
  by (simp add: abp_steal_opt_def abp_steal_def Let_def dq_content_def)

lemma abp_steal_nonempty:
  assumes "dq_inv d" "dq_content d \<noteq> []"
  shows "snd (abp_steal_opt d) = Some (hd (dq_content d)) \<and>
         dq_content (fst (abp_steal_opt d)) = tl (dq_content d)"
proof -
  have tb: "dq_top d \<le> dq_bottom d - 1" using assms(2) by (simp add: dq_content_def)
  then show ?thesis
    by (simp add: abp_steal_opt_def abp_steal_def Let_def cas_top_def dq_content_def upto_rec1)
qed

text \<open>A steal reports \<open>Success\<close> exactly when it hands out an item; alone it never aborts.\<close>

lemma abp_steal_outcome:
  "fst (snd (abp_steal d)) = (if dq_top d < dq_bottom d then Success else Empty)"
  by (simp add: abp_steal_def Let_def cas_top_def)

interpretation abp: work_deque dq_inv dq_content dq_capacity abp_push abp_pop abp_steal_opt
  by unfold_locales
    (simp_all add: dq_inv_push abp_push_content abp_push_full abp_push_capacity dq_inv_pop
      abp_pop_empty abp_pop_nonempty dq_inv_steal abp_steal_empty abp_steal_nonempty)

lemmas abp_content_simps = abp.push_mset abp.pop_mset abp.steal_mset

section \<open>The constructor\<close>

text \<open>
  Rounding: from \<open>2 ^ j\<close> the loop stops at the first power of two that reaches the request,
  provided there is one in 64 bits.
\<close>

lemma push_bit_1_pow: "push_bit 1 (2 ^ j :: u64) = 2 ^ Suc j"
  by (simp add: push_bit_eq_mult)

lemma unat_pow: "j < 64 \<Longrightarrow> unat (2 ^ j :: u64) = 2 ^ j"
proof -
  assume j: "j < 64"
  have "(2 :: nat) ^ j < 2 ^ 64" by (rule power_strict_increasing [OF j]) simp
  then have "(2 :: nat) ^ j < 2 ^ LENGTH(64)" by simp
  then have "unat (of_nat (2 ^ j) :: u64) = 2 ^ j"
    by (simp only: unsigned_of_nat take_bit_nat_eq_self of_nat_id)
  then show ?thesis by simp
qed

lemma abp_round_from:
  "j \<le> k \<Longrightarrow> k < 64 \<Longrightarrow> unat capacity \<le> 2 ^ k \<Longrightarrow> (\<forall>i. j \<le> i \<and> i < k \<longrightarrow> 2 ^ i < unat capacity) \<Longrightarrow>
   abp_round (2 ^ j) capacity = Some (2 ^ k)"
proof (induction "k - j" arbitrary: j)
  case 0
  then have "j = k" by simp
  with 0 show ?case by (simp add: abp_round.simps word_less_nat_alt unat_pow)
next
  case (Suc n)
  then have jk: "j < k" by simp
  then have "(2 ^ j :: u64) < capacity" using Suc.prems by (simp add: word_less_nat_alt unat_pow)
  moreover have "abp_round (2 ^ Suc j) capacity = Some (2 ^ k)"
    by (rule Suc.hyps(1)) (use Suc.hyps(2) Suc.prems jk in auto)
  ultimately show ?case
    by (subst abp_round.simps) (simp only: push_bit_1_pow if_True)
qed

lemma least_power:
  fixes n :: nat
  assumes "n \<le> 2 ^ m"
  obtains k where "k \<le> m" "n \<le> 2 ^ k" "\<forall>i < k. 2 ^ i < n"
proof
  let ?k = "LEAST k. n \<le> 2 ^ k"
  show "?k \<le> m" using assms by (rule Least_le)
  show "n \<le> 2 ^ ?k" using assms by (rule LeastI)
  show "\<forall>i < ?k. 2 ^ i < n" using not_less_Least linorder_not_le by blast
qed

lemma abp_round_total:
  assumes "unat capacity \<le> 2 ^ 63"
  shows "\<exists>k \<le> 63. abp_round 1 capacity = Some (2 ^ k) \<and> unat capacity \<le> 2 ^ k \<and>
                  (\<forall>i < k. 2 ^ i < unat capacity)"
proof -
  obtain k where k: "k \<le> 63" "unat capacity \<le> 2 ^ k" "\<forall>i < k. 2 ^ i < unat capacity"
    using assms by (rule least_power)
  then show ?thesis using abp_round_from [of 0 k capacity] by auto
qed

text \<open>
  Beyond \<open>2 ^ 63\<close> the shift wraps to zero and the loop never ends: whatever it would return
  is a power of two (or zero) that reaches the request, and none does.
\<close>

lemma abp_round_result:
  assumes "abp_round r capacity = Some q" "(\<exists>j < 64. r = 2 ^ j) \<or> r = 0"
  shows "capacity \<le> q \<and> ((\<exists>j < 64. q = 2 ^ j) \<or> q = 0)"
proof -
  have "((\<exists>j < 64. r = 2 ^ j) \<or> r = 0) \<longrightarrow> capacity \<le> q \<and> ((\<exists>j < 64. q = 2 ^ j) \<or> q = 0)"
  proof (rule abp_round.raw_induct [where P = "\<lambda>r capacity q. ((\<exists>j < 64. r = 2 ^ j) \<or> r = 0) \<longrightarrow>
        capacity \<le> q \<and> ((\<exists>j < 64. q = 2 ^ j) \<or> q = 0)", OF _ assms(1)])
    fix f and r c q :: u64
    assume IH: "\<And>r c q. f r c = Some q \<Longrightarrow> ((\<exists>j < 64. r = 2 ^ j) \<or> r = 0) \<longrightarrow>
        c \<le> q \<and> ((\<exists>j < 64. q = 2 ^ j) \<or> q = 0)"
      and eq: "(if r < c then f (push_bit 1 r) c else Some r) = Some q"
    show "((\<exists>j < 64. r = 2 ^ j) \<or> r = 0) \<longrightarrow> c \<le> q \<and> ((\<exists>j < 64. q = 2 ^ j) \<or> q = 0)"
    proof
      assume r: "(\<exists>j < 64. r = 2 ^ j) \<or> r = 0"
      have next_r: "(\<exists>j < 64. push_bit 1 r = 2 ^ j) \<or> push_bit 1 r = 0"
        using r
      proof
        assume "\<exists>j < 64. r = 2 ^ j"
        then obtain j where j: "j < 64" "r = 2 ^ j" by blast
        show ?thesis
        proof (cases "Suc j < 64")
          case True
          then show ?thesis using j push_bit_1_pow by blast
        next
          case False
          with j have "j = 63" by simp
          then show ?thesis using j by (simp add: push_bit_1_pow)
        qed
      qed simp
      show "c \<le> q \<and> ((\<exists>j < 64. q = 2 ^ j) \<or> q = 0)"
      proof (cases "r < c")
        case True
        with eq have "f (push_bit 1 r) c = Some q" by simp
        from IH [OF this] next_r show ?thesis by blast
      next
        case False
        then show ?thesis using eq r by auto
      qed
    qed
  qed
  then show ?thesis using assms(2) by blast
qed

lemma abp_round_diverges:
  assumes "2 ^ 63 < unat capacity"
  shows "abp_round 1 capacity = None"
proof (rule ccontr)
  assume "abp_round 1 capacity \<noteq> None"
  then obtain q where q: "abp_round 1 capacity = Some q" by blast
  have "(\<exists>j < 64. (1 :: u64) = 2 ^ j) \<or> (1 :: u64) = 0" by (metis power_0 zero_less_numeral)
  from abp_round_result [OF q this] have ge: "capacity \<le> q" and "(\<exists>j < 64. q = 2 ^ j) \<or> q = 0"
    by auto
  moreover have "(2 :: nat) ^ j \<le> 2 ^ 63" if "j < 64" for j
    using that by (intro power_increasing) simp_all
  ultimately have "unat q \<le> 2 ^ 63"
    by (auto simp: unat_pow)
  then show False using ge assms by (simp add: word_le_nat_alt)
qed

lemma abp_new_wf:
  assumes "unat capacity \<le> 2 ^ 63"
  shows "\<exists>d. abp_new dflt capacity = Some d \<and> dq_inv d \<and> dq_content d = [] \<and>
             unat capacity \<le> dq_capacity d"
proof -
  obtain k where k: "k \<le> 63" "abp_round 1 capacity = Some (2 ^ k)" "unat capacity \<le> 2 ^ k"
    using abp_round_total [OF assms] by blast
  have un: "unat (2 ^ k :: u64) = 2 ^ k" using k(1) by (simp add: unat_pow)
  have "uint (2 ^ k :: u64) = 2 ^ k" using un by (metis of_nat_numeral of_nat_power uint_nat)
  moreover have "(2 :: int) ^ k \<le> 2 ^ 63" using k(1) by (intro power_increasing) simp_all
  ultimately have "uint (2 ^ k - 1 :: u64) = 2 ^ k - 1"
    by (simp add: uint_word_ariths)
  then show ?thesis
    using k un by (auto simp: abp_new_def dq_inv_def dq_content_def)
qed

section \<open>Property\<close>

text \<open>
  The constructor of a deque rounds its capacity up to the least power of two that is not below
  it, and returns for every capacity up to \<open>2 ^ 63\<close>; for a larger one its loop shifts the bit out and
  never ends.
\<close>

theorem abp_round_correct:
  assumes "unat capacity \<le> 2 ^ 63"
  shows "\<exists>k \<le> 63. abp_round 1 capacity = Some (2 ^ k) \<and> unat capacity \<le> 2 ^ k \<and>
    (\<forall>i < k. 2 ^ i < unat capacity) \<and> (\<forall>c. 2 ^ 63 < unat c \<longrightarrow> abp_round 1 c = None)"
  using abp_round_total [OF assms] abp_round_diverges by blast

theorem abp_round_correct_witness:
  "abp_round 1 5 = Some 8 \<and> abp_round 1 0x8000000000000001 = None"
proof -
  obtain k where k: "k \<le> 63" "abp_round 1 5 = Some (2 ^ k)" "unat (5 :: u64) \<le> 2 ^ k"
    "\<forall>i < k. 2 ^ i < unat (5 :: u64)" "\<forall>c. 2 ^ 63 < unat c \<longrightarrow> abp_round 1 c = None"
    using abp_round_correct [of 5] by auto
  have "\<not> 3 < k" using k(4) by fastforce
  then have "k \<in> {0, 1, 2, 3}" by auto
  then have "k = 3" using k(3) by auto
  then show ?thesis using k(2,5) by simp
qed

end
