(* ===== verification/Abp_Concurrent.thy ===== *)
theory Abp_Concurrent
  imports Abp_Deque
begin

text \<open>
  \<open>AbpDeque\<close> under interleaving: one owner and any number of thieves, each shared-memory
  access of \<open>push\<close>, \<open>pop\<close> and \<open>steal\<close> a step of its own, under sequential consistency
  (what the fences of the source establish for these accesses; the weak-memory argument
  itself is not modelled). A program counter holds the local variables the code carries
  between two accesses.
\<close>

section \<open>State and steps\<close>

datatype 'a owner_pc =
    OIdle
  | OPushTop 'a int        \<comment> \<open>\<open>b\<close> loaded, \<open>top_.load\<close> next\<close>
  | OPushWrite 'a int      \<comment> \<open>room checked, \<open>buffer_[b & mask_] = value\<close> next\<close>
  | OPushBottom 'a int     \<comment> \<open>\<open>bottom_.store(b + 1)\<close> next\<close>
  | OPopStore int          \<comment> \<open>\<open>b = bottom - 1\<close> computed, \<open>bottom_.store(b)\<close> next\<close>
  | OPopTop int            \<comment> \<open>\<open>top_.load\<close> next\<close>
  | OPopRestore int        \<comment> \<open>empty, \<open>bottom_.store(b + 1)\<close> next\<close>
  | OPopRead int int       \<comment> \<open>\<open>b\<close> and \<open>t\<close> known, \<open>buffer_[b & mask_]\<close> next\<close>
  | OPopCas int 'a         \<comment> \<open>last item, the compare-exchange next\<close>
  | OPopFinish int 'a bool \<comment> \<open>\<open>bottom_.store(b + 1)\<close>, then \<open>return won\<close>\<close>

datatype 'a thief_pc =
    TIdle
  | TBottom int            \<comment> \<open>\<open>t\<close> loaded, \<open>bottom_.load\<close> next\<close>
  | TRead int              \<comment> \<open>speculative read of \<open>buffer_[t & mask_]\<close> next\<close>
  | TCas int 'a            \<comment> \<open>the compare-exchange next\<close>

record 'a conc =
  c_top :: int
  c_bottom :: int
  c_buffer :: "nat \<Rightarrow> 'a"
  c_capacity :: int
  c_owner :: "'a owner_pc"
  c_thief :: "nat \<Rightarrow> 'a thief_pc"
  c_pushed :: "'a list"   \<comment> \<open>history: items of the pushes that returned true\<close>
  c_taken :: "'a list"    \<comment> \<open>history: items returned by pops and steals\<close>

definition cslot :: "'a conc \<Rightarrow> int \<Rightarrow> nat" where
  "cslot s i = nat (i mod c_capacity s)"

definition conc_init :: "(nat \<Rightarrow> 'a) \<Rightarrow> int \<Rightarrow> 'a conc" where
  "conc_init buf cap =
     \<lparr>c_top = 0, c_bottom = 0, c_buffer = buf, c_capacity = cap, c_owner = OIdle,
      c_thief = (\<lambda>_. TIdle), c_pushed = [], c_taken = []\<rparr>"

inductive dq_step :: "'a conc \<Rightarrow> 'a conc \<Rightarrow> bool" where
  push_start: "c_owner s = OIdle \<Longrightarrow>
     dq_step s (s\<lparr>c_owner := OPushTop v (c_bottom s)\<rparr>)"
| push_full: "c_owner s = OPushTop v b \<Longrightarrow> b - c_top s \<ge> c_capacity s \<Longrightarrow>
     dq_step s (s\<lparr>c_owner := OIdle\<rparr>)"
| push_room: "c_owner s = OPushTop v b \<Longrightarrow> b - c_top s < c_capacity s \<Longrightarrow>
     dq_step s (s\<lparr>c_owner := OPushWrite v b\<rparr>)"
| push_write: "c_owner s = OPushWrite v b \<Longrightarrow>
     dq_step s (s\<lparr>c_buffer := (c_buffer s)(cslot s b := v), c_owner := OPushBottom v b\<rparr>)"
| push_publish: "c_owner s = OPushBottom v b \<Longrightarrow>
     dq_step s (s\<lparr>c_bottom := b + 1, c_owner := OIdle, c_pushed := c_pushed s @ [v]\<rparr>)"
| pop_start: "c_owner s = OIdle \<Longrightarrow>
     dq_step s (s\<lparr>c_owner := OPopStore (c_bottom s - 1)\<rparr>)"
| pop_store: "c_owner s = OPopStore b \<Longrightarrow>
     dq_step s (s\<lparr>c_bottom := b, c_owner := OPopTop b\<rparr>)"
| pop_empty: "c_owner s = OPopTop b \<Longrightarrow> c_top s > b \<Longrightarrow>
     dq_step s (s\<lparr>c_owner := OPopRestore b\<rparr>)"
| pop_restore: "c_owner s = OPopRestore b \<Longrightarrow>
     dq_step s (s\<lparr>c_bottom := b + 1, c_owner := OIdle\<rparr>)"
| pop_top: "c_owner s = OPopTop b \<Longrightarrow> c_top s \<le> b \<Longrightarrow>
     dq_step s (s\<lparr>c_owner := OPopRead b (c_top s)\<rparr>)"
| pop_many: "c_owner s = OPopRead b t \<Longrightarrow> t \<noteq> b \<Longrightarrow>
     dq_step s (s\<lparr>c_owner := OIdle, c_taken := c_taken s @ [c_buffer s (cslot s b)]\<rparr>)"
| pop_last: "c_owner s = OPopRead b t \<Longrightarrow> t = b \<Longrightarrow>
     dq_step s (s\<lparr>c_owner := OPopCas b (c_buffer s (cslot s b))\<rparr>)"
| pop_win: "c_owner s = OPopCas b v \<Longrightarrow> c_top s = b \<Longrightarrow>
     dq_step s (s\<lparr>c_top := b + 1, c_owner := OPopFinish b v True\<rparr>)"
| pop_lose: "c_owner s = OPopCas b v \<Longrightarrow> c_top s \<noteq> b \<Longrightarrow>
     dq_step s (s\<lparr>c_owner := OPopFinish b v False\<rparr>)"
| pop_finish: "c_owner s = OPopFinish b v won \<Longrightarrow>
     dq_step s (s\<lparr>c_bottom := b + 1, c_owner := OIdle,
                  c_taken := c_taken s @ (if won then [v] else [])\<rparr>)"
| steal_start: "c_thief s i = TIdle \<Longrightarrow>
     dq_step s (s\<lparr>c_thief := (c_thief s)(i := TBottom (c_top s))\<rparr>)"
| steal_empty: "c_thief s i = TBottom t \<Longrightarrow> t \<ge> c_bottom s \<Longrightarrow>
     dq_step s (s\<lparr>c_thief := (c_thief s)(i := TIdle)\<rparr>)"
| steal_some: "c_thief s i = TBottom t \<Longrightarrow> t < c_bottom s \<Longrightarrow>
     dq_step s (s\<lparr>c_thief := (c_thief s)(i := TRead t)\<rparr>)"
| steal_read: "c_thief s i = TRead t \<Longrightarrow>
     dq_step s (s\<lparr>c_thief := (c_thief s)(i := TCas t (c_buffer s (cslot s t)))\<rparr>)"
| steal_win: "c_thief s i = TCas t v \<Longrightarrow> c_top s = t \<Longrightarrow>
     dq_step s (s\<lparr>c_top := t + 1, c_thief := (c_thief s)(i := TIdle), c_taken := c_taken s @ [v]\<rparr>)"
| steal_abort: "c_thief s i = TCas t v \<Longrightarrow> c_top s \<noteq> t \<Longrightarrow>
     dq_step s (s\<lparr>c_thief := (c_thief s)(i := TIdle)\<rparr>)"

inductive dq_reachable :: "(nat \<Rightarrow> 'a) \<Rightarrow> int \<Rightarrow> 'a conc \<Rightarrow> bool" for buf cap where
  start: "0 < cap \<Longrightarrow> dq_reachable buf cap (conc_init buf cap)"
| step: "dq_reachable buf cap s \<Longrightarrow> dq_step s s' \<Longrightarrow> dq_reachable buf cap s'"

section \<open>The logical contents\<close>

text \<open>
  While a pop is under way, \<open>bottom_\<close> is lowered before the item is won. The logical bottom
  counts the item as present until the owner has decided that no thief can reach it (it saw
  \<open>t < b\<close>) or has won the compare-exchange.
\<close>

definition lbottom :: "'a conc \<Rightarrow> int" where
  "lbottom s = (case c_owner s of
       OPopTop b \<Rightarrow> b + 1 | OPopRestore b \<Rightarrow> b + 1
     | OPopRead b t \<Rightarrow> if t = b then b + 1 else b
     | OPopCas b v \<Rightarrow> b + 1 | OPopFinish b v won \<Rightarrow> b + 1
     | _ \<Rightarrow> c_bottom s)"

definition items :: "'a conc \<Rightarrow> 'a list" where
  "items s = map (\<lambda>i. c_buffer s (cslot s i)) [c_top s..lbottom s - 1]"

text \<open>An item the owner has won and not yet returned.\<close>

definition in_hand :: "'a conc \<Rightarrow> 'a list" where
  "in_hand s = (case c_owner s of
       OPopRead b t \<Rightarrow> if t = b then [] else [c_buffer s (cslot s b)]
     | OPopFinish b v won \<Rightarrow> if won then [v] else []
     | _ \<Rightarrow> [])"

definition owner_ok :: "'a conc \<Rightarrow> bool" where
  "owner_ok s = (case c_owner s of
       OIdle \<Rightarrow> True
     | OPushTop v b \<Rightarrow> c_bottom s = b
     | OPushWrite v b \<Rightarrow> c_bottom s = b \<and> b - c_top s < c_capacity s
     | OPushBottom v b \<Rightarrow> c_bottom s = b \<and> b - c_top s < c_capacity s \<and> c_buffer s (cslot s b) = v
     | OPopStore b \<Rightarrow> c_bottom s = b + 1
     | OPopTop b \<Rightarrow> c_bottom s = b
     | OPopRestore b \<Rightarrow> c_bottom s = b \<and> c_top s = b + 1
     | OPopRead b t \<Rightarrow> c_bottom s = b \<and> t \<le> b \<and> t \<le> c_top s
     | OPopCas b v \<Rightarrow> c_bottom s = b \<and> b \<le> c_top s \<and> v = c_buffer s (cslot s b)
     | OPopFinish b v won \<Rightarrow> c_bottom s = b \<and> c_top s = b + 1)"

definition thief_ok :: "'a conc \<Rightarrow> 'a thief_pc \<Rightarrow> bool" where
  "thief_ok s p = (case p of
       TIdle \<Rightarrow> True
     | TBottom t \<Rightarrow> t \<le> c_top s
     | TRead t \<Rightarrow> t \<le> c_top s \<and> (t = c_top s \<longrightarrow> t < lbottom s)
     | TCas t v \<Rightarrow> t \<le> c_top s \<and>
         (t = c_top s \<longrightarrow> t < lbottom s \<and> v = c_buffer s (cslot s t)))"

definition conc_base :: "'a conc \<Rightarrow> bool" where
  "conc_base s \<longleftrightarrow>
     0 < c_capacity s \<and> 0 \<le> c_top s \<and> c_top s \<le> lbottom s \<and>
     lbottom s - c_top s \<le> c_capacity s \<and> owner_ok s"

definition conc_inv :: "'a conc \<Rightarrow> bool" where
  "conc_inv s \<longleftrightarrow> conc_base s \<and> (\<forall>i. thief_ok s (c_thief s i))"

definition conserved :: "'a conc \<Rightarrow> bool" where
  "conserved s \<longleftrightarrow> mset (c_pushed s) = mset (c_taken s) + mset (items s) + mset (in_hand s)"

lemmas conc_defs = conc_base_def lbottom_def owner_ok_def

lemma cslot_upd [simp]:
  "cslot (s\<lparr>c_top := t\<rparr>) i = cslot s i" "cslot (s\<lparr>c_bottom := b\<rparr>) i = cslot s i"
  "cslot (s\<lparr>c_buffer := f\<rparr>) i = cslot s i" "cslot (s\<lparr>c_owner := p\<rparr>) i = cslot s i"
  "cslot (s\<lparr>c_thief := q\<rparr>) i = cslot s i" "cslot (s\<lparr>c_pushed := xs\<rparr>) i = cslot s i"
  "cslot (s\<lparr>c_taken := xs\<rparr>) i = cslot s i"
  by (simp_all add: cslot_def)

lemma cslot_inj: "0 < c_capacity s \<Longrightarrow> \<bar>i - j\<bar> < c_capacity s \<Longrightarrow> cslot s i = cslot s j \<Longrightarrow> i = j"
  by (rule mod_eq_close [of i "c_capacity s" j]) (auto simp: cslot_def nat_eq_iff2)

text \<open>A slot in use is not the one a push writes next.\<close>

lemma write_other:
  assumes "conc_inv s" "c_owner s = OPushWrite v b" "c_top s \<le> i" "i < lbottom s"
  shows "cslot s i \<noteq> cslot s b"
proof
  assume "cslot s i = cslot s b"
  moreover have "0 < c_capacity s" "\<bar>i - b\<bar> < c_capacity s"
    using assms by (auto simp: conc_inv_def conc_defs)
  ultimately have "i = b" by (metis cslot_inj)
  then show False using assms by (auto simp: conc_inv_def conc_defs)
qed

section \<open>The invariant\<close>

text \<open>
  A thief's knowledge survives every step that keeps \<open>top_\<close> growing and does not disturb the
  oldest item: once \<open>top_\<close> has moved past its \<open>t\<close>, its compare-exchange must fail.
\<close>

lemma thief_ok_mono:
  assumes "thief_ok s p" "c_top s \<le> c_top s'"
    and "c_top s' = c_top s \<Longrightarrow> c_top s < lbottom s \<Longrightarrow>
      c_top s < lbottom s' \<and> c_buffer s' (cslot s' (c_top s)) = c_buffer s (cslot s (c_top s))"
  shows "thief_ok s' p"
  using assms by (cases p) (auto simp: thief_ok_def)

lemma conc_invI:
  assumes "conc_inv s" "conc_base s'" "c_top s \<le> c_top s'"
    and "c_top s' = c_top s \<Longrightarrow> c_top s < lbottom s \<Longrightarrow>
      c_top s < lbottom s' \<and> c_buffer s' (cslot s' (c_top s)) = c_buffer s (cslot s (c_top s))"
    and "\<And>i. c_thief s' i = c_thief s i \<or> thief_ok s' (c_thief s' i)"
  shows "conc_inv s'"
proof -
  have "thief_ok s' (c_thief s' i)" for i
    using assms(5) [of i]
  proof
    assume same: "c_thief s' i = c_thief s i"
    have "thief_ok s (c_thief s i)" using assms(1) by (simp add: conc_inv_def)
    then have "thief_ok s' (c_thief s i)" using assms(3,4) by (rule thief_ok_mono)
    then show ?thesis by (simp add: same)
  qed
  then show ?thesis using assms(2) by (simp add: conc_inv_def)
qed

lemma conc_inv_base: "conc_inv s \<Longrightarrow> conc_base s"
  by (simp add: conc_inv_def)

lemma conc_inv_thief: "conc_inv s \<Longrightarrow> c_thief s i = p \<Longrightarrow> thief_ok s p"
  by (auto simp: conc_inv_def)

lemma conc_inv_step:
  assumes "dq_step s s'" "conc_inv s"
  shows "conc_inv s'"
  using assms(1)
proof cases
  case (push_write v b)
  have "cslot s (c_top s) \<noteq> cslot s b" if "c_top s < lbottom s"
    using write_other [OF assms(2) push_write(2), of "c_top s"] that by simp
  then show ?thesis unfolding push_write(1)
    by (intro conc_invI [OF assms(2)])
      (use conc_inv_base [OF assms(2)] push_write(2) in \<open>auto simp: conc_defs\<close>)
next
  case (steal_win i t v)
  have "t < lbottom s" using conc_inv_thief [OF assms(2) steal_win(2)] steal_win(3)
    by (simp add: thief_ok_def)
  then show ?thesis unfolding steal_win(1)
    by (intro conc_invI [OF assms(2)])
      (use conc_inv_base [OF assms(2)] steal_win(2,3) in
        \<open>auto simp: conc_defs thief_ok_def split: owner_pc.splits if_splits\<close>)
next
  case (steal_start i)
  then show ?thesis unfolding steal_start(1)
    by (intro conc_invI [OF assms(2)])
      (use conc_inv_base [OF assms(2)] in \<open>auto simp: conc_defs thief_ok_def split: owner_pc.splits\<close>)
next
  case (steal_empty i t)
  then show ?thesis unfolding steal_empty(1)
    by (intro conc_invI [OF assms(2)])
      (use conc_inv_base [OF assms(2)] in \<open>auto simp: conc_defs thief_ok_def split: owner_pc.splits\<close>)
next
  case (steal_some i t)
  have "t \<le> c_top s" using conc_inv_thief [OF assms(2) steal_some(2)] by (simp add: thief_ok_def)
  moreover have "c_bottom s \<le> lbottom s"
    using conc_inv_base [OF assms(2)] by (auto simp: conc_defs split: owner_pc.splits)
  ultimately show ?thesis unfolding steal_some(1) using steal_some(3)
    by (intro conc_invI [OF assms(2)])
      (use conc_inv_base [OF assms(2)] in \<open>auto simp: conc_defs thief_ok_def split: owner_pc.splits\<close>)
next
  case (steal_read i t)
  have "thief_ok s (TRead t)" using conc_inv_thief [OF assms(2) steal_read(2)] .
  then show ?thesis unfolding steal_read(1)
    by (intro conc_invI [OF assms(2)])
      (use conc_inv_base [OF assms(2)] in \<open>auto simp: conc_defs thief_ok_def split: owner_pc.splits\<close>)
next
  case (steal_abort i t v)
  then show ?thesis unfolding steal_abort(1)
    by (intro conc_invI [OF assms(2)])
      (use conc_inv_base [OF assms(2)] in \<open>auto simp: conc_defs thief_ok_def split: owner_pc.splits\<close>)
qed (hypsubst, intro conc_invI [OF assms(2)];
     use conc_inv_base [OF assms(2)] in \<open>auto simp: conc_defs split: if_splits\<close>)+

lemma conc_inv_init: "0 < cap \<Longrightarrow> conc_inv (conc_init buf cap)"
  by (simp add: conc_inv_def conc_defs conc_init_def thief_ok_def)

lemma dq_reachable_inv: "dq_reachable buf cap s \<Longrightarrow> conc_inv s"
  by (induction rule: dq_reachable.induct) (auto intro: conc_inv_init conc_inv_step)

section \<open>Nothing is lost, nothing is handed out twice\<close>

lemma items_cong:
  "c_top s' = c_top s \<Longrightarrow> lbottom s' = lbottom s \<Longrightarrow> c_capacity s' = c_capacity s \<Longrightarrow>
   (\<And>i. c_top s \<le> i \<Longrightarrow> i < lbottom s \<Longrightarrow>
      c_buffer s' (cslot s i) = c_buffer s (cslot s i)) \<Longrightarrow> items s' = items s"
  by (simp add: items_def cslot_def)

lemma items_push:
  assumes "conc_inv s" "c_owner s = OPushBottom v b"
  shows "items (s\<lparr>c_bottom := b + 1, c_owner := OIdle, c_pushed := xs\<rparr>) = items s @ [v]"
proof -
  have ok: "c_top s \<le> b" "c_bottom s = b" "c_buffer s (cslot s b) = v"
    using conc_inv_base [OF assms(1)] assms(2) by (auto simp: conc_defs)
  then show ?thesis
    using assms(2) upto_rec2 [OF ok(1)] by (simp add: items_def lbottom_def)
qed

lemma items_pop_top:
  assumes "conc_inv s" "c_owner s = OPopTop b" "c_top s < b"
  shows "items s = items (s\<lparr>c_owner := OPopRead b (c_top s)\<rparr>) @ [c_buffer s (cslot s b)]"
  using assms upto_rec2 [of "c_top s" b] by (simp add: items_def lbottom_def)

lemma items_pop_win:
  assumes "c_owner s = OPopCas b v" "c_top s = b" "conc_inv s"
  shows "items s = [v]" "items (s\<lparr>c_top := b + 1, c_owner := OPopFinish b v True\<rparr>) = []"
  using assms by (auto simp: items_def lbottom_def conc_inv_def conc_base_def owner_ok_def)

lemma items_steal_win:
  assumes "conc_inv s" "c_thief s i = TCas t v" "c_top s = t"
  shows "items s = v # items (s\<lparr>c_top := t + 1, c_thief := q, c_taken := xs\<rparr>)"
proof -
  have "t < lbottom s" "v = c_buffer s (cslot s t)"
    using conc_inv_thief [OF assms(1,2)] assms(3) by (auto simp: thief_ok_def)
  moreover have "lbottom (s\<lparr>c_top := t + 1, c_thief := q, c_taken := xs\<rparr>) = lbottom s"
    by (simp add: lbottom_def split: owner_pc.split)
  ultimately show ?thesis
    using assms(3) upto_rec1 [of t "lbottom s - 1"] by (simp add: items_def)
qed

text \<open>
  How a step changes the contents: it leaves them alone, appends the pushed item, or takes the
  newest (owner) or the oldest (thief, or the owner racing for the last one).
\<close>

lemma dq_step_effect:
  assumes "dq_step s s'" "conc_inv s"
  shows "(items s' = items s \<and> c_pushed s' = c_pushed s \<and>
            mset (c_taken s') + mset (in_hand s') = mset (c_taken s) + mset (in_hand s)) \<or>
         (\<exists>v. items s' = items s @ [v] \<and> c_pushed s' = c_pushed s @ [v] \<and>
            c_taken s' = c_taken s \<and> in_hand s' = in_hand s) \<or>
         (\<exists>v. items s = items s' @ [v] \<and> c_pushed s' = c_pushed s \<and>
            c_taken s' = c_taken s \<and> in_hand s = [] \<and> in_hand s' = [v]) \<or>
         (\<exists>v. items s = v # items s' \<and> c_pushed s' = c_pushed s \<and>
            c_taken s' = c_taken s @ [v] \<and> in_hand s' = in_hand s)"
  using assms(1)
proof cases
  case (push_write v b)
  have "items s' = items s" unfolding push_write(1)
    by (rule items_cong)
      (use write_other [OF assms(2) push_write(2)] push_write(2) in \<open>auto simp: lbottom_def\<close>)
  then show ?thesis using push_write by (simp add: in_hand_def)
next
  case (push_publish v b)
  then show ?thesis using items_push [OF assms(2) push_publish(2)] by (simp add: in_hand_def)
next
  case (pop_top b)
  then show ?thesis
  proof (cases "c_top s = b")
    case True
    then have "items s' = items s" unfolding pop_top(1)
      by (intro items_cong) (use pop_top in \<open>auto simp: lbottom_def\<close>)
    then show ?thesis using pop_top True by (simp add: in_hand_def)
  next
    case False
    then show ?thesis using items_pop_top [OF assms(2) pop_top(2)] pop_top
      by (auto simp: in_hand_def)
  qed
next
  case (pop_win b v)
  then show ?thesis using items_pop_win [OF pop_win(2,3) assms(2)] by (simp add: in_hand_def)
next
  case (steal_win i t v)
  then show ?thesis
    using items_steal_win [OF assms(2) steal_win(2,3), where q = "(c_thief s)(i := TIdle)" and xs = "c_taken s @ [v]"]
    by (simp add: in_hand_def split: owner_pc.split)
qed (rule disjI1,
     (use conc_inv_base [OF assms(2)] in
       \<open>auto simp: conc_defs items_def in_hand_def split: owner_pc.splits\<close>)[1])+

lemma conserved_step: "dq_step s s' \<Longrightarrow> conc_inv s \<Longrightarrow> conserved s \<Longrightarrow> conserved s'"
  using dq_step_effect [of s s'] by (auto simp: conserved_def)

lemma dq_reachable_conserved: "dq_reachable buf cap s \<Longrightarrow> conserved s"
proof (induction rule: dq_reachable.induct)
  case start
  then show ?case by (simp add: conserved_def items_def in_hand_def conc_init_def lbottom_def)
next
  case (step s s')
  then show ?case by (blast intro: conserved_step dq_reachable_inv)
qed

section \<open>Properties\<close>

text \<open>
  C1. Under every interleaving of one owner and any number of thieves, at every moment each
  pushed item is in exactly one place: still in the deque, handed out by a completed pop or
  steal, or won by the owner's pop that is about to return it. So no item is lost, and if the
  pushed items are distinct no item is ever handed out twice, not even the last one, for
  which the owner and all thieves race.
\<close>

theorem abp_no_loss_no_duplicate:
  assumes "dq_reachable buf cap s"
  shows "mset (c_pushed s) = mset (c_taken s) + mset (items s) + mset (in_hand s) \<and>
         (distinct (c_pushed s) \<longrightarrow> distinct (c_taken s @ items s @ in_hand s))"
proof -
  have m: "mset (c_pushed s) = mset (c_taken s @ items s @ in_hand s)"
    using dq_reachable_conserved [OF assms] by (simp add: conserved_def)
  then have "distinct (c_pushed s) \<Longrightarrow> distinct (c_taken s @ items s @ in_hand s)"
    by (metis mset_eq_imp_distinct_iff)
  then show ?thesis using m by simp
qed

text \<open>
  A run in which the owner lowers \<open>bottom_\<close> for the last item and a thief, having read its
  indices before, wins the compare-exchange.
\<close>

definition race_state :: "nat conc" where
  "race_state =
     \<lparr>c_top = 1, c_bottom = 0, c_buffer = (\<lambda>_. 7), c_capacity = 1, c_owner = OPopCas 0 7,
      c_thief = (\<lambda>_. TIdle), c_pushed = [7], c_taken = [7]\<rparr>"

lemma race_reachable: "dq_reachable (\<lambda>_. 7) 1 race_state"
proof -
  let ?I = "conc_init (\<lambda>_. 7 :: nat) 1"
  let ?T = "\<lambda>p. (\<lambda>_. TIdle)(0 :: nat := p)"
  note step = dq_reachable.step
  have "dq_reachable (\<lambda>_. 7) 1 ?I" by (rule dq_reachable.start) simp
  then have "dq_reachable (\<lambda>_. 7) 1 (?I\<lparr>c_owner := OPushTop 7 0\<rparr>)"
    by (rule step) (use push_start [of ?I 7] in \<open>simp add: conc_init_def\<close>)
  then have "dq_reachable (\<lambda>_. 7) 1 (?I\<lparr>c_owner := OPushWrite 7 0\<rparr>)"
    by (rule step) (use push_room [of "?I\<lparr>c_owner := OPushTop 7 0\<rparr>" 7 0] in \<open>simp add: conc_init_def\<close>)
  then have "dq_reachable (\<lambda>_. 7) 1 (?I\<lparr>c_owner := OPushBottom 7 0\<rparr>)"
    by (rule step)
      (use push_write [of "?I\<lparr>c_owner := OPushWrite 7 0\<rparr>" 7 0] in \<open>simp add: conc_init_def fun_upd_idem\<close>)
  then have "dq_reachable (\<lambda>_. 7) 1 (?I\<lparr>c_bottom := 1, c_pushed := [7]\<rparr>)"
    by (rule step)
      (use push_publish [of "?I\<lparr>c_owner := OPushBottom 7 0\<rparr>" 7 0] in \<open>simp add: conc_init_def\<close>)
  then have "dq_reachable (\<lambda>_. 7) 1 (?I\<lparr>c_bottom := 1, c_pushed := [7], c_thief := ?T (TBottom 0)\<rparr>)"
    by (rule step)
      (use steal_start [of "?I\<lparr>c_bottom := 1, c_pushed := [7]\<rparr>" 0] in \<open>simp add: conc_init_def\<close>)
  then have "dq_reachable (\<lambda>_. 7) 1 (?I\<lparr>c_bottom := 1, c_pushed := [7], c_thief := ?T (TRead 0)\<rparr>)"
    by (rule step)
      (use steal_some [of "?I\<lparr>c_bottom := 1, c_pushed := [7], c_thief := ?T (TBottom 0)\<rparr>" 0 0]
        in \<open>simp add: conc_init_def\<close>)
  then have "dq_reachable (\<lambda>_. 7) 1 (?I\<lparr>c_bottom := 1, c_pushed := [7], c_thief := ?T (TCas 0 7)\<rparr>)"
    by (rule step)
      (use steal_read [of "?I\<lparr>c_bottom := 1, c_pushed := [7], c_thief := ?T (TRead 0)\<rparr>" 0 0]
        in \<open>simp add: conc_init_def\<close>)
  then have "dq_reachable (\<lambda>_. 7) 1
      (?I\<lparr>c_bottom := 1, c_pushed := [7], c_thief := ?T (TCas 0 7), c_owner := OPopStore 0\<rparr>)"
    by (rule step)
      (use pop_start [of "?I\<lparr>c_bottom := 1, c_pushed := [7], c_thief := ?T (TCas 0 7)\<rparr>"]
        in \<open>simp add: conc_init_def\<close>)
  then have "dq_reachable (\<lambda>_. 7) 1
      (?I\<lparr>c_pushed := [7], c_thief := ?T (TCas 0 7), c_owner := OPopTop 0\<rparr>)"
    by (rule step)
      (use pop_store [of "?I\<lparr>c_bottom := 1, c_pushed := [7], c_thief := ?T (TCas 0 7), c_owner := OPopStore 0\<rparr>"]
        in \<open>simp add: conc_init_def\<close>)
  then have "dq_reachable (\<lambda>_. 7) 1
      (?I\<lparr>c_pushed := [7], c_thief := ?T (TCas 0 7), c_owner := OPopRead 0 0\<rparr>)"
    by (rule step)
      (use pop_top [of "?I\<lparr>c_pushed := [7], c_thief := ?T (TCas 0 7), c_owner := OPopTop 0\<rparr>"]
        in \<open>simp add: conc_init_def\<close>)
  then have "dq_reachable (\<lambda>_. 7) 1
      (?I\<lparr>c_pushed := [7], c_thief := ?T (TCas 0 7), c_owner := OPopCas 0 7\<rparr>)"
    by (rule step)
      (use pop_last [of "?I\<lparr>c_pushed := [7], c_thief := ?T (TCas 0 7), c_owner := OPopRead 0 0\<rparr>"]
        in \<open>simp add: conc_init_def\<close>)
  then show ?thesis
    by (rule step)
      (use steal_win [of "?I\<lparr>c_pushed := [7], c_thief := ?T (TCas 0 7), c_owner := OPopCas 0 7\<rparr>" 0]
        in \<open>simp add: conc_init_def race_state_def fun_upd_idem\<close>)
qed

theorem abp_no_loss_no_duplicate_witness:
  "mset (c_pushed race_state) = mset (c_taken race_state) + mset (items race_state) + mset (in_hand race_state) \<and>
   distinct (c_taken race_state @ items race_state @ in_hand race_state)"
  using abp_no_loss_no_duplicate [OF race_reachable] by (simp add: race_state_def)



end
