(* ===== verification/Prio_Queues.thy ===== *)
theory Prio_Queues
  imports Api_Types
begin

text \<open>
  The three mutex-protected priority FIFOs of the runtime: the global injection queue
  (\<open>core/executor/GlobalQueue.hpp\<close>), the ready queue of \<open>StandardRuntime\<close> and a worker's
  static-mode inbox. They promise the same thing, stated once as the locale \<open>scan_fifo\<close> and its
  extension \<open>strict_fifo\<close> for the default, most-urgent-first order.
  Element counts are \<open>nat\<close>: they count objects in memory and cannot reach their width.
\<close>

section \<open>The interface of a priority FIFO\<close>

text \<open>
  \<open>levels\<close> is the abstraction: one list per priority, oldest first. \<open>deq\<close> takes the oldest
  element of the first non-empty level in the order of its scan.
\<close>

locale scan_fifo =
  fixes inv :: "'q \<Rightarrow> bool"
    and levels :: "'q \<Rightarrow> 'h list list"
    and okay :: "'h \<Rightarrow> bool"
    and enq :: "'q \<Rightarrow> 'h \<Rightarrow> TaskPriority \<Rightarrow> 'q"
    and deq :: "'q \<Rightarrow> 'q \<times> 'h option"
    and order :: "nat list"
  assumes order_set: "set order = {..<kPriorityCount}"
    and levels_len: "inv q \<Longrightarrow> length (levels q) = kPriorityCount"
    and enq_inv: "inv q \<Longrightarrow> okay h \<Longrightarrow> inv (enq q h p)"
    and enq_levels: "inv q \<Longrightarrow>
      levels (enq q h p) = (levels q)[prio_index p := levels q ! prio_index p @ [h]]"
    and deq_inv: "inv q \<Longrightarrow> inv (fst (deq q))"
    and deq_some: "inv q \<Longrightarrow> List.find (\<lambda>i. levels q ! i \<noteq> []) order = Some i \<Longrightarrow>
      snd (deq q) = Some (hd (levels q ! i)) \<and>
      levels (fst (deq q)) = (levels q)[i := tl (levels q ! i)]"
    and deq_none: "inv q \<Longrightarrow> List.find (\<lambda>i. levels q ! i \<noteq> []) order = None \<Longrightarrow>
      deq q = (q, None)"
begin

lemma enq_mset:
  "inv q \<Longrightarrow> mset (concat (levels (enq q h p))) = add_mset h (mset (concat (levels q)))"
  by (simp add: enq_levels levels_len mset_concat_append_at)

lemma scan_none_iff:
  "inv q \<Longrightarrow> List.find (\<lambda>p. levels q ! p \<noteq> []) order = None \<longleftrightarrow> concat (levels q) = []"
  by (simp only: find_None_all concat_all_empty levels_len order_set) auto

lemma deq_mset:
  assumes "inv q"
  shows "mset (concat (levels (fst (deq q)))) +
           mset (case snd (deq q) of None \<Rightarrow> [] | Some h \<Rightarrow> [h]) = mset (concat (levels q))"
proof (cases "List.find (\<lambda>p. levels q ! p \<noteq> []) order")
  case None
  then show ?thesis using deq_none [OF assms] by simp
next
  case (Some p)
  then have "p < length (levels q)" "levels q ! p \<noteq> []"
    using find_Some_in levels_len [OF assms] order_set by force+
  then show ?thesis using deq_some [OF assms Some] mset_concat_tl_at by fastforce
qed

lemma deq_none_iff: "inv q \<Longrightarrow> snd (deq q) = None \<longleftrightarrow> concat (levels q) = []"
  by (cases "List.find (\<lambda>p. levels q ! p \<noteq> []) order")
    (use scan_none_iff [of q] deq_some [of q] deq_none [of q] in auto)

end

locale strict_fifo = scan_fifo inv levels okay enq deq "scan_order False"
  for inv :: "'q \<Rightarrow> bool" and levels :: "'q \<Rightarrow> 'h list list" and okay enq deq
begin

text \<open>Strict priority: what comes out is the oldest element of the most urgent non-empty level.\<close>

lemma deq_highest:
  assumes "inv q" "snd (deq q) = Some h"
  obtains p where "p < kPriorityCount" "levels q ! p \<noteq> []" "h = hd (levels q ! p)"
    "\<forall>p' < p. levels q ! p' = []" "levels (fst (deq q)) = (levels q)[p := tl (levels q ! p)]"
proof (cases "List.find (\<lambda>p. levels q ! p \<noteq> []) (scan_order False)")
  case None
  then show ?thesis using deq_none [OF assms(1)] assms(2) by simp
next
  case (Some p)
  then have "0 \<le> p \<and> p < kPriorityCount \<and> levels q ! p \<noteq> [] \<and> (\<forall>j. 0 \<le> j \<and> j < p \<longrightarrow> \<not> levels q ! j \<noteq> [])"
    unfolding scan_order_high by (rule find_upt_least)
  then show ?thesis using that [of p] deq_some [OF assms(1) Some] assms(2) by simp
qed

primrec drain :: "'q \<Rightarrow> nat \<Rightarrow> 'h list" where
  "drain q 0 = []"
| "drain q (Suc n) =
     (case snd (deq q) of None \<Rightarrow> [] | Some h \<Rightarrow> h # drain (fst (deq q)) n)"

lemma concat_first_level:
  "p < length xss \<Longrightarrow> xss ! p \<noteq> [] \<Longrightarrow> \<forall>p' < p. xss ! p' = [] \<Longrightarrow>
   concat xss = hd (xss ! p) # concat (xss[p := tl (xss ! p)])"
proof (induction xss arbitrary: p)
  case (Cons xs xss)
  show ?case
  proof (cases p)
    case 0
    then show ?thesis using Cons.prems by simp
  next
    case (Suc p')
    then have "xs = []" using Cons.prems(3) by fastforce
    moreover have "\<forall>j < p'. xss ! j = []"
      using Cons.prems(3) Suc by (metis Suc_mono nth_Cons_Suc)
    ultimately show ?thesis using Suc Cons.prems Cons.IH [of p'] by simp
  qed
qed simp

text \<open>Emptying the queue yields the levels in priority order, each in arrival order.\<close>

lemma drain_take: "inv q \<Longrightarrow> drain q n = take n (concat (levels q))"
proof (induction n arbitrary: q)
  case (Suc n)
  show ?case
  proof (cases "snd (deq q)")
    case None
    then show ?thesis using deq_none_iff [OF Suc.prems] by simp
  next
    case (Some h)
    then obtain p where p: "p < kPriorityCount" "levels q ! p \<noteq> []" "h = hd (levels q ! p)"
      "\<forall>p' < p. levels q ! p' = []" "levels (fst (deq q)) = (levels q)[p := tl (levels q ! p)]"
      using deq_highest [OF Suc.prems] by metis
    then have "concat (levels q) = h # concat (levels (fst (deq q)))"
      using concat_first_level levels_len [OF Suc.prems] by metis
    then show ?thesis using Some Suc.IH [OF deq_inv [OF Suc.prems]] by simp
  qed
qed simp

end

section \<open>\<open>GlobalQueue\<close>\<close>

record global_queue =
  gq_queues :: "TaskHandle list list"
  gq_count :: nat

definition gq_new :: global_queue where
  "gq_new = \<lparr>gq_queues = replicate kPriorityCount [], gq_count = 0\<rparr>"

lemma gq_new_eq [simp]: "gq_new = \<lparr>gq_queues = [[], [], [], [], []], gq_count = 0\<rparr>"
  by (simp add: gq_new_def kPriorityCount_def numeral_eq_Suc)

definition gq_push :: "global_queue \<Rightarrow> TaskHandle \<Rightarrow> TaskPriority \<Rightarrow> global_queue" where
  "gq_push q handle priority =
     q\<lparr>gq_queues := (gq_queues q)[prio_index priority := gq_queues q ! prio_index priority @ [handle]],
       gq_count := gq_count q + 1\<rparr>"

text \<open>\<open>PopResult{}\<close> is the invalid handle with priority 0.\<close>

definition gq_pop_with_priority ::
    "global_queue \<Rightarrow> bool \<Rightarrow> global_queue \<times> TaskHandle \<times> TaskPriority" where
  "gq_pop_with_priority q lowest_first =
     (if gq_count q = 0 then (q, invalid_handle, Critical)
      else (case List.find (\<lambda>p. gq_queues q ! p \<noteq> []) (scan_order lowest_first) of
              None \<Rightarrow> (q, invalid_handle, Critical)
            | Some p \<Rightarrow>
                (q\<lparr>gq_queues := (gq_queues q)[p := tl (gq_queues q ! p)], gq_count := gq_count q - 1\<rparr>,
                 hd (gq_queues q ! p), prio_of_index p)))"

definition gq_pop :: "global_queue \<Rightarrow> bool \<Rightarrow> global_queue \<times> TaskHandle" where
  "gq_pop q lowest_first = (case gq_pop_with_priority q lowest_first of (q', h, p) \<Rightarrow> (q', h))"

definition gq_size_hint :: "global_queue \<Rightarrow> nat" where
  "gq_size_hint q = gq_count q"

definition gq_inv :: "global_queue \<Rightarrow> bool" where
  "gq_inv q \<longleftrightarrow> length (gq_queues q) = kPriorityCount \<and>
     gq_count q = length (concat (gq_queues q)) \<and> (\<forall>h \<in> set (concat (gq_queues q)). handle_valid h)"

definition as_option :: "'q \<times> TaskHandle \<Rightarrow> 'q \<times> TaskHandle option" where
  "as_option r = (fst r, if handle_valid (snd r) then Some (snd r) else None)"

lemma set_concat_update_append:
  "i < length xss \<Longrightarrow> set (concat (xss[i := xss ! i @ [x]])) = insert x (set (concat xss))"
  using mset_concat_append_at [of i xss x] by (metis set_mset_mset set_mset_add_mset_insert)

lemma set_concat_update_tl:
  assumes "i < length xss" "xss ! i \<noteq> []"
  shows "set (concat (xss[i := tl (xss ! i)])) \<subseteq> set (concat xss)"
proof -
  have "set_mset (add_mset (hd (xss ! i)) (mset (concat (xss[i := tl (xss ! i)])))) = set (concat xss)"
    by (simp only: mset_concat_tl_at [OF assms] set_mset_mset)
  then show ?thesis by auto
qed

lemma hd_level_in: "i < length xss \<Longrightarrow> xss ! i \<noteq> [] \<Longrightarrow> hd (xss ! i) \<in> set (concat xss)"
  by (metis concat_all_empty hd_in_set UN_I nth_mem set_concat)

text \<open>The early-out on the counter never hides a stored handle.\<close>

lemma gq_pop_scan:
  assumes "gq_inv q" "List.find (\<lambda>p. gq_queues q ! p \<noteq> []) (scan_order lf) = Some p"
  shows "gq_pop_with_priority q lf =
    (q\<lparr>gq_queues := (gq_queues q)[p := tl (gq_queues q ! p)], gq_count := gq_count q - 1\<rparr>,
     hd (gq_queues q ! p), prio_of_index p)"
    and "p < kPriorityCount" and "gq_queues q ! p \<noteq> []" and "handle_valid (hd (gq_queues q ! p))"
proof -
  show p: "p < kPriorityCount" "gq_queues q ! p \<noteq> []" using find_Some_in [OF assms(2)] by auto
  then have "hd (gq_queues q ! p) \<in> set (concat (gq_queues q))"
    using assms(1) hd_level_in by (metis gq_inv_def)
  then show "handle_valid (hd (gq_queues q ! p))" using assms(1) by (auto simp: gq_inv_def)
  have "gq_count q \<noteq> 0"
    using assms(1) p concat_all_empty [of "gq_queues q"] by (auto simp: gq_inv_def)
  then show "gq_pop_with_priority q lf =
    (q\<lparr>gq_queues := (gq_queues q)[p := tl (gq_queues q ! p)], gq_count := gq_count q - 1\<rparr>,
     hd (gq_queues q ! p), prio_of_index p)"
    using assms(2) by (simp add: gq_pop_with_priority_def)
qed

lemma gq_pop_none:
  "List.find (\<lambda>p. gq_queues q ! p \<noteq> []) (scan_order lf) = None \<Longrightarrow>
   gq_pop_with_priority q lf = (q, invalid_handle, Critical)"
  by (simp add: gq_pop_with_priority_def)

lemma gq_inv_push: "gq_inv q \<Longrightarrow> handle_valid h \<Longrightarrow> gq_inv (gq_push q h p)"
  using set_concat_update_append [of "prio_index p" "gq_queues q" h]
  by (auto simp: gq_inv_def gq_push_def length_concat_append_at)

lemma gq_inv_pop: "gq_inv q \<Longrightarrow> gq_inv (fst (gq_pop_with_priority q lf))"
proof (cases "List.find (\<lambda>p. gq_queues q ! p \<noteq> []) (scan_order lf)")
  case None
  assume "gq_inv q"
  then show ?thesis using gq_pop_none [OF None] by simp
next
  case (Some p)
  assume i: "gq_inv q"
  note s = gq_pop_scan [OF i Some]
  have l: "p < length (gq_queues q)" using i s(2) by (simp add: gq_inv_def)
  show ?thesis
    using i s(1) length_concat_tl_at [OF l s(3)] set_concat_update_tl [OF l s(3)]
    by (auto simp: gq_inv_def)
qed

text \<open>The laws hold for both scan orders; the default order gives the strict queue.\<close>

lemma gq_scan_fifo:
  "scan_fifo gq_inv gq_queues handle_valid gq_push (\<lambda>q. as_option (gq_pop q lf)) (scan_order lf)"
proof
  fix q :: global_queue and h p
  show "set (scan_order lf) = {..<kPriorityCount}" by simp
  show "gq_inv q \<Longrightarrow> length (gq_queues q) = kPriorityCount" by (simp add: gq_inv_def)
  show "gq_inv q \<Longrightarrow> handle_valid h \<Longrightarrow> gq_inv (gq_push q h p)" by (rule gq_inv_push)
  show "gq_queues (gq_push q h p) = (gq_queues q)[prio_index p := gq_queues q ! prio_index p @ [h]]"
    by (simp add: gq_push_def)
  show "gq_inv q \<Longrightarrow> gq_inv (fst (as_option (gq_pop q lf)))"
    using gq_inv_pop [of q lf] by (auto simp: as_option_def gq_pop_def split: prod.splits)
next
  fix q :: global_queue and i
  assume "gq_inv q" "List.find (\<lambda>i. gq_queues q ! i \<noteq> []) (scan_order lf) = Some i"
  note s = gq_pop_scan [OF this]
  show "snd (as_option (gq_pop q lf)) = Some (hd (gq_queues q ! i)) \<and>
        gq_queues (fst (as_option (gq_pop q lf))) = (gq_queues q)[i := tl (gq_queues q ! i)]"
    using s(1,4) by (simp add: as_option_def gq_pop_def)
next
  fix q :: global_queue
  assume "List.find (\<lambda>i. gq_queues q ! i \<noteq> []) (scan_order lf) = None"
  then show "as_option (gq_pop q lf) = (q, None)"
    by (simp add: as_option_def gq_pop_def gq_pop_none)
qed

interpretation gq: strict_fifo gq_inv gq_queues handle_valid gq_push
    "\<lambda>q. as_option (gq_pop q False)"
  unfolding strict_fifo_def by (rule gq_scan_fifo)

interpretation gq_low: scan_fifo gq_inv gq_queues handle_valid gq_push
    "\<lambda>q. as_option (gq_pop q True)" "scan_order True"
  by (rule gq_scan_fifo)

section \<open>\<open>StandardRuntime\<close>: the ready queue under \<open>queue_mutex_\<close>\<close>

record std_queue =
  sq_ready :: "TaskHandle list list"
  sq_queued_count :: nat

definition sq_new :: std_queue where
  "sq_new = \<lparr>sq_ready = replicate kPriorityCount [], sq_queued_count = 0\<rparr>"

text \<open>\<open>StandardRuntime::enqueue_ready\<close> (the notification wakes one worker).\<close>

definition std_enqueue_ready :: "std_queue \<Rightarrow> TaskHandle \<Rightarrow> TaskPriority \<Rightarrow> std_queue" where
  "std_enqueue_ready q handle priority =
     q\<lparr>sq_ready := (sq_ready q)[prio_index priority := sq_ready q ! prio_index priority @ [handle]],
       sq_queued_count := sq_queued_count q + 1\<rparr>"

definition std_pop_locked :: "std_queue \<Rightarrow> std_queue \<times> TaskHandle" where
  "std_pop_locked q =
     (if sq_queued_count q = 0 then (q, invalid_handle)
      else (case List.find (\<lambda>p. sq_ready q ! p \<noteq> []) [0..<kPriorityCount] of
              None \<Rightarrow> (q, invalid_handle)
            | Some p \<Rightarrow>
                (q\<lparr>sq_ready := (sq_ready q)[p := tl (sq_ready q ! p)],
                   sq_queued_count := sq_queued_count q - 1\<rparr>,
                 hd (sq_ready q ! p))))"

definition std_try_pop :: "std_queue \<Rightarrow> std_queue \<times> TaskHandle" where
  "std_try_pop q = std_pop_locked q"

definition sq_inv :: "std_queue \<Rightarrow> bool" where
  "sq_inv q \<longleftrightarrow> length (sq_ready q) = kPriorityCount \<and>
     sq_queued_count q = length (concat (sq_ready q)) \<and>
     (\<forall>h \<in> set (concat (sq_ready q)). handle_valid h)"

text \<open>
  The ready queue and the global queue hold the same data, and their operations are the same
  functions of it: ``ordering matches \<open>StandardRuntime\<close>'s''.
\<close>

definition sq_as_gq :: "std_queue \<Rightarrow> global_queue" where
  "sq_as_gq q = \<lparr>gq_queues = sq_ready q, gq_count = sq_queued_count q\<rparr>"

lemma sq_as_gq_push: "sq_as_gq (std_enqueue_ready q h p) = gq_push (sq_as_gq q) h p"
  by (simp add: sq_as_gq_def std_enqueue_ready_def gq_push_def)

lemma sq_as_gq_pop:
  "gq_pop (sq_as_gq q) False = (sq_as_gq (fst (std_pop_locked q)), snd (std_pop_locked q))"
  by (simp add: sq_as_gq_def std_pop_locked_def gq_pop_def gq_pop_with_priority_def scan_order_high
      split: option.split)

lemma sq_as_gq_inv: "gq_inv (sq_as_gq q) = sq_inv q"
  by (simp add: sq_as_gq_def gq_inv_def sq_inv_def)

lemma sq_as_gq_levels: "gq_queues (sq_as_gq q) = sq_ready q"
  by (simp add: sq_as_gq_def)

interpretation sq: strict_fifo sq_inv sq_ready handle_valid std_enqueue_ready
    "\<lambda>q. as_option (std_try_pop q)"
proof
  fix q :: std_queue and h p
  show "set (scan_order False) = {..<kPriorityCount}" by simp
  show "sq_inv q \<Longrightarrow> length (sq_ready q) = kPriorityCount" by (simp add: sq_inv_def)
  show "sq_inv q \<Longrightarrow> handle_valid h \<Longrightarrow> sq_inv (std_enqueue_ready q h p)"
    using gq.enq_inv [of "sq_as_gq q" h p] by (simp add: sq_as_gq_inv flip: sq_as_gq_push)
  show "sq_inv q \<Longrightarrow> sq_ready (std_enqueue_ready q h p) =
      (sq_ready q)[prio_index p := sq_ready q ! prio_index p @ [h]]"
    by (simp add: std_enqueue_ready_def)
  show "sq_inv q \<Longrightarrow> sq_inv (fst (as_option (std_try_pop q)))"
    using gq.deq_inv [of "sq_as_gq q"] by (simp add: as_option_def sq_as_gq_pop sq_as_gq_inv std_try_pop_def)
next
  fix q :: std_queue and i
  assume "sq_inv q" "List.find (\<lambda>i. sq_ready q ! i \<noteq> []) (scan_order False) = Some i"
  then show "snd (as_option (std_try_pop q)) = Some (hd (sq_ready q ! i)) \<and>
      sq_ready (fst (as_option (std_try_pop q))) = (sq_ready q)[i := tl (sq_ready q ! i)]"
    using gq.deq_some [of "sq_as_gq q" i]
    by (auto simp: as_option_def sq_as_gq_pop sq_as_gq_inv sq_as_gq_levels std_try_pop_def
        split: if_splits)
next
  fix q :: std_queue
  assume "List.find (\<lambda>i. sq_ready q ! i \<noteq> []) (scan_order False) = None"
  then show "as_option (std_try_pop q) = (q, None)"
    by (simp add: as_option_def std_try_pop_def std_pop_locked_def flip: scan_order_high)
qed

section \<open>Properties\<close>

text \<open>
  C24. \<open>GlobalQueue::pop\<close>: it returns an invalid handle exactly when nothing is queued (the
  unsynchronised early-out included), and otherwise the oldest handle of the most urgent
  non-empty priority (of the least urgent one with \<open>lowest_first\<close>), removing that handle and
  nothing else and reporting the priority it was queued under.
\<close>

theorem global_queue_pop_correct:
  assumes "gq_inv q" "gq_pop_with_priority q lf = (q', h, prio)"
  shows "(handle_valid h \<longleftrightarrow> concat (gq_queues q) \<noteq> []) \<and> gq_inv q' \<and>
    (handle_valid h \<longrightarrow>
       gq_queues q ! prio_index prio = h # gq_queues q' ! prio_index prio \<and>
       gq_queues q' = (gq_queues q)[prio_index prio := tl (gq_queues q ! prio_index prio)] \<and>
       (\<forall>p. (if lf then prio < p else p < prio) \<longrightarrow> gq_queues q ! prio_index p = []))"
proof (cases "List.find (\<lambda>p. gq_queues q ! p \<noteq> []) (scan_order lf)")
  case None
  then have "concat (gq_queues q) = []"
    using gq.scan_none_iff [OF assms(1)] gq_low.scan_none_iff [OF assms(1)] by (cases lf) auto
  then show ?thesis using gq_pop_none [OF None] assms by simp
next
  case (Some i)
  note s = gq_pop_scan [OF assms(1) Some]
  have l: "i < length (gq_queues q)" using assms(1) s(2) by (simp add: gq_inv_def)
  have q': "h = hd (gq_queues q ! i)" "prio = prio_of_index i"
      "gq_queues q' = (gq_queues q)[i := tl (gq_queues q ! i)]"
    using s(1) assms(2) by auto
  have before: "gq_queues q ! prio_index p = []" if "if lf then prio < p else p < prio" for p
  proof (rule ccontr)
    assume ne: "gq_queues q ! prio_index p \<noteq> []"
    have "prio_index p \<in> set (scan_order lf)" by simp
    then show False using Some that ne s(2) q'(2)
      by (cases lf; cases p; cases prio)
        (auto simp: scan_order_def kPriorityCount_def upt_rec less_TaskPriority_def priority_less_def prio_of_index_def
          numeral_eq_Suc split: if_splits)
  qed
  show ?thesis
    using q' s l before gq_inv_pop [OF assms(1), of lf] assms(2) concat_all_empty [of "gq_queues q"]
    by (auto simp: assms(2))
qed

theorem global_queue_pop_correct_witness:
  "let h1 = \<lparr>hindex = 4, hgeneration = 0\<rparr>; h2 = \<lparr>hindex = 9, hgeneration = 2\<rparr>;
       q = gq_push (gq_push gq_new h1 Low) h2 High
   in \<exists>q'. gq_pop_with_priority q False = (q', h2, High) \<and> concat (gq_queues q') = [h1]"
proof -
  let ?h1 = "\<lparr>hindex = 4, hgeneration = 0\<rparr> :: TaskHandle" and ?h2 = "\<lparr>hindex = 9, hgeneration = 2\<rparr> :: TaskHandle"
  let ?q = "gq_push (gq_push gq_new ?h1 Low) ?h2 High"
  have i: "gq_inv ?q"
    by (intro gq_inv_push) (simp_all add: gq_inv_def kPriorityCount_def handle_valid_def kInvalidIndex_def)
  obtain q' h prio where r: "gq_pop_with_priority ?q False = (q', h, prio)" by (metis prod_cases3)
  from global_queue_pop_correct [OF i r] r show ?thesis
    by (simp add: gq_pop_with_priority_def gq_push_def scan_order_def kPriorityCount_def
        upt_rec prio_of_index_def numeral_eq_Suc Let_def)
qed

datatype queue_op = Enqueue TaskHandle TaskPriority | Dequeue

fun run_global :: "global_queue \<Rightarrow> queue_op list \<Rightarrow> TaskHandle list" where
  "run_global q [] = []"
| "run_global q (Enqueue h p # ops) = run_global (gq_push q h p) ops"
| "run_global q (Dequeue # ops) = (case gq_pop q False of (q', h) \<Rightarrow> h # run_global q' ops)"

fun run_standard :: "std_queue \<Rightarrow> queue_op list \<Rightarrow> TaskHandle list" where
  "run_standard q [] = []"
| "run_standard q (Enqueue h p # ops) = run_standard (std_enqueue_ready q h p) ops"
| "run_standard q (Dequeue # ops) = (case std_try_pop q of (q', h) \<Rightarrow> h # run_standard q' ops)"

lemma run_same: "run_standard q ops = run_global (sq_as_gq q) ops"
  by (induction q ops rule: run_standard.induct)
    (simp_all add: sq_as_gq_push sq_as_gq_pop std_try_pop_def split: prod.split)

text \<open>
  The baseline runtime and the injection queue agree on order: any sequence of enqueues and
  strict dequeues, applied to an empty ready queue of \<open>StandardRuntime\<close> and to an empty
  \<open>GlobalQueue\<close>, returns the same handles (invalid ones included) in the same order.
\<close>

theorem standard_and_global_same_order: "run_standard sq_new ops = run_global gq_new ops"
  using run_same [of sq_new ops] by (simp add: sq_as_gq_def sq_new_def kPriorityCount_def numeral_eq_Suc)

end
