(* ===== verification/Sharded_Counter.thy ===== *)
theory Sharded_Counter
  imports TB_Prelude
begin

text \<open>
  \<open>core/ShardedCounter.hpp\<close> and \<open>.cpp\<close>: the per-thread slot assignment and the write-mostly
  counter. Slot values are 64-bit words, read as signed by \<open>unsigned_sum\<close>.
\<close>

definition kCounterShards :: nat where
  "kCounterShards = 16"

section \<open>\<open>thread_slot()\<close>\<close>

text \<open>
  \<open>g_next_slot\<close> and the \<open>thread_local\<close> of every thread that has called the function. A thread
  gets its slot on first use and keeps it.
\<close>

record thread_slots =
  ts_next :: u32
  ts_slot :: "nat \<rightharpoonup> nat"

definition thread_slot :: "nat \<Rightarrow> thread_slots \<Rightarrow> thread_slots \<times> nat" where
  "thread_slot tid ts =
     (case ts_slot ts tid of
        Some slot \<Rightarrow> (ts, slot)
      | None \<Rightarrow> (let slot = unat (ts_next ts) mod kCounterShards in
                 (ts\<lparr>ts_next := ts_next ts + 1, ts_slot := (ts_slot ts)(tid \<mapsto> slot)\<rparr>, slot)))"

primrec assign_slots :: "nat list \<Rightarrow> thread_slots \<Rightarrow> thread_slots \<times> nat list" where
  "assign_slots [] ts = (ts, [])"
| "assign_slots (tid # tids) ts =
     (case thread_slot tid ts of (ts', slot) \<Rightarrow>
        case assign_slots tids ts' of (ts'', slots) \<Rightarrow> (ts'', slot # slots))"

lemma thread_slot_less:
  "(\<forall>slot \<in> ran (ts_slot ts). slot < kCounterShards) \<Longrightarrow> snd (thread_slot tid ts) < kCounterShards"
  by (auto simp: thread_slot_def Let_def kCounterShards_def ran_def split: option.split)

lemma thread_slot_stable: "thread_slot tid (fst (thread_slot tid ts)) =
    (fst (thread_slot tid ts), snd (thread_slot tid ts))"
  by (auto simp: thread_slot_def Let_def split: option.split)

lemma assign_slots_fresh:
  "distinct tids \<Longrightarrow> (\<forall>tid \<in> set tids. ts_slot ts tid = None) \<Longrightarrow>
   unat (ts_next ts) + length tids \<le> 2 ^ 32 \<Longrightarrow>
   snd (assign_slots tids ts) = map (\<lambda>k. (unat (ts_next ts) + k) mod kCounterShards) [0..<length tids]"
proof (induction tids arbitrary: ts)
  case (Cons tid tids)
  note prems = Cons.prems and IH = Cons.IH
  let ?slot = "unat (ts_next ts) mod kCounterShards"
  let ?ts = "ts\<lparr>ts_next := ts_next ts + 1, ts_slot := (ts_slot ts)(tid \<mapsto> ?slot)\<rparr>"
  have t: "thread_slot tid ts = (?ts, ?slot)"
    using prems by (simp add: thread_slot_def Let_def)
  have n: "\<forall>t \<in> set tids. ts_slot ?ts t = None"
    using prems by auto
  have eq: "map (\<lambda>k. (unat (ts_next ts) + k) mod kCounterShards) [0..<length (tid # tids)] =
      unat (ts_next ts) mod kCounterShards #
      map (\<lambda>k. (Suc (unat (ts_next ts)) + k) mod kCounterShards) [0..<length tids]"
    by (rule nth_equalityI) (auto simp: nth_Cons' less_Suc_eq_0_disj simp del: upt_Suc)
  show ?case
  proof (cases tids)
    case Nil
    then show ?thesis using t by simp
  next
    case (Cons t2 ts2)
    then have "unat (ts_next ts + 1) = Suc (unat (ts_next ts))"
      using prems by (simp add: unat_word_ariths)
    then have IH': "snd (assign_slots tids ?ts) =
        map (\<lambda>k. (Suc (unat (ts_next ts)) + k) mod kCounterShards) [0..<length tids]"
      using IH [of ?ts] prems n by simp
    have "snd (assign_slots (tid # tids) ts) = ?slot # snd (assign_slots tids ?ts)"
      by (simp add: t split: prod.split)
    then show ?thesis unfolding IH' eq .
  qed
qed simp

lemma mod_shift_cancel:
  assumes "j < m" "k < m" "(n + j) mod m = (n + k) mod (m :: nat)"
  shows "j = k"
proof -
  have "(int n + int j) mod int m = (int n + int k) mod int m"
    using assms(3) by (metis of_nat_add of_nat_mod)
  then have "(int n + int j - int n) mod int m = (int n + int k - int n) mod int m"
    by (rule mod_diff_cong) simp
  then show ?thesis using assms(1,2) by simp
qed

section \<open>\<open>ShardedCounter\<close>\<close>

type_synonym sharded_counter = "u64 list"

definition sc_new :: sharded_counter where
  "sc_new = replicate kCounterShards 0"

text \<open>\<open>home\<close> is the caller's \<open>thread_slot()\<close>.\<close>

definition sc_add :: "nat \<Rightarrow> u64 \<Rightarrow> sharded_counter \<Rightarrow> sharded_counter" where
  "sc_add home delta c = c[home := c ! home + delta]"

definition sc_increment :: "nat \<Rightarrow> sharded_counter \<Rightarrow> sharded_counter" where
  "sc_increment home c = sc_add home 1 c"

definition sc_sum :: "sharded_counter \<Rightarrow> u64" where
  "sc_sum c = fold (\<lambda>slot total. total + slot) c 0"

definition unsigned_sum :: "sharded_counter \<Rightarrow> u64" where
  "unsigned_sum c = (let total = sc_sum c in if sint total > 0 then total else 0)"

lemma sc_sum_list: "sc_sum c = sum_list c"
proof -
  have "fold (\<lambda>slot total. total + slot) c a = a + sum_list c" for a :: u64
    by (induction c arbitrary: a) (auto simp: algebra_simps)
  then show ?thesis by (simp add: sc_sum_def)
qed

lemma sum_list_update_word: "i < length c \<Longrightarrow> sum_list (c[i := x]) = sum_list c - c ! i + (x :: u64)"
  by (induction c arbitrary: i) (auto split: nat.split simp: algebra_simps)

lemma sc_sum_add: "home < length c \<Longrightarrow> sc_sum (sc_add home delta c) = sc_sum c + delta"
  by (simp add: sc_sum_list sc_add_def sum_list_update_word)

lemma length_sc_add [simp]: "length (sc_add home delta c) = length c"
  by (simp add: sc_add_def)

text \<open>
  C34. The total of a sharded counter is the sum of everything added, whichever threads did the
  adding and in whatever order; it starts at zero.
\<close>

theorem sharded_counter_total:
  assumes "\<forall>(home, delta) \<in> set ops. home < kCounterShards"
  shows "sc_sum (fold (\<lambda>(home, delta). sc_add home delta) ops sc_new) = sum_list (map snd ops)"
proof -
  have "length c = kCounterShards \<Longrightarrow> \<forall>(home, delta) \<in> set ops. home < kCounterShards \<Longrightarrow>
      sc_sum (fold (\<lambda>(home, delta). sc_add home delta) ops c) = sc_sum c + sum_list (map snd ops)" for c
    by (induction ops arbitrary: c) (auto simp: sc_sum_add algebra_simps)
  from this [of sc_new] assms show ?thesis
    by (simp add: sc_new_def sc_sum_list sum_list_replicate)
qed

theorem sharded_counter_total_witness:
  "sc_sum (fold (\<lambda>(home, delta). sc_add home delta) [(3, 5), (0, 2), (3, 4)] sc_new) = 11"
  using sharded_counter_total [of "[(3, 5), (0, 2), (3, 4)]"] by (simp add: kCounterShards_def)

text \<open>
  \<open>thread_slot\<close> hands out slots round-robin: up to sixteen threads that ask for the first
  time get pairwise different slots, as long as the 32-bit counter does not wrap.
\<close>

theorem thread_slots_distinct:
  assumes "distinct tids" "\<forall>tid \<in> set tids. ts_slot ts tid = None"
    and "length tids \<le> kCounterShards" "unat (ts_next ts) + length tids \<le> 2 ^ 32"
  shows "distinct (snd (assign_slots tids ts)) \<and> set (snd (assign_slots tids ts)) \<subseteq> {..<kCounterShards}"
proof -
  let ?n = "unat (ts_next ts)"
  have "inj_on (\<lambda>k. (?n + k) mod kCounterShards) (set [0..<length tids])"
  proof (rule inj_onI)
    fix j k
    assume "j \<in> set [0..<length tids]" "k \<in> set [0..<length tids]"
      and "(?n + j) mod kCounterShards = (?n + k) mod kCounterShards"
    then show "j = k" using assms(3) by (intro mod_shift_cancel [of j kCounterShards k ?n]) auto
  qed
  moreover have "0 < kCounterShards" by (simp add: kCounterShards_def)
  ultimately show ?thesis
    using assign_slots_fresh [OF assms(1,2,4)] by (auto simp: distinct_map)
qed

theorem thread_slots_distinct_witness:
  "distinct (snd (assign_slots [7, 3, 9] \<lparr>ts_next = 15, ts_slot = Map.empty\<rparr>)) \<and>
   set (snd (assign_slots [7, 3, 9] \<lparr>ts_next = 15, ts_slot = Map.empty\<rparr>)) \<subseteq> {..<kCounterShards}"
  by (rule thread_slots_distinct) (simp_all add: kCounterShards_def)

end
