(* ===== verification/Task_Graph.thy ===== *)
theory Task_Graph
  imports Api_Types
begin

text \<open>
  \<open>core/taskgraph/TaskGraph.hpp\<close> and \<open>.cpp\<close>: construction of a dependency graph, Kahn's
  algorithm, and submission of the nodes through \<open>submit_after\<close> of an arbitrary runtime. Node ids
  are \<open>nat\<close> with the cast to \<open>std::uint32_t\<close> written out; the counters of Kahn's algorithm are
  32-bit words and wrap.
\<close>

section \<open>The graph\<close>

record 'b node =
  n_desc :: "'b TaskDesc"
  n_preds :: "nat list"
  n_succs :: "nat list"

record 'b graph =
  g_nodes :: "'b node list"
  g_edges :: nat

definition graph_empty :: "'b graph" where
  "graph_empty = \<lparr>g_nodes = [], g_edges = 0\<rparr>"

definition node_id :: "nat \<Rightarrow> nat" where
  "node_id i = i mod 2 ^ 32"

definition graph_add :: "'b TaskDesc \<Rightarrow> 'b graph \<Rightarrow> 'b graph \<times> nat" where
  "graph_add desc g =
     (g\<lparr>g_nodes := g_nodes g @ [\<lparr>n_desc = desc, n_preds = [], n_succs = []\<rparr>]\<rparr>,
      node_id (length (g_nodes g)))"

text \<open>
  \<open>add_edge\<close> asserts in debug builds what it then tests in every build: the flag says whether
  the assertions are compiled in, \<open>None\<close> is a failed assertion.
\<close>

definition add_edge :: "bool \<Rightarrow> nat \<Rightarrow> nat \<Rightarrow> 'b graph \<Rightarrow> 'b graph option" where
  "add_edge debug before after g =
     (let n = length (g_nodes g) in
      if debug \<and> \<not> (before < n \<and> after < n \<and> before \<noteq> after) then None
      else if before \<ge> n \<or> after \<ge> n then Some g
      else if before = after then Some g
      else
        (let nodes1 = (g_nodes g)[after :=
               (g_nodes g ! after)\<lparr>n_preds := n_preds (g_nodes g ! after) @ [before]\<rparr>];
             nodes2 = nodes1[before :=
               (nodes1 ! before)\<lparr>n_succs := n_succs (nodes1 ! before) @ [after]\<rparr>]
         in Some (g\<lparr>g_nodes := nodes2, g_edges := g_edges g + 1\<rparr>)))"

definition node_count :: "'b graph \<Rightarrow> nat" where
  "node_count g = length (g_nodes g)"

definition edge_count :: "'b graph \<Rightarrow> nat" where
  "edge_count g = g_edges g"

section \<open>Kahn's algorithm\<close>

definition release_successor :: "nat \<Rightarrow> u32 list \<times> nat list \<Rightarrow> u32 list \<times> nat list" where
  "release_successor s st =
     (let remaining = (fst st)[s := fst st ! s - 1] in
      (remaining, if remaining ! s = 0 then snd st @ [s] else snd st))"

partial_function (option) kahn_loop ::
    "'b node list \<Rightarrow> nat list \<Rightarrow> u32 list \<Rightarrow> nat list \<Rightarrow> nat list option" where
  "kahn_loop nodes ready remaining order =
     (case ready of
        [] \<Rightarrow> Some order
      | v # rest \<Rightarrow>
          (let st = fold release_successor (n_succs (nodes ! v)) (remaining, rest) in
           kahn_loop nodes (snd st) (fst st) (order @ [v])))"

declare kahn_loop.simps [code]

definition topological_order :: "'b graph \<Rightarrow> nat list option" where
  "topological_order g =
     (let nodes = g_nodes g; n = length nodes;
          remaining = map (\<lambda>i. of_nat (length (n_preds (nodes ! i)))) [0..<n];
          ready = map node_id (filter (\<lambda>i. remaining ! i = 0) [0..<n])
      in map_option (\<lambda>order. if length order \<noteq> n then [] else order)
           (kahn_loop nodes ready remaining []))"

definition is_acyclic :: "'b graph \<Rightarrow> bool option" where
  "is_acyclic g =
     (if g_nodes g = [] then Some True
      else map_option (\<lambda>order. order \<noteq> []) (topological_order g))"

section \<open>Well-formed graphs\<close>

text \<open>Every edge is recorded at both its ends, as often as it was added.\<close>

definition graph_ok :: "'b graph \<Rightarrow> bool" where
  "graph_ok g \<longleftrightarrow>
     (let nodes = g_nodes g; n = length nodes in
      (\<forall>u < n. \<forall>v < n. count_list (n_preds (nodes ! v)) u = count_list (n_succs (nodes ! u)) v) \<and>
      (\<forall>v < n. \<forall>u \<in> set (n_preds (nodes ! v)). u < n \<and> u \<noteq> v) \<and>
      (\<forall>u < n. \<forall>v \<in> set (n_succs (nodes ! u)). v < n) \<and>
      (\<forall>v < n. length (n_preds (nodes ! v)) \<le> g_edges g))"

definition edge_rel :: "'b graph \<Rightarrow> (nat \<times> nat) set" where
  "edge_rel g = {(u, v). v < length (g_nodes g) \<and> u \<in> set (n_preds (g_nodes g ! v))}"

lemma graph_okD:
  assumes "graph_ok g" "v < length (g_nodes g)"
  shows "\<And>u. u < length (g_nodes g) \<Longrightarrow>
      count_list (n_preds (g_nodes g ! v)) u = count_list (n_succs (g_nodes g ! u)) v"
    "\<And>u. u \<in> set (n_preds (g_nodes g ! v)) \<Longrightarrow> u < length (g_nodes g) \<and> u \<noteq> v"
    "\<And>w. w \<in> set (n_succs (g_nodes g ! v)) \<Longrightarrow> w < length (g_nodes g)"
    "length (n_preds (g_nodes g ! v)) \<le> g_edges g"
  using assms unfolding graph_ok_def Let_def by blast+

lemma graph_empty_ok: "graph_ok graph_empty"
  by (simp add: graph_ok_def graph_empty_def)

lemma graph_okI:
  assumes "\<And>u v. u < length (g_nodes g) \<Longrightarrow> v < length (g_nodes g) \<Longrightarrow>
      count_list (n_preds (g_nodes g ! v)) u = count_list (n_succs (g_nodes g ! u)) v"
    and "\<And>u v. v < length (g_nodes g) \<Longrightarrow> u \<in> set (n_preds (g_nodes g ! v)) \<Longrightarrow>
      u < length (g_nodes g) \<and> u \<noteq> v"
    and "\<And>u v. u < length (g_nodes g) \<Longrightarrow> v \<in> set (n_succs (g_nodes g ! u)) \<Longrightarrow> v < length (g_nodes g)"
    and "\<And>v. v < length (g_nodes g) \<Longrightarrow> length (n_preds (g_nodes g ! v)) \<le> g_edges g"
  shows "graph_ok g"
  unfolding graph_ok_def Let_def using assms by blast

lemma graph_add_ok:
  assumes ok: "graph_ok g"
  shows "graph_ok (fst (graph_add d g))"
proof -
  let ?n = "length (g_nodes g)" and ?g = "fst (graph_add d g)"
  have len: "length (g_nodes ?g) = Suc ?n" "g_edges ?g = g_edges g" by (simp_all add: graph_add_def)
  have old: "n_preds (g_nodes ?g ! v) = (if v < ?n then n_preds (g_nodes g ! v) else [])"
    "n_succs (g_nodes ?g ! v) = (if v < ?n then n_succs (g_nodes g ! v) else [])" if "v < Suc ?n" for v
    using that by (auto simp: graph_add_def nth_append)
  have no: "v < ?n \<Longrightarrow> count_list (n_preds (g_nodes g ! v)) ?n = 0"
    "v < ?n \<Longrightarrow> count_list (n_succs (g_nodes g ! v)) ?n = 0" for v
    using graph_okD(2) [OF ok, of v ?n] graph_okD(3) [OF ok, of v ?n]
    by (metis count_list_0_iff less_irrefl)+
  show ?thesis
  proof (rule graph_okI)
    fix u v
    assume "u < length (g_nodes ?g)" "v < length (g_nodes ?g)"
    then show "count_list (n_preds (g_nodes ?g ! v)) u = count_list (n_succs (g_nodes ?g ! u)) v"
      using graph_okD(1) [OF ok, of v u] no(1) [of v] no(2) [of u]
      by (auto simp: len old less_Suc_eq)
  next
    fix u v
    assume v: "v < length (g_nodes ?g)" "u \<in> set (n_preds (g_nodes ?g ! v))"
    then have "v < ?n \<and> u \<in> set (n_preds (g_nodes g ! v))" by (auto simp: len old split: if_splits)
    then show "u < length (g_nodes ?g) \<and> u \<noteq> v" using graph_okD(2) [OF ok, of v u] len(1) by simp
  next
    fix u v
    assume "u < length (g_nodes ?g)" "v \<in> set (n_succs (g_nodes ?g ! u))"
    then have "u < ?n \<and> v \<in> set (n_succs (g_nodes g ! u))" by (auto simp: len old split: if_splits)
    then show "v < length (g_nodes ?g)" using graph_okD(3) [OF ok, of u v] len(1) by simp
  next
    fix v
    assume "v < length (g_nodes ?g)"
    then show "length (n_preds (g_nodes ?g ! v)) \<le> g_edges ?g"
      using graph_okD(4) [OF ok, of v] by (simp add: len old)
  qed
qed

lemma add_edge_nodes:
  assumes "add_edge debug a b g = Some g'" "g' \<noteq> g"
  shows "a < length (g_nodes g) \<and> b < length (g_nodes g) \<and> a \<noteq> b \<and> g_edges g' = g_edges g + 1 \<and>
    length (g_nodes g') = length (g_nodes g) \<and>
    (\<forall>v < length (g_nodes g).
       n_preds (g_nodes g' ! v) = n_preds (g_nodes g ! v) @ (if v = b then [a] else []) \<and>
       n_succs (g_nodes g' ! v) = n_succs (g_nodes g ! v) @ (if v = a then [b] else []) \<and>
       n_desc (g_nodes g' ! v) = n_desc (g_nodes g ! v))"
  using assms by (auto simp: add_edge_def Let_def nth_list_update split: if_splits)

lemma add_edge_ok:
  assumes "graph_ok g" "add_edge debug a b g = Some g'"
  shows "graph_ok g'"
proof (cases "g' = g")
  case False
  note e = add_edge_nodes [OF assms(2) False]
  then have sel: "length (g_nodes g') = length (g_nodes g)" "g_edges g' = g_edges g + 1"
    "\<And>v. v < length (g_nodes g) \<Longrightarrow> n_preds (g_nodes g' ! v) = n_preds (g_nodes g ! v) @ (if v = b then [a] else [])"
    "\<And>v. v < length (g_nodes g) \<Longrightarrow> n_succs (g_nodes g' ! v) = n_succs (g_nodes g ! v) @ (if v = a then [b] else [])"
    by simp_all
  show ?thesis
  proof (rule graph_okI)
    fix u v
    assume "u < length (g_nodes g')" "v < length (g_nodes g')"
    then show "count_list (n_preds (g_nodes g' ! v)) u = count_list (n_succs (g_nodes g' ! u)) v"
      using graph_okD(1) [OF assms(1), of v u] by (simp add: sel)
  next
    fix u v
    assume "v < length (g_nodes g')" "u \<in> set (n_preds (g_nodes g' ! v))"
    then show "u < length (g_nodes g') \<and> u \<noteq> v"
      using graph_okD(2) [OF assms(1), of v u] e by (auto simp: sel split: if_splits)
  next
    fix u v
    assume "u < length (g_nodes g')" "v \<in> set (n_succs (g_nodes g' ! u))"
    then show "v < length (g_nodes g')"
      using graph_okD(3) [OF assms(1), of u v] e by (auto simp: sel split: if_splits)
  next
    fix v
    assume "v < length (g_nodes g')"
    then show "length (n_preds (g_nodes g' ! v)) \<le> g_edges g'"
      using graph_okD(4) [OF assms(1), of v] by (auto simp: sel)
  qed
qed (use assms(1) in simp)

section \<open>One node's successors\<close>

text \<open>
  The inner loop decrements every successor once per edge; the successors whose last edge this
  was are appended to \<open>ready\<close>, once each.
\<close>

lemma release_successors:
  assumes "\<forall>v < length rem. count_list ss v \<le> unat (rem ! v)" "\<forall>v \<in> set ss. v < length rem"
  shows "\<exists>rem' new. fold release_successor ss (rem, q) = (rem', q @ new) \<and> length rem' = length rem \<and>
    (\<forall>v < length rem. unat (rem' ! v) = unat (rem ! v) - count_list ss v) \<and> distinct new \<and>
    set new = {v \<in> set ss. unat (rem ! v) = count_list ss v}"
  using assms
proof (induction ss arbitrary: rem q)
  case (Cons s ss)
  let ?rem = "rem[s := rem ! s - 1]"
  let ?p = "if rem ! s = 1 then [s] else []"
  have s: "s < length rem" "count_list ss s + 1 \<le> unat (rem ! s)"
    using Cons.prems by auto
  have dec: "unat (rem ! s - 1) = unat (rem ! s) - 1"
    using s(2) by (simp add: unat_sub word_le_nat_alt)
  have u: "unat (?rem ! v) = unat (rem ! v) - (if v = s then 1 else 0)" if "v < length rem" for v
    using that dec by (simp add: nth_list_update)
  have c: "count_list (s # ss) v = count_list ss v + (if v = s then 1 else 0)" for v
    by simp
  have pre: "\<forall>v < length ?rem. count_list ss v \<le> unat (?rem ! v)"
  proof (intro allI impI)
    fix v
    assume v: "v < length ?rem"
    then have "count_list (s # ss) v \<le> unat (rem ! v)" using Cons.prems(1) by simp
    then show "count_list ss v \<le> unat (?rem ! v)" using u [of v] v unfolding c by simp
  qed
  obtain rem' new where IH: "fold release_successor ss (?rem, q @ ?p) = (rem', (q @ ?p) @ new)"
    "length rem' = length rem"
    "\<forall>v < length rem. unat (rem' ! v) = unat (?rem ! v) - count_list ss v" "distinct new"
    "set new = {v \<in> set ss. unat (?rem ! v) = count_list ss v}"
    using Cons.IH [OF pre, of "q @ ?p"] Cons.prems(2) by auto
  have one: "rem ! s = 1 \<longleftrightarrow> unat (rem ! s) = 1" by (simp add: word_unat_eq_iff)
  have step: "fold release_successor (s # ss) (rem, q) = (rem', q @ (?p @ new))"
    using IH(1) s(1) by (cases "rem ! s = 1") (simp_all add: release_successor_def Let_def)
  have rem': "\<forall>v < length rem. unat (rem' ! v) = unat (rem ! v) - count_list (s # ss) v"
    using IH(3) u by simp
  have notin: "s \<notin> set ss" if "rem ! s = 1"
    using s(2) that one by (simp add: count_list_0_iff)
  have "set (?p @ new) = {v \<in> set (s # ss). unat (rem ! v) = count_list (s # ss) v}"
  proof (rule set_eqI)
    fix v
    show "v \<in> set (?p @ new) \<longleftrightarrow> v \<in> {v \<in> set (s # ss). unat (rem ! v) = count_list (s # ss) v}"
    proof (cases "v = s")
      case True
      have "count_list ss s = 0 \<longleftrightarrow> s \<notin> set ss" by (simp add: count_list_0_iff)
      have "s \<in> set new \<longleftrightarrow> s \<in> set ss \<and> unat (rem ! s) - 1 = count_list ss s"
        using IH(5) u [OF s(1)] by simp
      then have "s \<in> set (?p @ new) \<longleftrightarrow> unat (rem ! s) = count_list ss s + 1"
        using one s(2) \<open>count_list ss s = 0 \<longleftrightarrow> s \<notin> set ss\<close>
        by (cases "rem ! s = 1"; cases "s \<in> set ss") (simp, simp, force, simp)
      then show ?thesis using True by simp
    next
      case False
      then have "v < length rem \<or> v \<notin> set ss" using Cons.prems(2) by auto
      then show ?thesis using False IH(5) u [of v] by auto
    qed
  qed
  moreover have "distinct (?p @ new)" using IH(4,5) notin by auto
  ultimately show ?case using step rem' IH(2) by blast
qed simp

section \<open>The loop\<close>

text \<open>
  The invariant of the loop: what is out is ordered, counters count the predecessors that are
  not out yet, and \<open>ready\<close> holds exactly the nodes without any that are not out themselves.
\<close>

definition ordered :: "'b graph \<Rightarrow> nat list \<Rightarrow> bool" where
  "ordered g order \<longleftrightarrow>
     (\<forall>k < length order. \<forall>u \<in> set (n_preds (g_nodes g ! (order ! k))). u \<in> set (take k order))"

definition kahn_inv :: "'b graph \<Rightarrow> nat list \<Rightarrow> u32 list \<Rightarrow> nat list \<Rightarrow> bool" where
  "kahn_inv g ready remaining order \<longleftrightarrow>
     (let n = length (g_nodes g) in
      length remaining = n \<and> distinct (order @ ready) \<and> set (order @ ready) \<subseteq> {..<n} \<and> ordered g order \<and>
      (\<forall>v < n. unat (remaining ! v) = length (filter (\<lambda>u. u \<notin> set order) (n_preds (g_nodes g ! v)))) \<and>
      (\<forall>v < n. remaining ! v = 0 \<longleftrightarrow> v \<in> set (order @ ready)))"

lemma kahn_invD:
  assumes "kahn_inv g ready remaining order"
  shows "length remaining = length (g_nodes g)" "distinct (order @ ready)"
    "set (order @ ready) \<subseteq> {..<length (g_nodes g)}" "ordered g order"
    "\<And>v. v < length (g_nodes g) \<Longrightarrow>
       unat (remaining ! v) = length (filter (\<lambda>u. u \<notin> set order) (n_preds (g_nodes g ! v)))"
    "\<And>v. v < length (g_nodes g) \<Longrightarrow> remaining ! v = 0 \<longleftrightarrow> v \<in> set (order @ ready)"
  using assms unfolding kahn_inv_def Let_def by blast+

lemma filter_out_one:
  "v \<notin> A \<Longrightarrow> length (filter (\<lambda>u. u \<notin> insert v A) us) + count_list us v = length (filter (\<lambda>u. u \<notin> A) us)"
  by (induction us) auto

lemma ordered_snoc:
  "ordered g order \<Longrightarrow> set (n_preds (g_nodes g ! v)) \<subseteq> set order \<Longrightarrow> ordered g (order @ [v])"
  by (auto simp: ordered_def nth_append less_Suc_eq)

lemma kahn_step:
  assumes ok: "graph_ok g" and inv: "kahn_inv g (v # rest) remaining order"
  shows "\<exists>remaining' ready'.
    fold release_successor (n_succs (g_nodes g ! v)) (remaining, rest) = (remaining', ready') \<and>
    kahn_inv g ready' remaining' (order @ [v])"
proof -
  let ?n = "length (g_nodes g)" and ?ss = "n_succs (g_nodes g ! v)"
  note i = kahn_invD [OF inv]
  have v: "v < ?n" "v \<notin> set order" "v \<notin> set rest" using i(2,3) by auto
  have cnt: "length (filter (\<lambda>x. x \<notin> set (order @ [v])) (n_preds (g_nodes g ! w))) + count_list ?ss w =
      unat (remaining ! w)" if "w < ?n" for w
    using filter_out_one [OF v(2), of "n_preds (g_nodes g ! w)"] graph_okD(1) [OF ok that v(1)] i(5) [OF that]
    by simp
  have "\<forall>w < length remaining. count_list ?ss w \<le> unat (remaining ! w)"
    using cnt i(1) by (metis le_add2)
  moreover have "\<forall>w \<in> set ?ss. w < length remaining" using graph_okD(3) [OF ok v(1)] i(1) by simp
  ultimately obtain rem' new where f: "fold release_successor ?ss (remaining, rest) = (rem', rest @ new)"
    "length rem' = length remaining" "distinct new"
    "\<forall>w < length remaining. unat (rem' ! w) = unat (remaining ! w) - count_list ?ss w"
    "set new = {w \<in> set ?ss. unat (remaining ! w) = count_list ?ss w}"
    using release_successors by blast
  have left: "unat (rem' ! w) = length (filter (\<lambda>x. x \<notin> set (order @ [v])) (n_preds (g_nodes g ! w)))"
    if "w < ?n" for w
    using cnt [OF that] f(4) i(1) that by (metis add_diff_cancel_right')
  have new_out: "w \<notin> set (order @ v # rest)" if w: "w \<in> set new" for w
  proof -
    have "w < ?n" using w f(5) graph_okD(3) [OF ok v(1)] by auto
    moreover have "count_list ?ss w \<noteq> 0" using w f(5) by (simp add: count_list_0_iff)
    then have "remaining ! w \<noteq> 0" using w f(5) by auto
    ultimately show ?thesis using i(6) [of w] by blast
  qed
  have zero: "rem' ! w = 0 \<longleftrightarrow> w \<in> set ((order @ [v]) @ rest @ new)" if w: "w < ?n" for w
  proof (cases "w \<in> set ?ss")
    case False
    then have "unat (rem' ! w) = unat (remaining ! w)" using f(4) w i(1) by (simp add: count_list_0_iff)
    then have "rem' ! w = remaining ! w" by (simp add: word_unat_eq_iff)
    then show ?thesis using i(6) [OF w] f(5) False by auto
  next
    case True
    then have c: "0 < count_list ?ss w" by (metis count_list_0_iff neq0_conv)
    have "unat (remaining ! w) \<ge> count_list ?ss w" using cnt [OF w] by simp
    then have "rem' ! w = 0 \<longleftrightarrow> unat (remaining ! w) = count_list ?ss w"
      using f(4) w i(1) by (auto simp: unat_eq_0 [symmetric])
    moreover have "w \<notin> set (order @ v # rest)"
      using i(6) [OF w] c \<open>unat (remaining ! w) \<ge> count_list ?ss w\<close> by (metis le_0_eq less_not_refl unat_0)
    ultimately show ?thesis using f(5) True by auto
  qed
  have "remaining ! v = 0" using i(6) [OF v(1)] by simp
  then have "filter (\<lambda>u. u \<notin> set order) (n_preds (g_nodes g ! v)) = []" using i(5) [OF v(1)] by simp
  then have "set (n_preds (g_nodes g ! v)) \<subseteq> set order" by (auto simp: filter_empty_conv)
  then have "ordered g (order @ [v])" by (rule ordered_snoc [OF i(4)])
  moreover have "set new \<subseteq> {..<?n}" using f(5) graph_okD(3) [OF ok v(1)] by auto
  moreover have "distinct ((order @ [v]) @ rest @ new)" using i(2) f(3) new_out by auto
  ultimately have "kahn_inv g (rest @ new) rem' (order @ [v])"
    using i(1,3) f(2) left zero unfolding kahn_inv_def Let_def by auto
  then show ?thesis using f(1) by blast
qed

lemma kahn_loop_ends:
  assumes "graph_ok g" "kahn_inv g ready remaining order"
  shows "\<exists>remaining' out. kahn_loop (g_nodes g) ready remaining order = Some out \<and> kahn_inv g [] remaining' out"
  using assms(2)
proof (induction "length (g_nodes g) - length order" arbitrary: ready remaining order rule: less_induct)
  case less
  show ?case
  proof (cases ready)
    case Nil
    then show ?thesis using less.prems by (auto simp: kahn_loop.simps)
  next
    case (Cons v rest)
    obtain remaining' ready' where s:
      "fold release_successor (n_succs (g_nodes g ! v)) (remaining, rest) = (remaining', ready')"
      "kahn_inv g ready' remaining' (order @ [v])"
      using kahn_step [OF assms(1)] less.prems Cons by blast
    have "length (order @ ready) \<le> length (g_nodes g)"
      using kahn_invD(2,3) [OF less.prems] card_mono [of "{..<length (g_nodes g)}" "set (order @ ready)"]
      by (simp only: distinct_card [OF kahn_invD(2) [OF less.prems]] finite_lessThan card_lessThan)
    then have "length (g_nodes g) - length (order @ [v]) < length (g_nodes g) - length order"
      using Cons by simp
    moreover have "kahn_loop (g_nodes g) ready remaining order =
        kahn_loop (g_nodes g) ready' remaining' (order @ [v])"
      using Cons s(1) by (subst kahn_loop.simps) simp
    ultimately show ?thesis using less.hyps [OF _ s(2)] by simp
  qed
qed

lemma kahn_start:
  assumes "graph_ok g" "length (g_nodes g) \<le> 2 ^ 32" "g_edges g < 2 ^ 32"
  shows "kahn_inv g
     (map node_id (filter (\<lambda>i. map (\<lambda>i. of_nat (length (n_preds (g_nodes g ! i)))) [0..<length (g_nodes g)] ! i = (0 :: u32))
        [0..<length (g_nodes g)]))
     (map (\<lambda>i. of_nat (length (n_preds (g_nodes g ! i)))) [0..<length (g_nodes g)]) []"
proof -
  let ?n = "length (g_nodes g)"
  let ?rem = "map (\<lambda>i. of_nat (length (n_preds (g_nodes g ! i)))) [0..<?n] :: u32 list"
  have ids: "map node_id (filter (\<lambda>i. ?rem ! i = 0) [0..<?n]) = filter (\<lambda>i. ?rem ! i = 0) [0..<?n]"
    using assms(2) by (intro map_idI) (auto simp: node_id_def)
  have "unat (?rem ! v) = length (n_preds (g_nodes g ! v))" if "v < ?n" for v
    using graph_okD(4) [OF assms(1) that] assms(3) that by (simp add: unat_of_nat)
  then show ?thesis
    unfolding ids kahn_inv_def Let_def by (auto simp: ordered_def)
qed

text \<open>When the loop stops early, every node it has not put out has a predecessor it has not put out.\<close>

lemma acyclic_all_out:
  assumes ok: "graph_ok g" and inv: "kahn_inv g [] remaining out" and ac: "acyclic (edge_rel g)"
  shows "length out = length (g_nodes g)"
proof (rule ccontr)
  let ?n = "length (g_nodes g)" and ?R = "{..<length (g_nodes g)} - set out"
  note i = kahn_invD [OF inv]
  assume short: "length out \<noteq> ?n"
  have ne: "?R \<noteq> {}"
  proof
    assume "?R = {}"
    then have "set out = {..<?n}" using i(3) by auto
    then show False using short i(2) distinct_card [of out] by simp
  qed
  have sub: "edge_rel g \<subseteq> {..<?n} \<times> {..<?n}"
    using graph_okD(2) [OF ok] by (auto simp: edge_rel_def)
  have "wf (edge_rel g)"
    using finite_subset [OF sub] ac by (intro finite_acyclic_wf) auto
  then obtain v where v: "v \<in> ?R" "\<forall>u. (u, v) \<in> edge_rel g \<longrightarrow> u \<notin> ?R"
    using ne by (metis wf_eq_minimal equals0I)
  have "remaining ! v \<noteq> 0" using i(6) [of v] v(1) by simp
  then have "filter (\<lambda>u. u \<notin> set out) (n_preds (g_nodes g ! v)) \<noteq> []"
    using i(5) [of v] v(1) by (metis DiffD1 lessThan_iff list.size(3) unat_eq_0)
  then obtain u where "u \<in> set (n_preds (g_nodes g ! v))" "u \<notin> set out"
    by (auto simp: filter_empty_conv)
  then show False using v graph_okD(2) [OF ok, of v u] by (auto simp: edge_rel_def)
qed

lemma all_out_acyclic:
  assumes inv: "kahn_inv g [] remaining out" and len: "length out = length (g_nodes g)"
  shows "acyclic (edge_rel g)" "set out = {..<length (g_nodes g)}" "distinct out" "ordered g out"
proof -
  let ?n = "length (g_nodes g)"
  note i = kahn_invD [OF inv]
  show d: "distinct out" and o: "ordered g out" using i(2,4) by simp_all
  have "card (set out) = ?n" using d len by (simp add: distinct_card)
  then show s: "set out = {..<?n}" using i(3) by (intro card_subset_eq) auto
  define pos where "pos v = (THE k. k < length out \<and> out ! k = v)" for v
  have pos: "pos (out ! k) = k" if "k < length out" for k
    unfolding pos_def using that d by (intro the_equality) (auto simp: nth_eq_iff_index_eq)
  have "edge_rel g \<subseteq> measure pos"
  proof
    fix e
    assume "e \<in> edge_rel g"
    then obtain u v where e: "e = (u, v)" "v < ?n" "u \<in> set (n_preds (g_nodes g ! v))"
      by (auto simp: edge_rel_def)
    then obtain k where k: "k < length out" "out ! k = v" using s by (metis in_set_conv_nth lessThan_iff)
    then have "u \<in> set (take k out)" using o e(3) by (auto simp: ordered_def)
    then obtain j where "j < k" "out ! j = u" using k(1) by (auto simp: in_set_conv_nth)
    then show "e \<in> measure pos" using e(1) k pos by auto
  qed
  then show "acyclic (edge_rel g)" using acyclic_subset wf_acyclic wf_measure by blast
qed

section \<open>Submission\<close>

datatype CyclePolicy = FailLoudly | RefuseQuietly

text \<open>\<open>std::move(node.desc)\<close>: the body leaves the node, the other fields are copied.\<close>

definition move_desc :: "nat \<Rightarrow> 'b node list \<Rightarrow> 'b node list" where
  "move_desc v nodes =
     nodes[v := (nodes ! v)\<lparr>n_desc := (n_desc (nodes ! v))\<lparr>dfunction := None\<rparr>\<rparr>]"

text \<open>
  One iteration of the submission loop, for a runtime given by its \<open>submit_after\<close> on a state \<open>'r\<close>.
\<close>

definition submit_node ::
    "('b TaskDesc \<Rightarrow> TaskHandle list \<Rightarrow> 'r \<Rightarrow> 'r \<times> TaskHandle) \<Rightarrow> nat \<Rightarrow>
     'b node list \<times> TaskHandle list \<times> 'r \<Rightarrow> 'b node list \<times> TaskHandle list \<times> 'r" where
  "submit_node submit_after v st =
     (case st of (nodes, handles, rt) \<Rightarrow>
        let dependencies = map (\<lambda>u. handles ! u) (n_preds (nodes ! v)) in
        case submit_after (n_desc (nodes ! v)) dependencies rt of (rt', h) \<Rightarrow>
          (move_desc v nodes, handles[v := h], rt'))"

text \<open>
  The result is \<open>None\<close> where the assertion of \<open>FailLoudly\<close> fires (the flag says whether assertions
  are compiled in) or the algorithm does not end.
\<close>

definition graph_submit ::
    "bool \<Rightarrow> ('b TaskDesc \<Rightarrow> TaskHandle list \<Rightarrow> 'r \<Rightarrow> 'r \<times> TaskHandle) \<Rightarrow> CyclePolicy \<Rightarrow>
     'b graph \<Rightarrow> 'r \<Rightarrow> ('b graph \<times> 'r \<times> TaskHandle list) option" where
  "graph_submit debug submit_after policy g rt =
     (if g_nodes g = [] then Some (g, rt, [])
      else case topological_order g of
        None \<Rightarrow> None
      | Some order \<Rightarrow>
          (if order = [] then
             (if debug \<and> policy \<noteq> RefuseQuietly then None else Some (g, rt, []))
           else
             (case fold (submit_node submit_after) order
                     (g_nodes g, replicate (length (g_nodes g)) invalid_handle, rt) of
                (nodes, handles, rt') \<Rightarrow> Some (g\<lparr>g_nodes := nodes\<rparr>, rt', handles))))"

text \<open>\<open>wait\<close> of the runtime is a step of its state; \<open>None\<close> is a wait that never returns.\<close>

definition graph_submit_and_wait ::
    "bool \<Rightarrow> ('b TaskDesc \<Rightarrow> TaskHandle list \<Rightarrow> 'r \<Rightarrow> 'r \<times> TaskHandle) \<Rightarrow>
     (TaskHandle \<Rightarrow> 'r \<Rightarrow> 'r option) \<Rightarrow> CyclePolicy \<Rightarrow> 'b graph \<Rightarrow> 'r \<Rightarrow> ('b graph \<times> 'r \<times> bool) option" where
  "graph_submit_and_wait debug submit_after wait policy g rt =
     (case graph_submit debug submit_after policy g rt of
        None \<Rightarrow> None
      | Some (g', rt', handles) \<Rightarrow>
          (if handles = [] \<and> g_nodes g' \<noteq> [] then Some (g', rt', False)
           else map_option (\<lambda>rt''. (g', rt'', True))
                  (fold (\<lambda>h r. Option.bind r (wait h)) handles (Some rt'))))"

section \<open>What the graph guarantees\<close>

text \<open>Any sequence of construction calls, in a build without assertions.\<close>

datatype 'b graph_call = GAdd "'b TaskDesc" | GEdge nat nat

fun apply_call :: "'b graph_call \<Rightarrow> 'b graph \<Rightarrow> 'b graph" where
  "apply_call (GAdd desc) g = fst (graph_add desc g)"
| "apply_call (GEdge a b) g = (case add_edge False a b g of None \<Rightarrow> g | Some g' \<Rightarrow> g')"

definition build_graph :: "'b graph_call list \<Rightarrow> 'b graph" where
  "build_graph calls = fold apply_call calls graph_empty"

lemma apply_call_ok:
  "graph_ok g \<Longrightarrow> graph_ok (apply_call c g) \<and>
   length (g_nodes (apply_call c g)) + g_edges (apply_call c g) \<le> length (g_nodes g) + g_edges g + 1"
proof (cases c)
  case (GEdge a b)
  assume ok: "graph_ok g"
  show ?thesis
  proof (cases "add_edge False a b g")
    case (Some g')
    then show ?thesis
      using GEdge add_edge_ok [OF ok Some] add_edge_nodes [OF Some] by (cases "g' = g") auto
  qed (use GEdge ok in simp)
next
  case (GAdd d)
  assume "graph_ok g"
  then show ?thesis using GAdd graph_add_ok [of g d] by (simp add: graph_add_def)
qed

lemma build_graph_ok:
  "graph_ok (build_graph calls) \<and>
   length (g_nodes (build_graph calls)) + g_edges (build_graph calls) \<le> length calls"
proof (induction calls rule: rev_induct)
  case (snoc c calls)
  then show ?case using apply_call_ok [of "build_graph calls" c] by (simp add: build_graph_def)
qed (simp add: build_graph_def graph_empty_ok, simp add: graph_empty_def)

lemma topological_order_cases:
  assumes "graph_ok g" "length (g_nodes g) \<le> 2 ^ 32" "g_edges g < 2 ^ 32"
  shows "\<exists>order. topological_order g = Some order \<and>
    (if acyclic (edge_rel g)
     then distinct order \<and> set order = {..<length (g_nodes g)} \<and> ordered g order
     else order = [])"
proof -
  obtain remaining out where k: "kahn_inv g [] remaining out"
    and t: "topological_order g = Some (if length out \<noteq> length (g_nodes g) then [] else out)"
    using kahn_loop_ends [OF assms(1) kahn_start [OF assms]] by (auto simp: topological_order_def Let_def)
  show ?thesis
  proof (cases "length out = length (g_nodes g)")
    case True
    then show ?thesis using t all_out_acyclic [OF k True] by simp
  next
    case False
    then show ?thesis using t acyclic_all_out [OF assms(1) k] by auto
  qed
qed

text \<open>
  C12. Kahn's algorithm is correct and ends: for every graph built by fewer than \<open>2 ^ 32\<close> calls,
  \<open>topological_order\<close> returns each node exactly once with every node after all its predecessors
  if the edges form no cycle, and the empty vector if they do.
\<close>

theorem topological_order_correct:
  assumes "length calls < 2 ^ 32"
  defines "g \<equiv> build_graph calls"
  shows "\<exists>order. topological_order g = Some order \<and>
    (if acyclic (edge_rel g)
     then distinct order \<and> set order = {..<length (g_nodes g)} \<and>
       (\<forall>k < length order. \<forall>u. (u, order ! k) \<in> edge_rel g \<longrightarrow> u \<in> set (take k order))
     else order = [])"
proof -
  have ok: "graph_ok g" "length (g_nodes g) \<le> 2 ^ 32" "g_edges g < 2 ^ 32"
    using build_graph_ok [of calls] assms by auto
  show ?thesis
    using topological_order_cases [OF ok] by (auto simp: ordered_def edge_rel_def)
qed

theorem topological_order_correct_witness:
  "\<exists>order. topological_order (build_graph [GAdd (make_desc (Some ()) Low), GAdd (make_desc None High), GEdge 1 0]) = Some order \<and>
    (if acyclic (edge_rel (build_graph [GAdd (make_desc (Some ()) Low), GAdd (make_desc None High), GEdge 1 0]))
     then distinct order \<and> set order = {..<length (g_nodes (build_graph [GAdd (make_desc (Some ()) Low), GAdd (make_desc None High), GEdge 1 0]))} \<and>
       (\<forall>k < length order. \<forall>u. (u, order ! k) \<in> edge_rel (build_graph [GAdd (make_desc (Some ()) Low), GAdd (make_desc None High), GEdge 1 0])
          \<longrightarrow> u \<in> set (take k order))
     else order = [])"
  by (rule topological_order_correct) simp

text \<open>\<open>is_acyclic\<close> decides whether the edges form a cycle.\<close>

theorem is_acyclic_decides:
  assumes "length calls < 2 ^ 32"
  shows "is_acyclic (build_graph calls) = Some (acyclic (edge_rel (build_graph calls)))"
proof -
  let ?g = "build_graph calls"
  have ok: "graph_ok ?g" "length (g_nodes ?g) \<le> 2 ^ 32" "g_edges ?g < 2 ^ 32"
    using build_graph_ok [of calls] assms by auto
  have "acyclic (edge_rel ?g)" if "g_nodes ?g = []"
    using that by (simp add: edge_rel_def acyclic_def)
  moreover have "g_nodes ?g = [] \<longleftrightarrow> {..<length (g_nodes ?g)} = {}" by auto
  ultimately show ?thesis
    using topological_order_cases [OF ok] by (auto simp: is_acyclic_def split: if_splits)
qed

theorem is_acyclic_decides_witness:
  "is_acyclic (build_graph [GAdd (make_desc (Some ()) Low), GAdd (make_desc None High), GEdge 1 0, GEdge 0 1]) =
   Some (acyclic (edge_rel (build_graph [GAdd (make_desc (Some ()) Low), GAdd (make_desc None High), GEdge 1 0, GEdge 0 1])))"
  by (rule is_acyclic_decides) simp

text \<open>
  A runtime that records the calls it gets, with an arbitrary choice of the handle it returns
  for each.
\<close>

definition recording ::
    "(('b TaskDesc \<times> TaskHandle list) list \<Rightarrow> TaskHandle) \<Rightarrow> 'b TaskDesc \<Rightarrow> TaskHandle list \<Rightarrow>
     ('b TaskDesc \<times> TaskHandle list) list \<Rightarrow> ('b TaskDesc \<times> TaskHandle list) list \<times> TaskHandle" where
  "recording mk desc dependencies log = (log @ [(desc, dependencies)], mk log)"

lemma move_desc_other [simp]:
  "length (move_desc v nodes) = length nodes" "n_preds (move_desc v nodes ! u) = n_preds (nodes ! u)"
  "u \<noteq> v \<Longrightarrow> n_desc (move_desc v nodes ! u) = n_desc (nodes ! u)"
proof -
  show "n_preds (move_desc v nodes ! u) = n_preds (nodes ! u)"
  proof (cases "u = v \<and> v < length nodes")
    case True
    then show ?thesis by (simp add: move_desc_def)
  next
    case False
    then have "move_desc v nodes ! u = nodes ! u"
      unfolding move_desc_def by (metis list_update_beyond not_less nth_list_update_neq)
    then show ?thesis by simp
  qed
qed (simp_all add: move_desc_def)

text \<open>The submission loop on a prefix of the order.\<close>

lemma submit_prefix:
  assumes d: "distinct order" "set order = {..<length nodes}"
    and o: "\<forall>k < length order. \<forall>u \<in> set (n_preds (nodes ! (order ! k))). u \<in> set (take k order)"
    and k: "k \<le> length order"
  shows "\<exists>nodes' handles log.
    fold (submit_node (recording mk)) (take k order) (nodes, replicate (length nodes) invalid_handle, []) =
      (nodes', handles, log) \<and> length handles = length nodes \<and> length log = k \<and> length nodes' = length nodes \<and>
    (\<forall>u. n_preds (nodes' ! u) = n_preds (nodes ! u)) \<and>
    (\<forall>u. u \<notin> set (take k order) \<longrightarrow> n_desc (nodes' ! u) = n_desc (nodes ! u)) \<and>
    (\<forall>j < k. handles ! (order ! j) = mk (take j log) \<and>
       log ! j = (n_desc (nodes ! (order ! j)), map (\<lambda>u. handles ! u) (n_preds (nodes ! (order ! j)))))"
  using k
proof (induction k)
  case (Suc k)
  then obtain nodes' handles log where IH:
    "fold (submit_node (recording mk)) (take k order) (nodes, replicate (length nodes) invalid_handle, []) =
      (nodes', handles, log)" "length handles = length nodes" "length log = k" "length nodes' = length nodes"
    "\<forall>u. n_preds (nodes' ! u) = n_preds (nodes ! u)"
    "\<forall>u. u \<notin> set (take k order) \<longrightarrow> n_desc (nodes' ! u) = n_desc (nodes ! u)"
    "\<forall>j < k. handles ! (order ! j) = mk (take j log) \<and>
       log ! j = (n_desc (nodes ! (order ! j)), map (\<lambda>u. handles ! u) (n_preds (nodes ! (order ! j))))"
    by auto
  let ?v = "order ! k"
  let ?entry = "(n_desc (nodes ! ?v), map (\<lambda>u. handles ! u) (n_preds (nodes ! ?v)))"
  let ?handles = "handles[?v := mk log]"
  have kl: "k < length order" using Suc.prems by simp
  have tk: "take (Suc k) order = take k order @ [?v]" by (rule take_Suc_conv_app_nth [OF kl])
  have vn: "?v < length nodes" using nth_mem [OF kl] d(2) by simp
  have fresh: "?v \<notin> set (take k order)"
    using d(1) tk by (metis distinct_append distinct_take disjoint_iff list.set_intros(1))
  have "fold (submit_node (recording mk)) (take (Suc k) order) (nodes, replicate (length nodes) invalid_handle, []) =
      (move_desc ?v nodes', ?handles, log @ [?entry])"
    using IH(1,5,6) fresh by (simp add: tk submit_node_def recording_def Let_def)
  moreover have "\<forall>j < Suc k. ?handles ! (order ! j) = mk (take j (log @ [?entry])) \<and>
      (log @ [?entry]) ! j = (n_desc (nodes ! (order ! j)), map (\<lambda>u. ?handles ! u) (n_preds (nodes ! (order ! j))))"
  proof (intro allI impI)
    fix j
    assume j: "j < Suc k"
    then have jl: "j < length order" using kl by simp
    have "u \<noteq> ?v" if "u \<in> set (n_preds (nodes ! (order ! j)))" for u
    proof -
      have "u \<in> set (take j order)" using o jl that by simp
      then show ?thesis using fresh j set_take_subset_set_take [of j k order] by auto
    qed
    then have m: "map (\<lambda>u. ?handles ! u) (n_preds (nodes ! (order ! j))) =
        map (\<lambda>u. handles ! u) (n_preds (nodes ! (order ! j)))"
      by (intro map_cong refl) (metis nth_list_update_neq)
    show "?handles ! (order ! j) = mk (take j (log @ [?entry])) \<and>
      (log @ [?entry]) ! j = (n_desc (nodes ! (order ! j)), map (\<lambda>u. ?handles ! u) (n_preds (nodes ! (order ! j))))"
    proof (cases "j = k")
      case True
      then show ?thesis using IH(2,3) vn m by (simp add: nth_append)
    next
      case False
      then have "order ! j \<noteq> ?v" using d(1) jl kl by (simp add: nth_eq_iff_index_eq)
      then show ?thesis using False j IH(3,7) m by (simp add: nth_append)
    qed
  qed
  ultimately show ?case using IH(2-6) fresh by (auto simp: tk)
qed simp

text \<open>
  C13. Submitting a graph without a cycle submits every node exactly once, each after all its
  predecessors and with exactly the handles the runtime returned for them as dependencies,
  whatever handles the runtime chooses; a graph with a cycle submits nothing and, where assertions
  are compiled in and the policy is \<open>FailLoudly\<close>, asserts.
\<close>

theorem graph_submit_correct:
  assumes "length calls < 2 ^ 32"
  defines "g \<equiv> build_graph calls"
  shows "if acyclic (edge_rel g)
    then \<exists>g' log handles order. graph_submit debug (recording mk) policy g [] = Some (g', log, handles) \<and>
      distinct order \<and> set order = {..<length (g_nodes g)} \<and> length log = length order \<and>
      length handles = length (g_nodes g) \<and>
      (\<forall>j < length order.
         log ! j = (n_desc (g_nodes g ! (order ! j)), map (\<lambda>u. handles ! u) (n_preds (g_nodes g ! (order ! j)))) \<and>
         handles ! (order ! j) = mk (take j log) \<and>
         set (n_preds (g_nodes g ! (order ! j))) \<subseteq> set (take j order))
    else graph_submit debug (recording mk) policy g [] =
      (if debug \<and> policy = FailLoudly then None else Some (g, [], []))"
proof -
  have ok: "graph_ok g" "length (g_nodes g) \<le> 2 ^ 32" "g_edges g < 2 ^ 32"
    using build_graph_ok [of calls] assms by auto
  obtain order where t: "topological_order g = Some order" and
    o: "if acyclic (edge_rel g)
        then distinct order \<and> set order = {..<length (g_nodes g)} \<and> ordered g order else order = []"
    using topological_order_cases [OF ok] by blast
  show ?thesis
  proof (cases "acyclic (edge_rel g)")
    case ac: True
    then have d: "distinct order" "set order = {..<length (g_nodes g)}" "ordered g order" using o by auto
    show ?thesis
    proof (cases "g_nodes g = []")
      case True
      then show ?thesis
        unfolding if_P [OF ac]
        by (intro exI [of _ g] exI [of _ "[]"] conjI) (simp_all add: graph_submit_def)
    next
      case False
      then have "0 \<in> set order" using d(2) by simp
      then have ne: "order \<noteq> []" by (metis empty_iff empty_set)
      have pre: "\<forall>k < length order. \<forall>u \<in> set (n_preds (g_nodes g ! (order ! k))). u \<in> set (take k order)"
        using d(3) by (simp add: ordered_def)
      obtain nodes' handles log where s:
        "fold (submit_node (recording mk)) order
           (g_nodes g, replicate (length (g_nodes g)) invalid_handle, []) = (nodes', handles, log)"
        "length handles = length (g_nodes g)" "length log = length order"
        "\<forall>j < length order. handles ! (order ! j) = mk (take j log) \<and>
           log ! j = (n_desc (g_nodes g ! (order ! j)), map (\<lambda>u. handles ! u) (n_preds (g_nodes g ! (order ! j))))"
        using submit_prefix [OF d(1,2) pre order.refl, of mk] by auto
      have "graph_submit debug (recording mk) policy g [] = Some (g\<lparr>g_nodes := nodes'\<rparr>, log, handles)"
        using False t ne s(1) by (simp add: graph_submit_def)
      moreover have "\<forall>j < length order.
         log ! j = (n_desc (g_nodes g ! (order ! j)), map (\<lambda>u. handles ! u) (n_preds (g_nodes g ! (order ! j)))) \<and>
         handles ! (order ! j) = mk (take j log) \<and>
         set (n_preds (g_nodes g ! (order ! j))) \<subseteq> set (take j order)"
      proof (intro allI impI conjI)
        fix j
        assume j: "j < length order"
        show "set (n_preds (g_nodes g ! (order ! j))) \<subseteq> set (take j order)" using pre j by blast
      qed (use s(4) in blast)+
      ultimately show ?thesis unfolding if_P [OF ac] using d(1,2) s(2,3) by (intro exI conjI)
    qed
  next
    case False
    then have "g_nodes g \<noteq> []" by (auto simp: edge_rel_def acyclic_def)
    then show ?thesis using False o t by (cases policy) (auto simp: graph_submit_def)
  qed
qed

definition demo_calls :: "nat graph_call list" where
  "demo_calls = [GAdd (make_desc (Some 1) Low), GAdd (make_desc (Some 2) High), GEdge 1 0]"

theorem graph_submit_correct_witness:
  "if acyclic (edge_rel (build_graph demo_calls))
    then \<exists>g' log handles order. graph_submit True (recording (\<lambda>l. \<lparr>hindex = of_nat (length l), hgeneration = 0\<rparr>))
        FailLoudly (build_graph demo_calls) [] = Some (g', log, handles) \<and>
      distinct order \<and> set order = {..<length (g_nodes (build_graph demo_calls))} \<and> length log = length order \<and>
      length handles = length (g_nodes (build_graph demo_calls)) \<and>
      (\<forall>j < length order.
         log ! j = (n_desc (g_nodes (build_graph demo_calls) ! (order ! j)),
           map (\<lambda>u. handles ! u) (n_preds (g_nodes (build_graph demo_calls) ! (order ! j)))) \<and>
         handles ! (order ! j) = \<lparr>hindex = of_nat (length (take j log)), hgeneration = 0\<rparr> \<and>
         set (n_preds (g_nodes (build_graph demo_calls) ! (order ! j))) \<subseteq> set (take j order))
    else graph_submit True (recording (\<lambda>l. \<lparr>hindex = of_nat (length l), hgeneration = 0\<rparr>)) FailLoudly
        (build_graph demo_calls) [] = (if True \<and> FailLoudly = FailLoudly then None else Some (build_graph demo_calls, [], []))"
  by (rule graph_submit_correct) (simp add: demo_calls_def)

end
