(* ===== verification/Thunderbolt_Dispatch.thy ===== *)
theory Thunderbolt_Dispatch
  imports Abp_Deque Prio_Queues
begin

text \<open>
  The work distribution of \<open>runtime/ThunderboltRuntime.hpp\<close> and \<open>.cpp\<close>: per-worker deques, the
  injection queue, static-mode inboxes, batch draining, stealing with random victims, aging, and
  the parking decision. Each function is one step of the worker that calls it; the interleaving
  inside one deque is the subject of \<open>Abp_Concurrent\<close>.
\<close>

definition kSpinsBeforePark :: nat where
  "kSpinsBeforePark = 64"

definition kGlobalDrainBatch :: nat where
  "kGlobalDrainBatch = 32"

definition xorshift64 :: "u64 \<Rightarrow> u64" where
  "xorshift64 state =
     (let s1 = state XOR push_bit 13 state; s2 = s1 XOR drop_bit 7 s1 in s2 XOR push_bit 17 s2)"

section \<open>State\<close>

text \<open>\<open>WorkerState\<close>.\<close>

record worker =
  wk_queues :: "TaskHandle abp_deque list"
  wk_rng :: u64
  wk_executed :: u64
  wk_steal_attempts :: u64
  wk_steals_succeeded :: u64
  wk_steals_failed :: u64
  wk_global_pops :: u64
  wk_parks :: u64
  wk_pop_index :: u64
  wk_inbox :: "TaskHandle list list"
  wk_inbox_count :: nat

text \<open>\<open>tb_notified\<close> counts the calls of \<open>sleep_cv_.notify_one()\<close>.\<close>

record tb_state =
  tb_mode :: SchedulerMode
  tb_skip_empty :: bool
  tb_worker_count :: u32
  tb_workers :: "worker list"
  tb_global :: global_queue
  tb_local_overflows :: u64
  tb_submissions_local :: u64
  tb_submissions_global :: u64
  tb_static_cursor :: u32
  tb_sleeping :: u32
  tb_running :: bool
  tb_notified :: nat

record tb_stats =
  st_tasks_executed :: u64
  st_steal_attempts :: u64
  st_steals_succeeded :: u64
  st_steals_failed :: u64
  st_global_pops :: u64
  st_local_overflows :: u64
  st_worker_parks :: u64
  st_submissions_local :: u64
  st_submissions_global :: u64

definition worker_new :: "TaskHandle abp_deque \<Rightarrow> nat \<Rightarrow> worker" where
  "worker_new deque i =
     \<lparr>wk_queues = replicate kPriorityCount deque, wk_rng = 0x9E3779B97F4A7C15 * (of_nat i + 1),
      wk_executed = 0, wk_steal_attempts = 0, wk_steals_succeeded = 0, wk_steals_failed = 0,
      wk_global_pops = 0, wk_parks = 0, wk_pop_index = 0,
      wk_inbox = replicate kPriorityCount [], wk_inbox_count = 0\<rparr>"

text \<open>
  The constructor, for the resolved worker count; \<open>None\<close> when the rounding loop of a deque does
  not end.
\<close>

definition tb_new :: "RuntimeConfig \<Rightarrow> u32 \<Rightarrow> tb_state option" where
  "tb_new config workers =
     (let capacity = (if deque_capacity config > 0 then ucast (deque_capacity config) else 1024) in
      map_option
        (\<lambda>deque. \<lparr>tb_mode = scheduler config, tb_skip_empty = opt_set config kOptSkipEmptyDeques,
                  tb_worker_count = workers,
                  tb_workers = map (worker_new deque) [0..<unat workers], tb_global = gq_new,
                  tb_local_overflows = 0, tb_submissions_local = 0, tb_submissions_global = 0,
                  tb_static_cursor = 0, tb_sleeping = 0, tb_running = True, tb_notified = 0\<rparr>)
        (abp_new invalid_handle capacity))"

definition upd_worker :: "nat \<Rightarrow> worker \<Rightarrow> tb_state \<Rightarrow> tb_state" where
  "upd_worker i wk d = d\<lparr>tb_workers := (tb_workers d)[i := wk]\<rparr>"

section \<open>Submission\<close>

definition wake_one_worker :: "tb_state \<Rightarrow> tb_state" where
  "wake_one_worker d =
     (if tb_sleeping d = 0 then d else d\<lparr>tb_notified := tb_notified d + 1\<rparr>)"

definition wk_push :: "nat \<Rightarrow> TaskHandle \<Rightarrow> worker \<Rightarrow> worker \<times> bool" where
  "wk_push p h wk =
     (case abp_push (wk_queues wk ! p) h of
        (q, ok) \<Rightarrow> (wk\<lparr>wk_queues := (wk_queues wk)[p := q]\<rparr>, ok))"

definition inbox_push :: "nat \<Rightarrow> TaskHandle \<Rightarrow> worker \<Rightarrow> worker" where
  "inbox_push p h wk =
     wk\<lparr>wk_inbox := (wk_inbox wk)[p := wk_inbox wk ! p @ [h]], wk_inbox_count := wk_inbox_count wk + 1\<rparr>"

text \<open>\<open>enqueue_ready\<close>; \<open>caller\<close> is the result of \<open>on_own_worker\<close>.\<close>

definition tb_enqueue_ready :: "u32 option \<Rightarrow> TaskHandle \<Rightarrow> TaskPriority \<Rightarrow> tb_state \<Rightarrow> tb_state" where
  "tb_enqueue_ready caller h priority d =
     (let p = prio_index priority in
      if tb_mode d = Static then
        (let target = unat (tb_static_cursor d mod tb_worker_count d);
             d1 = d\<lparr>tb_static_cursor := tb_static_cursor d + 1\<rparr>;
             d2 = upd_worker target (inbox_push p h (tb_workers d1 ! target)) d1
         in wake_one_worker (d2\<lparr>tb_submissions_global := tb_submissions_global d2 + 1\<rparr>))
      else
        (let (d1, queued_local) =
               (case caller of
                  None \<Rightarrow> (d, False)
                | Some i \<Rightarrow>
                    (case wk_push p h (tb_workers d ! unat i) of
                       (wk, ok) \<Rightarrow>
                         (let d' = upd_worker (unat i) wk d in
                          (if ok then d' else d'\<lparr>tb_local_overflows := tb_local_overflows d' + 1\<rparr>, ok))));
             d2 = (if queued_local then d1\<lparr>tb_submissions_local := tb_submissions_local d1 + 1\<rparr>
                   else d1\<lparr>tb_submissions_global := tb_submissions_global d1 + 1,
                           tb_global := gq_push (tb_global d1) h priority\<rparr>)
         in wake_one_worker d2))"

section \<open>Finding work\<close>

text \<open>The scan of \<open>pop_local\<close> over the deques in the order \<open>ps\<close>.\<close>

fun pop_scan :: "bool \<Rightarrow> nat list \<Rightarrow> worker \<Rightarrow> worker \<times> TaskHandle" where
  "pop_scan skip_empty [] wk = (wk, invalid_handle)"
| "pop_scan skip_empty (p # ps) wk =
     (if skip_empty \<and> empty_hint (wk_queues wk ! p) then pop_scan skip_empty ps wk
      else case abp_pop (wk_queues wk ! p) of
        (q, Some h) \<Rightarrow>
          (wk\<lparr>wk_queues := (wk_queues wk)[p := q], wk_pop_index := wk_pop_index wk + 1\<rparr>, h)
      | (q, None) \<Rightarrow> pop_scan skip_empty ps (wk\<lparr>wk_queues := (wk_queues wk)[p := q]\<rparr>))"

definition pop_local :: "SchedulerMode \<Rightarrow> bool \<Rightarrow> worker \<Rightarrow> worker \<times> TaskHandle" where
  "pop_local mode skip_empty wk =
     pop_scan skip_empty (scan_order (aging_pop_favours_lowest mode (wk_pop_index wk))) wk"

definition pop_inbox :: "SchedulerMode \<Rightarrow> worker \<Rightarrow> worker \<times> TaskHandle" where
  "pop_inbox mode wk =
     (if wk_inbox_count wk = 0 then (wk, invalid_handle)
      else case List.find (\<lambda>p. wk_inbox wk ! p \<noteq> [])
                  (scan_order (aging_pop_favours_lowest mode (wk_pop_index wk))) of
        None \<Rightarrow> (wk, invalid_handle)
      | Some p \<Rightarrow>
          (wk\<lparr>wk_inbox := (wk_inbox wk)[p := tl (wk_inbox wk ! p)],
              wk_inbox_count := wk_inbox_count wk - 1, wk_pop_index := wk_pop_index wk + 1\<rparr>,
           hd (wk_inbox wk ! p)))"

text \<open>The batch loop of \<open>drain_global\<close>: up to \<open>n\<close> more handles, until the queue or the deque ends it.\<close>

fun drain_loop :: "nat \<Rightarrow> worker \<Rightarrow> global_queue \<Rightarrow> worker \<times> global_queue" where
  "drain_loop 0 wk g = (wk, g)"
| "drain_loop (Suc n) wk g =
     (case gq_pop_with_priority g False of
        (g', extra, priority) \<Rightarrow>
          (if \<not> handle_valid extra then (wk, g')
           else case wk_push (prio_index priority) extra wk of
             (wk', True) \<Rightarrow> drain_loop n wk' g'
           | (wk', False) \<Rightarrow> (wk', gq_push g' extra priority)))"

definition drain_global :: "SchedulerMode \<Rightarrow> worker \<Rightarrow> global_queue \<Rightarrow> worker \<times> global_queue \<times> TaskHandle" where
  "drain_global mode wk g =
     (case gq_pop g (aging_pop_favours_lowest mode (wk_pop_index wk)) of
        (g1, first) \<Rightarrow>
          (if \<not> handle_valid first then (wk, g1, invalid_handle)
           else
             (case drain_loop (kGlobalDrainBatch - 1)
                     (wk\<lparr>wk_pop_index := wk_pop_index wk + 1, wk_global_pops := wk_global_pops wk + 1\<rparr>) g1 of
                (wk', g2) \<Rightarrow> (wk', g2, first))))"

text \<open>One victim: its deques in priority order; a lost race (\<open>Abort\<close>) moves on.\<close>

fun steal_scan :: "nat list \<Rightarrow> worker \<Rightarrow> worker \<times> TaskHandle option" where
  "steal_scan [] victim = (victim, None)"
| "steal_scan (p # ps) victim =
     (case abp_steal (wk_queues victim ! p) of
        (q, outcome, out) \<Rightarrow>
          (let victim' = victim\<lparr>wk_queues := (wk_queues victim)[p := q]\<rparr> in
           if outcome = Success then (victim', out) else steal_scan ps victim'))"

fun steal_victims :: "nat \<Rightarrow> nat list \<Rightarrow> tb_state \<Rightarrow> tb_state \<times> TaskHandle option" where
  "steal_victims self [] d = (d, None)"
| "steal_victims self (v # vs) d =
     (if v = self then steal_victims self vs d
      else case steal_scan [0..<kPriorityCount] (tb_workers d ! v) of
        (victim, out) \<Rightarrow>
          (let d' = upd_worker v victim d in
           case out of Some h \<Rightarrow> (d', Some h) | None \<Rightarrow> steal_victims self vs d'))"

definition victim_order :: "u32 \<Rightarrow> u32 \<Rightarrow> nat list" where
  "victim_order start workers = map (\<lambda>offset. unat ((start + of_nat offset) mod workers)) [0..<unat workers]"

definition steal_from_others :: "nat \<Rightarrow> tb_state \<Rightarrow> tb_state \<times> TaskHandle" where
  "steal_from_others self d =
     (if tb_worker_count d \<le> 1 then (d, invalid_handle)
      else
        (let wk = tb_workers d ! self;
             rng = xorshift64 (wk_rng wk);
             d1 = upd_worker self
                    (wk\<lparr>wk_steal_attempts := wk_steal_attempts wk + 1, wk_rng := rng\<rparr>) d;
             start = ucast (rng mod ucast (tb_worker_count d)) :: u32
         in case steal_victims self (victim_order start (tb_worker_count d)) d1 of
              (d2, Some h) \<Rightarrow>
                (upd_worker self ((tb_workers d2 ! self)\<lparr>wk_steals_succeeded :=
                    wk_steals_succeeded (tb_workers d2 ! self) + 1\<rparr>) d2, h)
            | (d2, None) \<Rightarrow>
                (upd_worker self ((tb_workers d2 ! self)\<lparr>wk_steals_failed :=
                    wk_steals_failed (tb_workers d2 ! self) + 1\<rparr>) d2, invalid_handle)))"

definition local_step :: "nat \<Rightarrow> tb_state \<Rightarrow> tb_state \<times> TaskHandle" where
  "local_step self d =
     (case pop_local (tb_mode d) (tb_skip_empty d) (tb_workers d ! self) of
        (wk, h) \<Rightarrow> (upd_worker self wk d, h))"

definition global_step :: "nat \<Rightarrow> tb_state \<Rightarrow> tb_state \<times> TaskHandle" where
  "global_step self d =
     (case drain_global (tb_mode d) (tb_workers d ! self) (tb_global d) of
        (wk, g, h) \<Rightarrow> ((upd_worker self wk d)\<lparr>tb_global := g\<rparr>, h))"

text \<open>The aging turn: the lowest-priority handle of the global queue, before anything else.\<close>

definition aging_step :: "nat \<Rightarrow> tb_state \<Rightarrow> tb_state \<times> TaskHandle" where
  "aging_step self d =
     (let wk = tb_workers d ! self in
      if aging_pop_favours_lowest (tb_mode d) (wk_pop_index wk) then
        (case gq_pop (tb_global d) True of
           (g, h) \<Rightarrow>
             (if handle_valid h
              then ((upd_worker self (wk\<lparr>wk_pop_index := wk_pop_index wk + 1,
                        wk_global_pops := wk_global_pops wk + 1\<rparr>) d)\<lparr>tb_global := g\<rparr>, h)
              else (d\<lparr>tb_global := g\<rparr>, invalid_handle)))
      else (d, invalid_handle))"

definition acquire_next :: "nat \<Rightarrow> tb_state \<Rightarrow> tb_state \<times> TaskHandle" where
  "acquire_next self d =
     (if tb_mode d = Static then
        (case pop_inbox (tb_mode d) (tb_workers d ! self) of (wk, h) \<Rightarrow> (upd_worker self wk d, h))
      else
        (case aging_step self d of
           (d1, h1) \<Rightarrow> if handle_valid h1 then (d1, h1)
           else case local_step self d1 of
             (d2, h2) \<Rightarrow> if handle_valid h2 then (d2, h2)
             else case global_step self d2 of
               (d3, h3) \<Rightarrow> if handle_valid h3 then (d3, h3) else steal_from_others self d3))"

section \<open>Parking\<close>

definition any_work_available :: "tb_state \<Rightarrow> bool" where
  "any_work_available d \<longleftrightarrow>
     (if gq_size_hint (tb_global d) > 0 then True
      else if tb_mode d = Static then List.find (\<lambda>wk. wk_inbox_count wk > 0) (tb_workers d) \<noteq> None
      else List.find (\<lambda>wk. List.find (\<lambda>p. \<not> empty_hint (wk_queues wk ! p)) [0..<kPriorityCount] \<noteq> None)
             (tb_workers d) \<noteq> None)"

text \<open>
  \<open>park_worker\<close> up to the wait (the flag says whether the worker sleeps), and after it.
\<close>

definition park_begin :: "nat \<Rightarrow> tb_state \<Rightarrow> tb_state \<times> bool" where
  "park_begin self d =
     (let d1 = d\<lparr>tb_sleeping := tb_sleeping d + 1\<rparr> in
      if \<not> tb_running d1 \<or> any_work_available d1 then (d1\<lparr>tb_sleeping := tb_sleeping d1 - 1\<rparr>, False)
      else (upd_worker self ((tb_workers d1 ! self)\<lparr>wk_parks := wk_parks (tb_workers d1 ! self) + 1\<rparr>) d1, True))"

definition park_end :: "tb_state \<Rightarrow> tb_state" where
  "park_end d = d\<lparr>tb_sleeping := tb_sleeping d - 1\<rparr>"

definition tb_stats_of :: "tb_state \<Rightarrow> tb_stats" where
  "tb_stats_of d =
     \<lparr>st_tasks_executed = fold (\<lambda>wk n. n + wk_executed wk) (tb_workers d) 0,
      st_steal_attempts = fold (\<lambda>wk n. n + wk_steal_attempts wk) (tb_workers d) 0,
      st_steals_succeeded = fold (\<lambda>wk n. n + wk_steals_succeeded wk) (tb_workers d) 0,
      st_steals_failed = fold (\<lambda>wk n. n + wk_steals_failed wk) (tb_workers d) 0,
      st_global_pops = fold (\<lambda>wk n. n + wk_global_pops wk) (tb_workers d) 0,
      st_local_overflows = tb_local_overflows d,
      st_worker_parks = fold (\<lambda>wk n. n + wk_parks wk) (tb_workers d) 0,
      st_submissions_local = tb_submissions_local d,
      st_submissions_global = tb_submissions_global d\<rparr>"

section \<open>What the dispatcher holds\<close>

definition wk_list :: "worker \<Rightarrow> TaskHandle list" where
  "wk_list wk = concat (map dq_content (wk_queues wk)) @ concat (wk_inbox wk)"

definition wk_inv :: "worker \<Rightarrow> bool" where
  "wk_inv wk \<longleftrightarrow> length (wk_queues wk) = kPriorityCount \<and> (\<forall>q \<in> set (wk_queues wk). dq_inv q) \<and>
     length (wk_inbox wk) = kPriorityCount \<and> wk_inbox_count wk = length (concat (wk_inbox wk)) \<and>
     (\<forall>h \<in> set (wk_list wk). handle_valid h)"

definition tb_inv :: "tb_state \<Rightarrow> bool" where
  "tb_inv d \<longleftrightarrow> length (tb_workers d) = unat (tb_worker_count d) \<and> 0 < tb_worker_count d \<and>
     tb_worker_count d \<le> 2 ^ 31 \<and> (\<forall>wk \<in> set (tb_workers d). wk_inv wk) \<and> gq_inv (tb_global d) \<and>
     (tb_mode d = Static \<longrightarrow> concat (gq_queues (tb_global d)) = [] \<and>
        (\<forall>wk \<in> set (tb_workers d). concat (map dq_content (wk_queues wk)) = [])) \<and>
     (tb_mode d \<noteq> Static \<longrightarrow> (\<forall>wk \<in> set (tb_workers d). concat (wk_inbox wk) = []))"

definition tb_content :: "tb_state \<Rightarrow> TaskHandle multiset" where
  "tb_content d = mset (concat (gq_queues (tb_global d))) + mset (concat (map wk_list (tb_workers d)))"

definition tb_caller :: "tb_state \<Rightarrow> u32 option \<Rightarrow> bool" where
  "tb_caller d c \<longleftrightarrow> (case c of None \<Rightarrow> True | Some i \<Rightarrow> unat i < length (tb_workers d))"

end
