(* ===== verification/Thunderbolt_Correct.thy ===== *)
theory Thunderbolt_Correct
  imports Thunderbolt_Dispatch
begin

text \<open>
  Correctness of the work distribution: every step conserves the queued handles, a worker that
  looks for work finds some whenever there is any, and a worker never parks while work is queued.
\<close>

section \<open>One worker\<close>

definition handles_of :: "TaskHandle \<Rightarrow> TaskHandle multiset" where
  "handles_of h = (if handle_valid h then {#h#} else {#})"

lemma handles_of_simps [simp]:
  "handles_of invalid_handle = {#}" "handle_valid h \<Longrightarrow> handles_of h = {#h#}"
  "handles_of h = {#} \<longleftrightarrow> \<not> handle_valid h" "\<not> handle_valid h \<Longrightarrow> handles_of h = {#}"
  by (simp_all add: handles_of_def)

definition wk_local :: "worker \<Rightarrow> TaskHandle multiset" where
  "wk_local wk = mset (concat (map dq_content (wk_queues wk)))"

definition wk_waiting :: "worker \<Rightarrow> TaskHandle multiset" where
  "wk_waiting wk = mset (concat (wk_inbox wk))"

lemma wk_list_mset: "mset (wk_list wk) = wk_local wk + wk_waiting wk"
  by (simp add: wk_list_def wk_local_def wk_waiting_def)

lemma wk_inv_alt: "wk_inv wk \<longleftrightarrow> length (wk_queues wk) = kPriorityCount \<and>
    (\<forall>q \<in> set (wk_queues wk). dq_inv q) \<and> length (wk_inbox wk) = kPriorityCount \<and>
    wk_inbox_count wk = size (wk_waiting wk) \<and> (\<forall>h \<in># wk_local wk + wk_waiting wk. handle_valid h)"
proof -
  have "set (wk_list wk) = set_mset (wk_local wk + wk_waiting wk)" by (metis set_mset_mset wk_list_mset)
  then show ?thesis by (simp add: wk_inv_def wk_waiting_def)
qed

lemma wk_local_update:
  assumes "length (wk_queues wk) = kPriorityCount" "p < kPriorityCount"
  shows "wk_local (wk\<lparr>wk_queues := (wk_queues wk)[p := q]\<rparr>) + mset (dq_content (wk_queues wk ! p)) =
         wk_local wk + mset (dq_content q)"
  using mset_concat_update [of p "map dq_content (wk_queues wk)" "dq_content q"] assms
  by (simp add: wk_local_def map_update)

lemma wk_local_frame:
  "wk_local (wk\<lparr>wk_rng := a\<rparr>) = wk_local wk" "wk_local (wk\<lparr>wk_executed := a\<rparr>) = wk_local wk"
  "wk_local (wk\<lparr>wk_steal_attempts := a\<rparr>) = wk_local wk" "wk_local (wk\<lparr>wk_steals_succeeded := a\<rparr>) = wk_local wk"
  "wk_local (wk\<lparr>wk_steals_failed := a\<rparr>) = wk_local wk" "wk_local (wk\<lparr>wk_global_pops := a\<rparr>) = wk_local wk"
  "wk_local (wk\<lparr>wk_parks := a\<rparr>) = wk_local wk" "wk_local (wk\<lparr>wk_pop_index := a\<rparr>) = wk_local wk"
  "wk_local (wk\<lparr>wk_inbox := b\<rparr>) = wk_local wk" "wk_local (wk\<lparr>wk_inbox_count := n\<rparr>) = wk_local wk"
  by (simp_all add: wk_local_def)

lemma wk_waiting_frame:
  "wk_waiting (wk\<lparr>wk_rng := a\<rparr>) = wk_waiting wk" "wk_waiting (wk\<lparr>wk_executed := a\<rparr>) = wk_waiting wk"
  "wk_waiting (wk\<lparr>wk_steal_attempts := a\<rparr>) = wk_waiting wk" "wk_waiting (wk\<lparr>wk_steals_succeeded := a\<rparr>) = wk_waiting wk"
  "wk_waiting (wk\<lparr>wk_steals_failed := a\<rparr>) = wk_waiting wk" "wk_waiting (wk\<lparr>wk_global_pops := a\<rparr>) = wk_waiting wk"
  "wk_waiting (wk\<lparr>wk_parks := a\<rparr>) = wk_waiting wk" "wk_waiting (wk\<lparr>wk_pop_index := a\<rparr>) = wk_waiting wk"
  "wk_waiting (wk\<lparr>wk_queues := qs\<rparr>) = wk_waiting wk" "wk_waiting (wk\<lparr>wk_inbox_count := n\<rparr>) = wk_waiting wk"
  by (simp_all add: wk_waiting_def)

lemmas wk_frame = wk_local_frame wk_waiting_frame

text \<open>
  Replacing one deque by the result of an operation on it: the worker stays well-formed and its
  stored handles change as the deque's do.
\<close>

lemma wk_deque_step:
  assumes wk: "wk_inv wk" and p: "p < kPriorityCount" and q: "dq_inv q"
    and c: "mset (dq_content q) + A = mset (dq_content (wk_queues wk ! p)) + B"
    and B: "\<forall>h \<in># B. handle_valid h"
  shows "wk_inv (wk\<lparr>wk_queues := (wk_queues wk)[p := q]\<rparr>)"
    "wk_local (wk\<lparr>wk_queues := (wk_queues wk)[p := q]\<rparr>) + A = wk_local wk + B"
proof -
  let ?wk = "wk\<lparr>wk_queues := (wk_queues wk)[p := q]\<rparr>"
  have l: "length (wk_queues wk) = kPriorityCount" using wk by (simp add: wk_inv_def)
  have "wk_local ?wk + mset (dq_content (wk_queues wk ! p)) = wk_local wk + mset (dq_content q)"
    by (rule wk_local_update [OF l p])
  then have "wk_local ?wk + A + mset (dq_content (wk_queues wk ! p)) =
      wk_local wk + B + mset (dq_content (wk_queues wk ! p))"
    using c by (metis (no_types, lifting) union_assoc union_commute)
  then show e: "wk_local ?wk + A = wk_local wk + B" by simp
  have "set_mset (wk_local ?wk) \<subseteq> set_mset (wk_local wk + B)" by (simp add: e [symmetric])
  then have "\<forall>h \<in># wk_local ?wk + wk_waiting wk. handle_valid h"
    using wk B by (auto simp: wk_inv_alt)
  then show "wk_inv ?wk"
    using wk q by (auto simp: wk_inv_alt wk_frame intro: ball_set_update [rule_format] dest: set_update_subset_insert [THEN subsetD])
qed

lemma wk_deque_inv: "wk_inv wk \<Longrightarrow> p < kPriorityCount \<Longrightarrow> dq_inv (wk_queues wk ! p)"
  by (simp add: wk_inv_def)

lemma wk_queue_valid:
  assumes "wk_inv wk" "p < kPriorityCount" "h \<in> set (dq_content (wk_queues wk ! p))"
  shows "handle_valid h"
proof -
  have "h \<in># wk_local wk" using assms by (auto simp: wk_local_def wk_inv_def intro!: bexI [of _ "wk_queues wk ! p"])
  then show ?thesis using assms(1) by (auto simp: wk_inv_alt)
qed

lemma wk_push_step:
  assumes "wk_inv wk" "p < kPriorityCount" "handle_valid h" "wk_push p h wk = (wk', ok)"
  shows "wk_inv wk' \<and> wk_local wk' = wk_local wk + (if ok then {#h#} else {#}) \<and> wk_waiting wk' = wk_waiting wk"
proof -
  let ?q = "wk_queues wk ! p"
  have e: "wk' = wk\<lparr>wk_queues := (wk_queues wk)[p := fst (abp_push ?q h)]\<rparr>" "ok = snd (abp_push ?q h)"
    using assms(4) by (auto simp: wk_push_def split: prod.splits)
  have "mset (dq_content (fst (abp_push ?q h))) + {#} = mset (dq_content ?q) + (if ok then {#h#} else {#})"
    using abp.push_mset [OF wk_deque_inv [OF assms(1,2)], of h] e(2) by simp
  from wk_deque_step [OF assms(1,2) dq_inv_push [OF wk_deque_inv [OF assms(1,2)]] this]
  show ?thesis using e assms(3) by (simp add: wk_frame)
qed

text \<open>The local scan finds something whenever a deque of the worker is not empty.\<close>

lemma pop_scan_step:
  "wk_inv wk \<Longrightarrow> set ps \<subseteq> {..<kPriorityCount} \<Longrightarrow> pop_scan se ps wk = (wk', h) \<Longrightarrow>
   wk_inv wk' \<and> wk_local wk = wk_local wk' + handles_of h \<and> wk_waiting wk' = wk_waiting wk \<and>
   (\<not> handle_valid h \<longrightarrow> (\<forall>p \<in> set ps. dq_content (wk_queues wk ! p) = []))"
proof (induction se ps wk rule: pop_scan.induct)
  case (2 se p ps wk)
  let ?q = "wk_queues wk ! p"
  have p: "p < kPriorityCount" and ps: "set ps \<subseteq> {..<kPriorityCount}" using "2.prems"(2) by auto
  have l: "p < length (wk_queues wk)" using p "2.prems"(1) by (simp add: wk_inv_def)
  note q = wk_deque_inv [OF "2.prems"(1) p]
  show ?case
  proof (cases "se \<and> empty_hint ?q")
    case True
    then show ?thesis using 2 ps empty_hint_content [OF q] by simp
  next
    case False
    obtain q' r where r: "abp_pop ?q = (q', r)" by force
    have q': "dq_inv q'" using dq_inv_pop [OF q] r by simp
    have c: "mset (dq_content q') + mset (case r of None \<Rightarrow> [] | Some x \<Rightarrow> [x]) = mset (dq_content ?q) + {#}"
      using abp.pop_mset [OF q] r by simp
    have none: "r = None \<Longrightarrow> dq_content ?q = []" "r = None \<Longrightarrow> dq_content q' = []"
      using abp.pop_some_iff [OF q] abp_pop_empty [OF q] r by auto
    note s = wk_deque_step [OF "2.prems"(1) p q' c]
    show ?thesis
    proof (cases r)
      case None
      let ?wk = "wk\<lparr>wk_queues := (wk_queues wk)[p := q']\<rparr>"
      have "wk_inv wk' \<and> wk_local ?wk = wk_local wk' + handles_of h \<and> wk_waiting wk' = wk_waiting ?wk \<and>
          (\<not> handle_valid h \<longrightarrow> (\<forall>p \<in> set ps. dq_content (wk_queues ?wk ! p) = []))"
        using "2.IH"(2) [OF False] r None s ps "2.prems"(3) False by simp
      moreover have "dq_content (wk_queues ?wk ! k) = [] \<Longrightarrow> dq_content (wk_queues wk ! k) = []" for k
        using none [OF None] l by (cases "k = p") simp_all
      ultimately show ?thesis using s None none by (auto simp: wk_frame)
    next
      case (Some x)
      have "x \<in> set (dq_content ?q)"
        using c Some by (metis list.simps(15) mset.simps(2) option.simps(5) insertI1 set_mset_mset union_iff empty_neutral(2))
      then have x: "handle_valid x" by (rule wk_queue_valid [OF "2.prems"(1) p])
      have "h = x" "wk' = wk\<lparr>wk_queues := (wk_queues wk)[p := q'], wk_pop_index := wk_pop_index wk + 1\<rparr>"
        using "2.prems"(3) False r Some by auto
      then show ?thesis using s Some x by (simp add: wk_frame wk_inv_alt)
    qed
  qed
qed simp

lemma wk_local_empty:
  "wk_inv wk \<Longrightarrow> \<forall>p < kPriorityCount. dq_content (wk_queues wk ! p) = [] \<Longrightarrow> wk_local wk = {#}"
  by (auto simp: wk_local_def wk_inv_def in_set_conv_nth)

lemma pop_local_step:
  assumes "wk_inv wk" "pop_local mode se wk = (wk', h)"
  shows "wk_inv wk' \<and> wk_local wk = wk_local wk' + handles_of h \<and> wk_waiting wk' = wk_waiting wk \<and>
    (\<not> handle_valid h \<longrightarrow> wk_local wk = {#})"
proof -
  have "pop_scan se (scan_order (aging_pop_favours_lowest mode (wk_pop_index wk))) wk = (wk', h)"
    using assms(2) by (simp add: pop_local_def)
  from pop_scan_step [OF assms(1) _ this] have s: "wk_inv wk' \<and> wk_local wk = wk_local wk' + handles_of h \<and>
    wk_waiting wk' = wk_waiting wk \<and> (\<not> handle_valid h \<longrightarrow> (\<forall>p < kPriorityCount. dq_content (wk_queues wk ! p) = []))"
    by auto
  then show ?thesis using wk_local_empty [OF assms(1)] by blast
qed

text \<open>The inbox: a pop takes the oldest handle of the first non-empty priority of its scan.\<close>

lemma inbox_push_step:
  assumes "wk_inv wk" "p < kPriorityCount" "handle_valid h"
  shows "wk_inv (inbox_push p h wk) \<and> wk_local (inbox_push p h wk) = wk_local wk \<and>
    wk_waiting (inbox_push p h wk) = add_mset h (wk_waiting wk)"
proof -
  have "p < length (wk_inbox wk)" using assms by (simp add: wk_inv_def)
  then have w: "wk_waiting (inbox_push p h wk) = add_mset h (wk_waiting wk)"
    by (simp add: wk_waiting_def inbox_push_def mset_concat_append_at)
  have l: "wk_local (inbox_push p h wk) = wk_local wk" by (simp add: inbox_push_def wk_local_def)
  show ?thesis using assms w l by (auto simp: wk_inv_alt inbox_push_def)
qed

lemma pop_inbox_step:
  assumes "wk_inv wk" "pop_inbox mode wk = (wk', h)"
  shows "wk_inv wk' \<and> wk_waiting wk = wk_waiting wk' + handles_of h \<and> wk_local wk' = wk_local wk \<and>
    (\<not> handle_valid h \<longrightarrow> wk_waiting wk = {#})"
proof (cases "wk_inbox_count wk = 0")
  case True
  then show ?thesis using assms by (auto simp: pop_inbox_def wk_inv_alt)
next
  case False
  let ?order = "scan_order (aging_pop_favours_lowest mode (wk_pop_index wk))"
  show ?thesis
  proof (cases "List.find (\<lambda>p. wk_inbox wk ! p \<noteq> []) ?order")
    case None
    then have "\<forall>p < kPriorityCount. wk_inbox wk ! p = []" by (simp add: find_None_all)
    then have "concat (wk_inbox wk) = []" using assms(1) concat_all_empty by (metis wk_inv_def)
    then show ?thesis using False assms(1) by (simp add: wk_inv_alt wk_waiting_def)
  next
    case (Some p)
    then have p: "p < length (wk_inbox wk)" "wk_inbox wk ! p \<noteq> []"
      using find_Some_in [OF Some] assms(1) by (auto simp: wk_inv_def)
    have e: "h = hd (wk_inbox wk ! p)" "wk' = wk\<lparr>wk_inbox := (wk_inbox wk)[p := tl (wk_inbox wk ! p)],
        wk_inbox_count := wk_inbox_count wk - 1, wk_pop_index := wk_pop_index wk + 1\<rparr>"
      using assms(2) False Some by (auto simp: pop_inbox_def)
    have w: "add_mset h (wk_waiting wk') = wk_waiting wk"
      using mset_concat_tl_at [OF p] e by (simp add: wk_waiting_def)
    have l: "wk_local wk' = wk_local wk" using e by (simp add: wk_local_def)
    have v: "\<forall>k \<in># wk_local wk + wk_waiting wk. handle_valid k"
      and n: "wk_inbox_count wk = size (wk_waiting wk)" using assms(1) by (auto simp: wk_inv_alt)
    have "handle_valid h" using v by (simp flip: w)
    moreover have "wk_inv wk'"
    proof -
      have "wk_queues wk' = wk_queues wk" "length (wk_inbox wk') = length (wk_inbox wk)"
          "wk_inbox_count wk' = wk_inbox_count wk - 1" using e by simp_all
      moreover have "wk_inbox_count wk' = size (wk_waiting wk')"
        using calculation n arg_cong [OF w, of size] by simp
      moreover have "\<forall>k \<in># wk_local wk' + wk_waiting wk'. handle_valid k" using v l by (simp flip: w)
      ultimately show ?thesis using assms(1) unfolding wk_inv_alt by simp
    qed
    ultimately show ?thesis using w l by simp
  qed
qed

text \<open>Batch draining moves handles from the queue to the deques of the worker, and loses none.\<close>

definition gq_content :: "global_queue \<Rightarrow> TaskHandle multiset" where
  "gq_content g = mset (concat (gq_queues g))"

lemma gq_push_content: "gq_inv g \<Longrightarrow> gq_content (gq_push g h p) = add_mset h (gq_content g)"
  unfolding gq_content_def by (rule gq.enq_mset)

lemma gq_pop_content:
  assumes "gq_inv g" "gq_pop g lf = (g', h)"
  shows "gq_inv g' \<and> gq_content g = gq_content g' + handles_of h \<and> (\<not> handle_valid h \<longrightarrow> gq_content g = {#})"
proof -
  let ?o = "as_option (gq_pop g lf)"
  have o: "fst ?o = g'" "snd ?o = (if handle_valid h then Some h else None)"
    using assms(2) by (simp_all add: as_option_def)
  have "mset (concat (gq_queues (fst ?o))) + mset (case snd ?o of None \<Rightarrow> [] | Some h \<Rightarrow> [h]) =
      mset (concat (gq_queues g))" "gq_inv (fst ?o)" "snd ?o = None \<longleftrightarrow> concat (gq_queues g) = []"
    using gq.deq_mset [OF assms(1)] gq_low.deq_mset [OF assms(1)] gq.deq_inv [OF assms(1)]
      gq_low.deq_inv [OF assms(1)] gq.deq_none_iff [OF assms(1)] gq_low.deq_none_iff [OF assms(1)]
    by (cases lf; simp)+
  then show ?thesis unfolding o gq_content_def by (auto split: if_splits)
qed

lemma drain_loop_step:
  "wk_inv wk \<Longrightarrow> gq_inv g \<Longrightarrow> drain_loop n wk g = (wk', g') \<Longrightarrow>
   wk_inv wk' \<and> gq_inv g' \<and> wk_local wk' + gq_content g' = wk_local wk + gq_content g \<and>
   wk_waiting wk' = wk_waiting wk"
proof (induction n wk g rule: drain_loop.induct)
  case (2 n wk g)
  obtain g1 extra prio where r: "gq_pop_with_priority g False = (g1, extra, prio)" by (metis prod_cases3)
  then have "gq_pop g False = (g1, extra)" by (simp add: gq_pop_def)
  from gq_pop_content [OF "2.prems"(2) this]
  have g1: "gq_inv g1" "gq_content g = gq_content g1 + handles_of extra" by simp_all
  show ?case
  proof (cases "handle_valid extra")
    case False
    then show ?thesis using "2.prems" r g1 by simp
  next
    case True
    obtain wk1 ok where w: "wk_push (prio_index prio) extra wk = (wk1, ok)" by force
    note s = wk_push_step [OF "2.prems"(1) prio_index_less True w]
    show ?thesis
    proof (cases ok)
      case True
      have "drain_loop n wk1 g1 = (wk', g')" using "2.prems"(3) r \<open>handle_valid extra\<close> w True by simp
      then have "wk_inv wk' \<and> gq_inv g' \<and> wk_local wk' + gq_content g' = wk_local wk1 + gq_content g1 \<and>
          wk_waiting wk' = wk_waiting wk1"
        using "2.IH" [OF r [symmetric] refl _ w [symmetric]] True \<open>handle_valid extra\<close> s g1 by simp
      then show ?thesis using s g1 True \<open>handle_valid extra\<close> by simp
    next
      case False
      then have e: "wk' = wk1" "g' = gq_push g1 extra prio"
        using "2.prems"(3) r \<open>handle_valid extra\<close> w by simp_all
      show ?thesis
        using s g1 e False \<open>handle_valid extra\<close> gq_push_content [OF g1(1)] gq_inv_push [OF g1(1)] by simp
    qed
  qed
qed simp

lemma drain_global_step:
  assumes "wk_inv wk" "gq_inv g" "drain_global mode wk g = (wk', g', h)"
  shows "wk_inv wk' \<and> gq_inv g' \<and> wk_local wk + gq_content g = wk_local wk' + gq_content g' + handles_of h \<and>
    wk_waiting wk' = wk_waiting wk \<and> (\<not> handle_valid h \<longrightarrow> gq_content g = {#} \<and> wk' = wk)"
proof -
  obtain g1 first where r: "gq_pop g (aging_pop_favours_lowest mode (wk_pop_index wk)) = (g1, first)"
    by force
  note s = gq_pop_content [OF assms(2) r]
  show ?thesis
  proof (cases "handle_valid first")
    case False
    then have "wk' = wk" "g' = g1" "h = invalid_handle"
      using assms(3) r by (simp_all add: drain_global_def)
    then show ?thesis using assms(1) s False by auto
  next
    case True
    let ?wk = "wk\<lparr>wk_pop_index := wk_pop_index wk + 1, wk_global_pops := wk_global_pops wk + 1\<rparr>"
    have w: "wk_inv ?wk" using assms(1) by (simp add: wk_inv_alt wk_frame)
    have "drain_loop (kGlobalDrainBatch - 1) ?wk g1 = (wk', g')" "h = first"
      using assms(3) r True by (auto simp: drain_global_def split: prod.splits)
    then show ?thesis using drain_loop_step [OF w, of g1] s True by (simp add: wk_frame)
  qed
qed

text \<open>Stealing from one victim.\<close>

lemma steal_scan_step:
  "wk_inv wk \<Longrightarrow> set ps \<subseteq> {..<kPriorityCount} \<Longrightarrow> steal_scan ps wk = (wk', r) \<Longrightarrow>
   wk_inv wk' \<and> wk_local wk = wk_local wk' + (case r of None \<Rightarrow> {#} | Some h \<Rightarrow> {#h#}) \<and>
   wk_waiting wk' = wk_waiting wk \<and> (\<forall>h. r = Some h \<longrightarrow> handle_valid h) \<and>
   (r = None \<longrightarrow> (\<forall>p \<in> set ps. dq_content (wk_queues wk ! p) = []))"
proof (induction ps wk rule: steal_scan.induct)
  case (2 p ps wk)
  let ?q = "wk_queues wk ! p"
  have p: "p < kPriorityCount" and ps: "set ps \<subseteq> {..<kPriorityCount}" using "2.prems"(2) by auto
  have l: "p < length (wk_queues wk)" using p "2.prems"(1) by (simp add: wk_inv_def)
  note q = wk_deque_inv [OF "2.prems"(1) p]
  obtain q' oc out where r: "abp_steal ?q = (q', oc, out)" by (metis prod_cases3)
  have os: "abp_steal_opt ?q = (q', out)" using r by (simp add: abp_steal_opt_def)
  have q': "dq_inv q'" using dq_inv_steal [OF q] os by simp
  have c: "mset (dq_content q') + mset (case out of None \<Rightarrow> [] | Some x \<Rightarrow> [x]) = mset (dq_content ?q) + {#}"
    using abp.steal_mset [OF q] os by simp
  have oc: "oc = Success \<longleftrightarrow> out \<noteq> None" "out = None \<Longrightarrow> dq_content ?q = [] \<and> dq_content q' = []"
    using r abp.steal_some_iff [OF q] os abp_steal_empty [OF q]
    by (auto simp: abp_steal_def Let_def cas_top_def split: if_splits)
  note s = wk_deque_step [OF "2.prems"(1) p q' c]
  let ?wk = "wk\<lparr>wk_queues := (wk_queues wk)[p := q']\<rparr>"
  show ?case
  proof (cases out)
    case None
    have "steal_scan ps ?wk = (wk', r)" using "2.prems"(3) \<open>abp_steal ?q = _\<close> oc None by (simp add: Let_def)
    then have "wk_inv wk' \<and> wk_local ?wk = wk_local wk' + (case r of None \<Rightarrow> {#} | Some h \<Rightarrow> {#h#}) \<and>
       wk_waiting wk' = wk_waiting ?wk \<and> (\<forall>h. r = Some h \<longrightarrow> handle_valid h) \<and>
       (r = None \<longrightarrow> (\<forall>p \<in> set ps. dq_content (wk_queues ?wk ! p) = []))"
      using "2.IH" [OF \<open>abp_steal ?q = _\<close> [symmetric] refl refl] oc None s ps by simp
    moreover have "dq_content (wk_queues ?wk ! k) = [] \<Longrightarrow> dq_content (wk_queues wk ! k) = []" for k
      using oc(2) [OF None] l by (cases "k = p") simp_all
    ultimately show ?thesis using s None oc by (auto simp: wk_frame)
  next
    case (Some x)
    have "x \<in> set (dq_content ?q)"
      using c Some by (metis list.simps(15) mset.simps(2) option.simps(5) insertI1 set_mset_mset union_iff empty_neutral(2))
    then have x: "handle_valid x" by (rule wk_queue_valid [OF "2.prems"(1) p])
    have "r = Some x" "wk' = ?wk" using "2.prems"(3) \<open>abp_steal ?q = _\<close> oc Some by (auto simp: Let_def)
    then show ?thesis using s Some x by (simp add: wk_frame)
  qed
qed simp

section \<open>The whole dispatcher\<close>

definition tb_shape_eq :: "tb_state \<Rightarrow> tb_state \<Rightarrow> bool" where
  "tb_shape_eq d d' \<longleftrightarrow> tb_mode d' = tb_mode d \<and> tb_worker_count d' = tb_worker_count d \<and>
     length (tb_workers d') = length (tb_workers d) \<and> tb_running d' = tb_running d \<and>
     tb_sleeping d' = tb_sleeping d \<and> tb_skip_empty d' = tb_skip_empty d"

lemma tb_shape_eq_refl [simp]: "tb_shape_eq d d"
  by (simp add: tb_shape_eq_def)

lemma tb_shape_eq_trans: "tb_shape_eq a b \<Longrightarrow> tb_shape_eq b c \<Longrightarrow> tb_shape_eq a c"
  by (simp add: tb_shape_eq_def)

lemma tb_inv_alt: "tb_inv d \<longleftrightarrow> length (tb_workers d) = unat (tb_worker_count d) \<and> 0 < tb_worker_count d \<and>
     tb_worker_count d \<le> 2 ^ 31 \<and> (\<forall>wk \<in> set (tb_workers d). wk_inv wk) \<and> gq_inv (tb_global d) \<and>
     (tb_mode d = Static \<longrightarrow> gq_content (tb_global d) = {#} \<and> (\<forall>wk \<in> set (tb_workers d). wk_local wk = {#})) \<and>
     (tb_mode d \<noteq> Static \<longrightarrow> (\<forall>wk \<in> set (tb_workers d). wk_waiting wk = {#}))"
  by (simp add: tb_inv_def gq_content_def wk_local_def wk_waiting_def)

lemma tb_content_alt: "tb_content d = gq_content (tb_global d) +
    sum_list (map (\<lambda>wk. wk_local wk + wk_waiting wk) (tb_workers d))"
proof -
  have "mset (concat (map wk_list wks)) = sum_list (map (\<lambda>wk. wk_local wk + wk_waiting wk) wks)" for wks
    by (induction wks) (simp_all add: wk_list_mset)
  then show ?thesis by (simp add: tb_content_def gq_content_def)
qed

lemma sum_list_update_mset:
  fixes f :: "'a \<Rightarrow> 'b multiset"
  shows "i < length xs \<Longrightarrow> sum_list (map f (xs[i := y])) + f (xs ! i) = sum_list (map f xs) + f y"
proof (induction xs arbitrary: i)
  case (Cons x xs)
  then show ?case by (cases i) (simp_all add: ac_simps)
qed simp

lemma tb_workerD: "tb_inv d \<Longrightarrow> i < length (tb_workers d) \<Longrightarrow> wk_inv (tb_workers d ! i)"
  by (simp add: tb_inv_alt)

lemma upd_worker_shape [simp]: "tb_shape_eq d (upd_worker i wk d)"
  by (simp add: tb_shape_eq_def upd_worker_def)

lemma upd_worker_inv:
  assumes "tb_inv d" "wk_inv wk" "tb_mode d = Static \<Longrightarrow> wk_local wk = {#}"
    "tb_mode d \<noteq> Static \<Longrightarrow> wk_waiting wk = {#}"
  shows "tb_inv (upd_worker i wk d)"
  using assms by (auto simp: tb_inv_alt upd_worker_def intro!: ball_set_update dest: set_update_subset_insert [THEN subsetD])

lemma upd_worker_content:
  assumes "i < length (tb_workers d)"
  shows "tb_content (upd_worker i wk d) + (wk_local (tb_workers d ! i) + wk_waiting (tb_workers d ! i)) =
    tb_content d + (wk_local wk + wk_waiting wk)"
  using sum_list_update_mset [OF assms, of "\<lambda>wk. wk_local wk + wk_waiting wk" wk]
  by (simp add: tb_content_alt upd_worker_def ac_simps)

text \<open>A step that changes one worker and takes \<open>A\<close> out of it.\<close>

lemma worker_step:
  assumes d: "tb_inv d" and i: "i < length (tb_workers d)" and wk: "wk_inv wk"
    and l: "wk_local (tb_workers d ! i) = wk_local wk + A" and w: "wk_waiting (tb_workers d ! i) = wk_waiting wk + B"
  shows "tb_inv (upd_worker i wk d) \<and> tb_content d = tb_content (upd_worker i wk d) + (A + B)"
proof
  have "tb_workers d ! i \<in> set (tb_workers d)" using i by simp
  then have s: "tb_mode d = Static \<Longrightarrow> wk_local (tb_workers d ! i) = {#}"
      "tb_mode d \<noteq> Static \<Longrightarrow> wk_waiting (tb_workers d ! i) = {#}"
    using d unfolding tb_inv_alt by blast+
  show "tb_inv (upd_worker i wk d)" by (rule upd_worker_inv [OF d wk]) (use s l w in simp_all)
  have "tb_content (upd_worker i wk d) + (A + B) + (wk_local wk + wk_waiting wk) =
      tb_content d + (wk_local wk + wk_waiting wk)"
    using upd_worker_content [OF i, of wk] unfolding l w by (simp only: ac_simps)
  then show "tb_content d = tb_content (upd_worker i wk d) + (A + B)" by (metis add_right_cancel)
qed

subsection \<open>Enqueueing\<close>

lemma tb_inv_frame:
  "tb_inv (d\<lparr>tb_static_cursor := a\<rparr>) = tb_inv d" "tb_inv (d\<lparr>tb_local_overflows := b\<rparr>) = tb_inv d"
  "tb_inv (d\<lparr>tb_submissions_local := b\<rparr>) = tb_inv d" "tb_inv (d\<lparr>tb_submissions_global := b\<rparr>) = tb_inv d"
  "tb_inv (d\<lparr>tb_sleeping := a\<rparr>) = tb_inv d" "tb_inv (d\<lparr>tb_running := r\<rparr>) = tb_inv d"
  "tb_inv (d\<lparr>tb_notified := n\<rparr>) = tb_inv d"
  by (simp_all add: tb_inv_def)

lemma tb_content_frame:
  "tb_content (d\<lparr>tb_static_cursor := a\<rparr>) = tb_content d" "tb_content (d\<lparr>tb_local_overflows := b\<rparr>) = tb_content d"
  "tb_content (d\<lparr>tb_submissions_local := b\<rparr>) = tb_content d" "tb_content (d\<lparr>tb_submissions_global := b\<rparr>) = tb_content d"
  "tb_content (d\<lparr>tb_sleeping := a\<rparr>) = tb_content d" "tb_content (d\<lparr>tb_running := r\<rparr>) = tb_content d"
  "tb_content (d\<lparr>tb_notified := n\<rparr>) = tb_content d"
  by (simp_all add: tb_content_def)

lemma wake_one_frame:
  "tb_inv (wake_one_worker d) = tb_inv d" "tb_content (wake_one_worker d) = tb_content d"
  "tb_workers (wake_one_worker d) = tb_workers d"
  by (simp_all add: wake_one_worker_def tb_inv_frame tb_content_frame)

lemmas tb_frame = tb_inv_frame tb_content_frame wake_one_frame

lemma global_push_step:
  assumes "tb_inv d" "tb_mode d \<noteq> Static" "handle_valid h"
  shows "tb_inv (d\<lparr>tb_global := gq_push (tb_global d) h p\<rparr>)"
    "tb_content (d\<lparr>tb_global := gq_push (tb_global d) h p\<rparr>) = add_mset h (tb_content d)"
  using assms gq_push_content [of "tb_global d" h p] gq_inv_push [of "tb_global d" h p]
  by (auto simp: tb_inv_alt tb_content_alt)

lemma tb_enqueue_inv:
  assumes d: "tb_inv d" and c: "tb_caller d c" and h: "handle_valid h"
  shows "tb_inv (tb_enqueue_ready c h p d) \<and> tb_content (tb_enqueue_ready c h p d) = add_mset h (tb_content d)"
proof (cases "tb_mode d = Static")
  case True
  let ?t = "unat (tb_static_cursor d mod tb_worker_count d)"
  let ?d1 = "d\<lparr>tb_static_cursor := tb_static_cursor d + 1\<rparr>"
  let ?wk = "inbox_push (prio_index p) h (tb_workers d ! ?t)"
  have t: "?t < length (tb_workers d)"
    using d by (auto simp: tb_inv_def unat_mod word_less_nat_alt)
  note s = inbox_push_step [OF tb_workerD [OF d t] prio_index_less h, of p]
  have i1: "tb_inv ?d1" "?t < length (tb_workers ?d1)" using d t by (simp_all add: tb_frame)
  have wl: "wk_local (tb_workers d ! ?t) = {#}" using d t True by (simp add: tb_inv_alt)
  have "tb_inv (upd_worker ?t ?wk ?d1)" using upd_worker_inv [OF i1(1), of ?wk] s wl True by simp
  moreover have "tb_content (upd_worker ?t ?wk ?d1) = add_mset h (tb_content d)"
    using upd_worker_content [OF i1(2), of ?wk] s by (simp add: tb_frame)
  ultimately show ?thesis using True by (simp add: tb_enqueue_ready_def Let_def tb_frame)
next
  case False
  show ?thesis
  proof (cases c)
    case None
    then show ?thesis using False global_push_step [OF d False h, of p]
      by (simp add: tb_enqueue_ready_def Let_def tb_frame)
        (simp add: tb_inv_def tb_content_def)
  next
    case (Some i)
    then have i: "unat i < length (tb_workers d)" using c by (simp add: tb_caller_def)
    obtain wk ok where w: "wk_push (prio_index p) h (tb_workers d ! unat i) = (wk, ok)" by force
    note s = wk_push_step [OF tb_workerD [OF d i] prio_index_less h w]
    have ww: "wk_waiting (tb_workers d ! unat i) = {#}" using d i False by (simp add: tb_inv_alt)
    have u: "tb_inv (upd_worker (unat i) wk d)" using upd_worker_inv [OF d] s ww False by simp
    have uc: "tb_content (upd_worker (unat i) wk d) = tb_content d + (if ok then {#h#} else {#})"
      using upd_worker_content [OF i, of wk] s by simp
    show ?thesis
    proof (cases ok)
      case True
      then show ?thesis using Some False w u uc by (simp add: tb_enqueue_ready_def Let_def tb_frame)
    next
      case no: False
      let ?d1 = "(upd_worker (unat i) wk d)\<lparr>tb_local_overflows := tb_local_overflows (upd_worker (unat i) wk d) + 1\<rparr>"
      have "tb_inv ?d1" "tb_mode ?d1 \<noteq> Static" "tb_content ?d1 = tb_content d"
        using u uc no False by (simp_all add: tb_frame) (simp add: upd_worker_def)
      then show ?thesis using global_push_step [of ?d1 h p] Some False w no h
        by (simp add: tb_enqueue_ready_def Let_def tb_frame)
         (simp add: tb_inv_def tb_content_def)
    qed
  qed
qed

lemma tb_enqueue_shape:
  "length (tb_workers (tb_enqueue_ready c h p d)) = length (tb_workers d)"
  by (simp add: tb_enqueue_ready_def Let_def wake_one_frame upd_worker_def split: option.split prod.split)

subsection \<open>Looking for work\<close>

text \<open>
  What a step of a worker promises: the dispatcher stays well-formed, and exactly the returned
  handle leaves it.
\<close>

definition took :: "tb_state \<Rightarrow> tb_state \<Rightarrow> TaskHandle \<Rightarrow> bool" where
  "took d d' h \<longleftrightarrow> tb_inv d' \<and> tb_shape_eq d d' \<and> tb_content d = tb_content d' + handles_of h"

lemma took_trans: "took a b k \<Longrightarrow> \<not> handle_valid k \<Longrightarrow> took b c h \<Longrightarrow> took a c h"
  by (auto simp: took_def intro: tb_shape_eq_trans)

lemma local_step_took:
  assumes "tb_inv d" "i < length (tb_workers d)" "local_step i d = (d', h)"
  shows "took d d' h \<and> tb_global d' = tb_global d \<and> (\<not> handle_valid h \<longrightarrow>
    wk_local (tb_workers d ! i) = {#} \<and> wk_local (tb_workers d' ! i) = {#})"
proof -
  obtain wk where p: "pop_local (tb_mode d) (tb_skip_empty d) (tb_workers d ! i) = (wk, h)"
    and d': "d' = upd_worker i wk d" using assms(3) by (auto simp: local_step_def split: prod.splits)
  note s = pop_local_step [OF tb_workerD [OF assms(1,2)] p]
  have "took d d' h" using worker_step [OF assms(1,2), of wk "handles_of h" "{#}"] s d'
    by (simp add: took_def)
  then show ?thesis using s d' assms(2) by (auto simp: upd_worker_def)
qed

lemma wk_set_counters:
  "wk_inv (wk\<lparr>wk_rng := a\<rparr>) = wk_inv wk" "wk_inv (wk\<lparr>wk_steal_attempts := a\<rparr>) = wk_inv wk"
  "wk_inv (wk\<lparr>wk_steals_succeeded := a\<rparr>) = wk_inv wk" "wk_inv (wk\<lparr>wk_steals_failed := a\<rparr>) = wk_inv wk"
  "wk_inv (wk\<lparr>wk_global_pops := a\<rparr>) = wk_inv wk" "wk_inv (wk\<lparr>wk_parks := a\<rparr>) = wk_inv wk"
  "wk_inv (wk\<lparr>wk_pop_index := a\<rparr>) = wk_inv wk" "wk_inv (wk\<lparr>wk_executed := a\<rparr>) = wk_inv wk"
  by (simp_all add: wk_inv_alt wk_frame)

lemma exchange_sum:
  fixes a :: "'a multiset"
  assumes "S + b = T + c" "b + a = c + g + h"
  shows "a + T + c = g + S + h + c"
proof -
  have "a + T + c = a + (T + c)" by (simp only: add.assoc)
  also have "\<dots> = (b + a) + S" by (simp only: assms(1) [symmetric] ac_simps)
  also have "\<dots> = (c + g + h) + S" by (simp only: assms(2))
  also have "\<dots> = g + S + h + c" by (simp only: ac_simps)
  finally show ?thesis .
qed

lemma global_exchange:
  assumes d: "tb_inv d" and i: "i < length (tb_workers d)" and wk: "wk_inv wk" and g: "gq_inv g"
    and m: "tb_mode d \<noteq> Static" and w: "wk_waiting wk = wk_waiting (tb_workers d ! i)"
    and c: "wk_local (tb_workers d ! i) + gq_content (tb_global d) = wk_local wk + gq_content g + handles_of h"
  shows "took d ((upd_worker i wk d)\<lparr>tb_global := g\<rparr>) h"
proof -
  have ww: "wk_waiting (tb_workers d ! i) = {#}" using d i m by (simp add: tb_inv_alt)
  then have u: "tb_inv (upd_worker i wk d)" using upd_worker_inv [OF d wk] m w by simp
  have e: "tb_mode (upd_worker i wk d) = tb_mode d" "tb_global (upd_worker i wk d) = tb_global d"
    by (simp_all add: upd_worker_def)
  have "tb_inv ((upd_worker i wk d)\<lparr>tb_global := g\<rparr>)"
    using u g m e by (simp add: tb_inv_alt)
  moreover let ?S = "sum_list (map (\<lambda>wk. wk_local wk + wk_waiting wk) (tb_workers (upd_worker i wk d)))"
  have S: "?S + wk_local (tb_workers d ! i) = sum_list (map (\<lambda>wk. wk_local wk + wk_waiting wk) (tb_workers d)) + wk_local wk"
    using sum_list_update_mset [OF i, of "\<lambda>wk. wk_local wk + wk_waiting wk" wk] ww w
    by (simp add: upd_worker_def)
  have "gq_content (tb_global d) + sum_list (map (\<lambda>wk. wk_local wk + wk_waiting wk) (tb_workers d)) + wk_local wk
      = gq_content g + ?S + handles_of h + wk_local wk"
    by (rule exchange_sum [OF S c])
  then have "tb_content d = tb_content ((upd_worker i wk d)\<lparr>tb_global := g\<rparr>) + handles_of h"
    by (simp add: tb_content_alt)
  moreover have "tb_shape_eq d ((upd_worker i wk d)\<lparr>tb_global := g\<rparr>)"
    by (simp add: tb_shape_eq_def upd_worker_def)
  ultimately show ?thesis by (simp add: took_def)
qed

lemma global_step_took:
  assumes d: "tb_inv d" and i: "i < length (tb_workers d)" and m: "tb_mode d \<noteq> Static"
    and r: "global_step i d = (d', h)"
  shows "took d d' h \<and> (\<not> handle_valid h \<longrightarrow> gq_content (tb_global d) = {#} \<and> tb_workers d' = tb_workers d)"
proof -
  obtain wk g where p: "drain_global (tb_mode d) (tb_workers d ! i) (tb_global d) = (wk, g, h)"
    and d': "d' = (upd_worker i wk d)\<lparr>tb_global := g\<rparr>" using r by (auto simp: global_step_def split: prod.splits)
  have "gq_inv (tb_global d)" using d by (simp add: tb_inv_alt)
  note s = drain_global_step [OF tb_workerD [OF d i] this p]
  show ?thesis using global_exchange [OF d i _ _ m, of wk g h] s d' by (simp add: upd_worker_def)
qed

lemma aging_step_took:
  assumes d: "tb_inv d" and i: "i < length (tb_workers d)" and m: "tb_mode d \<noteq> Static"
    and r: "aging_step i d = (d', h)"
  shows "took d d' h"
proof (cases "aging_pop_favours_lowest (tb_mode d) (wk_pop_index (tb_workers d ! i))")
  case False
  then show ?thesis using r d by (auto simp: aging_step_def took_def)
next
  case ag: True
  let ?wk = "tb_workers d ! i"
  obtain g k where p: "gq_pop (tb_global d) True = (g, k)" by force
  have "gq_inv (tb_global d)" using d by (simp add: tb_inv_alt)
  note s = gq_pop_content [OF this p]
  have u: "upd_worker i ?wk d = d" by (simp add: upd_worker_def)
  show ?thesis
  proof (cases "handle_valid k")
    case True
    then have "d' = (upd_worker i (?wk\<lparr>wk_pop_index := wk_pop_index ?wk + 1,
        wk_global_pops := wk_global_pops ?wk + 1\<rparr>) d)\<lparr>tb_global := g\<rparr>" "h = k"
      using r p ag by (auto simp: aging_step_def Let_def)
    then show ?thesis
      using s by (simp add: global_exchange [OF d i _ _ m] wk_set_counters tb_workerD [OF d i] wk_frame)
  next
    case False
    then have "d' = (upd_worker i ?wk d)\<lparr>tb_global := g\<rparr>" "h = invalid_handle"
      using r p u ag by (auto simp: aging_step_def Let_def)
    then show ?thesis
      using s False by (simp add: global_exchange [OF d i _ _ m] tb_workerD [OF d i])
  qed
qed

lemma steal_victims_took:
  "tb_inv d \<Longrightarrow> set vs \<subseteq> {..<length (tb_workers d)} \<Longrightarrow> tb_mode d \<noteq> Static \<Longrightarrow>
   steal_victims self vs d = (d', r) \<Longrightarrow>
   took d d' (case r of None \<Rightarrow> invalid_handle | Some h \<Rightarrow> h) \<and> tb_global d' = tb_global d \<and>
   (\<forall>h. r = Some h \<longrightarrow> handle_valid h) \<and>
   (r = None \<longrightarrow> (\<forall>v \<in> set vs. v \<noteq> self \<longrightarrow> wk_local (tb_workers d ! v) = {#}))"
proof (induction self vs d rule: steal_victims.induct)
  case (1 self d)
  then show ?case by (simp add: took_def)
next
  case (2 self v vs d)
  have v: "v < length (tb_workers d)" and vs: "set vs \<subseteq> {..<length (tb_workers d)}" using "2.prems"(2) by auto
  show ?case
  proof (cases "v = self")
    case True
    then show ?thesis using "2.IH"(1) [OF True "2.prems"(1) vs "2.prems"(3)] "2.prems"(4) by auto
  next
    case False
    obtain wk out where p: "steal_scan [0..<kPriorityCount] (tb_workers d ! v) = (wk, out)" by force
    have "set [0..<kPriorityCount] \<subseteq> {..<kPriorityCount}" by auto
    note s = steal_scan_step [OF tb_workerD [OF "2.prems"(1) v] this p]
    have t: "took d (upd_worker v wk d) (case out of None \<Rightarrow> invalid_handle | Some h \<Rightarrow> h)"
      using worker_step [OF "2.prems"(1) v, of wk "case out of None \<Rightarrow> {#} | Some h \<Rightarrow> {#h#}" "{#}"] s
      by (simp add: took_def split: option.splits)
    show ?thesis
    proof (cases out)
      case (Some h)
      then have "d' = upd_worker v wk d" "r = Some h" using "2.prems"(4) False p by auto
      then show ?thesis using t s Some by (simp add: upd_worker_def)
    next
      case None
      let ?d = "upd_worker v wk d"
      have e: "wk_local (tb_workers d ! v) = {#}"
        by (rule wk_local_empty [OF tb_workerD [OF "2.prems"(1) v]]) (use s None in simp)
      have l: "length (tb_workers ?d) = length (tb_workers d)" "tb_mode ?d = tb_mode d" "tb_global ?d = tb_global d"
        by (simp_all add: upd_worker_def)
      have IH: "took ?d d' (case r of None \<Rightarrow> invalid_handle | Some h \<Rightarrow> h) \<and> tb_global d' = tb_global ?d \<and>
          (\<forall>h. r = Some h \<longrightarrow> handle_valid h) \<and>
          (r = None \<longrightarrow> (\<forall>u \<in> set vs. u \<noteq> self \<longrightarrow> wk_local (tb_workers ?d ! u) = {#}))"
        using "2.IH"(2) [OF False p [symmetric] refl None] "2.prems"(3,4) False p None vs l t
        by (simp add: took_def)
      have "wk_local (tb_workers ?d ! u) = {#} \<Longrightarrow> wk_local (tb_workers d ! u) = {#}" for u
        using e by (cases "u = v") (simp_all add: upd_worker_def)
      then show ?thesis using IH took_trans [OF t] None e l by auto
    qed
  qed
qed

subsection \<open>The order in which victims are tried\<close>

lemma victim_index:
  assumes "start < n" "n \<le> 2 ^ 31" "k < unat n"
  shows "unat ((start + of_nat k) mod n :: u32) = (unat start + k) mod unat n"
proof -
  have n: "unat n \<le> 2 ^ 31" using assms(2) by (simp add: word_le_nat_alt)
  have s: "unat start < unat n" using assms(1) by (simp add: word_less_nat_alt)
  have k: "unat (of_nat k :: u32) = k" using assms(3) n by (simp add: unat_of_nat)
  have "unat start + k < 2 ^ 32" using s n assms(3) by simp
  then have "unat (start + of_nat k) = unat start + k"
    using k by (simp add: unat_word_ariths)
  then show ?thesis by (simp add: unat_mod)
qed

lemma rotate_inj:
  assumes "s < (n :: nat)"
  shows "inj_on (\<lambda>k. (s + k) mod n) {..<n}"
proof (rule inj_onI)
  fix a b
  assume ab: "a \<in> {..<n}" "b \<in> {..<n}" "(s + a) mod n = (s + b) mod n"
  have r: "(s + k) mod n = (if s + k < n then s + k else s + k - n)" if "k < n" for k
    using that assms by (simp add: mod_if)
  show "a = b" using ab assms by (auto simp: r split: if_splits)
qed

lemma victim_order_perm:
  assumes "start < n" "n \<le> 2 ^ 31"
  shows "set (victim_order start n) = {..<unat n}" "distinct (victim_order start n)"
proof -
  have s: "unat start < unat n" using assms(1) by (simp add: word_less_nat_alt)
  have v: "victim_order start n = map (\<lambda>k. (unat start + k) mod unat n) [0..<unat n]"
    unfolding victim_order_def by (rule map_cong) (simp_all add: victim_index [OF assms])
  have "(\<lambda>k. (unat start + k) mod unat n) ` {..<unat n} = {..<unat n}"
    using s rotate_inj [OF s] by (intro endo_inj_surj) auto
  then show "set (victim_order start n) = {..<unat n}" by (simp add: v atLeast0LessThan)
  show "distinct (victim_order start n)"
    unfolding v distinct_map using rotate_inj [OF s] by (simp add: atLeast0LessThan)
qed

lemma steal_start_less:
  fixes n :: u32
  assumes "0 < n"
  shows "(ucast ((r :: u64) mod ucast n) :: u32) < n"
proof -
  have "unat (ucast n :: u64) = unat n" by (rule unat_widened)
  then have "unat (r mod ucast n) = unat r mod unat n" by (simp add: unat_mod)
  moreover have "unat r mod unat n < unat n" using assms by (simp add: word_less_nat_alt)
  moreover have "unat n < 2 ^ 32" using unsigned_less [of n] by simp
  ultimately have "unat (ucast (r mod ucast n) :: u32) = unat r mod unat n"
    by (simp add: unsigned_ucast_eq unsigned_take_bit_eq take_bit_eq_mod)
  then show ?thesis using \<open>unat r mod unat n < unat n\<close> by (simp add: word_less_nat_alt)
qed

subsection \<open>Stealing and the whole search\<close>

lemma counter_step:
  assumes "tb_inv d" "i < length (tb_workers d)"
    and f: "\<And>wk. wk_inv (f wk) = wk_inv wk" "\<And>wk. wk_local (f wk) = wk_local wk"
      "\<And>wk. wk_waiting (f wk) = wk_waiting wk"
  shows "took d (upd_worker i (f (tb_workers d ! i)) d) invalid_handle"
  using worker_step [OF assms(1,2), of "f (tb_workers d ! i)" "{#}" "{#}"] tb_workerD [OF assms(1,2)] f
  by (simp add: took_def)

lemma took_invalid_trans: "took a b invalid_handle \<Longrightarrow> took b c h \<Longrightarrow> took a c h"
  by (rule took_trans [OF _ invalid_handle_not_valid])

lemma took_then: "took a b h \<Longrightarrow> took b c invalid_handle \<Longrightarrow> took a c h"
  by (auto simp: took_def intro: tb_shape_eq_trans)

lemma took_facts: "took d d' h \<Longrightarrow> tb_inv d' \<and> tb_mode d' = tb_mode d \<and>
    length (tb_workers d') = length (tb_workers d) \<and> tb_worker_count d' = tb_worker_count d"
  by (simp add: took_def tb_shape_eq_def)

lemma steal_took:
  assumes d: "tb_inv d" and i: "i < length (tb_workers d)" and m: "tb_mode d \<noteq> Static"
    and r: "steal_from_others i d = (d', h)"
  shows "took d d' h \<and> (\<not> handle_valid h \<longrightarrow>
    (\<forall>v < length (tb_workers d). v \<noteq> i \<longrightarrow> wk_local (tb_workers d ! v) = {#}))"
proof (cases "tb_worker_count d \<le> 1")
  case True
  then have "length (tb_workers d) \<le> 1" using d by (simp add: tb_inv_def word_le_nat_alt)
  then show ?thesis using True r d i by (auto simp: steal_from_others_def took_def)
next
  case False
  let ?n = "tb_worker_count d" and ?wk = "tb_workers d ! i"
  let ?rng = "xorshift64 (wk_rng ?wk)"
  let ?d1 = "upd_worker i (?wk\<lparr>wk_steal_attempts := wk_steal_attempts ?wk + 1, wk_rng := ?rng\<rparr>) d"
  let ?vs = "victim_order (ucast (?rng mod ucast ?n)) ?n"
  have t1: "took d ?d1 invalid_handle"
    by (rule counter_step [OF d i, of "\<lambda>wk. wk\<lparr>wk_steal_attempts := wk_steal_attempts wk + 1,
        wk_rng := ?rng\<rparr>"]) (simp_all add: wk_set_counters wk_frame)
  have n: "0 < ?n" "?n \<le> 2 ^ 31" "length (tb_workers d) = unat ?n" using d by (simp_all add: tb_inv_def)
  have vs: "set ?vs = {..<length (tb_workers d)}"
    using victim_order_perm(1) [OF steal_start_less [OF n(1)] n(2)] n(3) by simp
  obtain d2 o2 where s: "steal_victims i ?vs ?d1 = (d2, o2)" by force
  have f1: "tb_inv ?d1" "length (tb_workers ?d1) = length (tb_workers d)" "tb_mode ?d1 = tb_mode d"
    using took_facts [OF t1] by simp_all
  have v: "took ?d1 d2 (case o2 of None \<Rightarrow> invalid_handle | Some h \<Rightarrow> h) \<and>
      (\<forall>h. o2 = Some h \<longrightarrow> handle_valid h) \<and>
      (o2 = None \<longrightarrow> (\<forall>v \<in> set ?vs. v \<noteq> i \<longrightarrow> wk_local (tb_workers ?d1 ! v) = {#}))"
    using steal_victims_took [OF f1(1) _ _ s] f1 vs m by simp
  then have t2: "took d d2 (case o2 of None \<Rightarrow> invalid_handle | Some h \<Rightarrow> h)"
    using took_invalid_trans [OF t1] by blast
  have f2: "tb_inv d2" "i < length (tb_workers d2)" using took_facts [OF t2] i by simp_all
  let ?last = "\<lambda>f. upd_worker i (f (tb_workers d2 ! i)) d2"
  have t3: "took d2 (?last (\<lambda>wk. wk\<lparr>wk_steals_succeeded := wk_steals_succeeded wk + 1\<rparr>)) invalid_handle"
    by (rule counter_step [OF f2]) (simp_all add: wk_set_counters wk_frame)
  have t4: "took d2 (?last (\<lambda>wk. wk\<lparr>wk_steals_failed := wk_steals_failed wk + 1\<rparr>)) invalid_handle"
    by (rule counter_step [OF f2]) (simp_all add: wk_set_counters wk_frame)
  show ?thesis
  proof (cases o2)
    case (Some k)
    have "took d (?last (\<lambda>wk. wk\<lparr>wk_steals_succeeded := wk_steals_succeeded wk + 1\<rparr>)) k"
      using took_then [OF _ t3] t2 Some by simp
    then show ?thesis using r False s Some v by (auto simp: steal_from_others_def Let_def)
  next
    case None
    have "took d (?last (\<lambda>wk. wk\<lparr>wk_steals_failed := wk_steals_failed wk + 1\<rparr>)) invalid_handle"
      using took_then [OF _ t4] t2 None by simp
    moreover have "wk_local (tb_workers d ! k) = {#}" if "k < length (tb_workers d)" "k \<noteq> i" for k
      using v None vs that by (simp add: upd_worker_def)
    ultimately show ?thesis using r False s None by (auto simp: steal_from_others_def Let_def)
  qed
qed

lemma content_empty:
  assumes "tb_inv d" "tb_mode d \<noteq> Static" "gq_content (tb_global d) = {#}"
    "\<forall>v < length (tb_workers d). wk_local (tb_workers d ! v) = {#}"
  shows "tb_content d = {#}"
proof -
  have "\<forall>wk \<in> set (tb_workers d). wk_local wk + wk_waiting wk = {#}"
    using assms by (auto simp: tb_inv_alt in_set_conv_nth)
  then have "map (\<lambda>wk. wk_local wk + wk_waiting wk) (tb_workers d) = map (\<lambda>wk. {#}) (tb_workers d)"
    by simp
  then have "sum_list (map (\<lambda>wk. wk_local wk + wk_waiting wk) (tb_workers d)) = {#}"
    by (simp only: sum_list_0)
  then show ?thesis using assms(3) by (simp add: tb_content_alt)
qed

lemma static_acquire_took:
  assumes d: "tb_inv d" and i: "i < length (tb_workers d)" and r: "acquire_next i d = (d', h)"
    and m: "tb_mode d = Static"
  shows "took d d' h \<and> (handle_valid h \<longleftrightarrow> wk_waiting (tb_workers d ! i) \<noteq> {#})"
proof -
  obtain wk where p: "pop_inbox (tb_mode d) (tb_workers d ! i) = (wk, h)" "d' = upd_worker i wk d"
    using r m by (auto simp: acquire_next_def split: prod.splits)
  note s = pop_inbox_step [OF tb_workerD [OF d i] p(1)]
  show ?thesis using worker_step [OF d i, of wk "{#}" "handles_of h"] s p(2) by (auto simp: took_def)
qed

lemma acquire_next_took:
  assumes d: "tb_inv d" and i: "i < length (tb_workers d)" and r: "acquire_next i d = (d', h)"
    and m: "tb_mode d \<noteq> Static"
  shows "took d d' h \<and> (\<not> handle_valid h \<longrightarrow> tb_content d = {#})"
proof -
  obtain d1 h1 where r1: "aging_step i d = (d1, h1)" by force
  note t1 = aging_step_took [OF d i m r1]
  show ?thesis
  proof (cases "handle_valid h1")
    case True
    then show ?thesis using r m r1 t1 by (simp add: acquire_next_def)
  next
    case n1: False
    have f1: "tb_inv d1" "i < length (tb_workers d1)" "tb_mode d1 \<noteq> Static" using took_facts [OF t1] i m by simp_all
    obtain d2 h2 where r2: "local_step i d1 = (d2, h2)" by force
    note s2 = local_step_took [OF f1(1,2) r2]
    note t2 = took_trans [OF t1 n1 conjunct1 [OF s2]]
    show ?thesis
    proof (cases "handle_valid h2")
      case True
      then show ?thesis using r m r1 n1 r2 t2 by (simp add: acquire_next_def)
    next
      case n2: False
      have f2: "tb_inv d2" "i < length (tb_workers d2)" "tb_mode d2 \<noteq> Static" using took_facts [OF t2] i m by simp_all
      obtain d3 h3 where r3: "global_step i d2 = (d3, h3)" by force
      note s3 = global_step_took [OF f2 r3]
      note t3 = took_trans [OF t2 n2 conjunct1 [OF s3]]
      show ?thesis
      proof (cases "handle_valid h3")
        case True
        then show ?thesis using r m r1 n1 r2 n2 r3 t3 by (simp add: acquire_next_def)
      next
        case n3: False
        have f3: "tb_inv d3" "i < length (tb_workers d3)" "tb_mode d3 \<noteq> Static" using took_facts [OF t3] i m by simp_all
        have r4: "steal_from_others i d3 = (d', h)" using r m r1 n1 r2 n2 r3 n3 by (simp add: acquire_next_def)
        note s4 = steal_took [OF f3 r4]
        have "tb_content d = {#}" if no: "\<not> handle_valid h"
        proof -
          have c: "tb_content d1 = tb_content d" "tb_content d2 = tb_content d1"
            using t1 conjunct1 [OF s2] n1 n2 by (simp_all add: took_def)
          have w: "wk_local (tb_workers d2 ! k) = {#}" if "k < length (tb_workers d2)" for k
            using s2 n2 s3 n3 s4 no that by (cases "k = i") auto
          have "tb_content d2 = {#}" using content_empty [OF f2(1,3)] s3 n3 w by blast
          then show ?thesis using c by simp
        qed
        then show ?thesis using took_trans [OF t3 n3 conjunct1 [OF s4]] by blast
      qed
    qed
  qed
qed

section \<open>Parking\<close>

lemma find_some_iff: "List.find P xs \<noteq> None \<longleftrightarrow> (\<exists>x \<in> set xs. P x)"
  by (auto simp: find_None_all)

lemma sum_list_mset_empty: "sum_list (xs :: 'a multiset list) = {#} \<longleftrightarrow> (\<forall>x \<in> set xs. x = {#})"
  by (induction xs) auto

lemma wk_local_nonempty:
  assumes "wk_inv wk"
  shows "List.find (\<lambda>p. \<not> empty_hint (wk_queues wk ! p)) [0..<kPriorityCount] \<noteq> None \<longleftrightarrow> wk_local wk \<noteq> {#}"
proof -
  have e: "empty_hint (wk_queues wk ! p) \<longleftrightarrow> dq_content (wk_queues wk ! p) = []" if "p < kPriorityCount" for p
    by (rule empty_hint_content [OF wk_deque_inv [OF assms that]])
  have l: "length (wk_queues wk) = kPriorityCount" using assms by (simp add: wk_inv_def)
  have "List.find (\<lambda>p. \<not> empty_hint (wk_queues wk ! p)) [0..<kPriorityCount] \<noteq> None \<longleftrightarrow>
      (\<exists>p < kPriorityCount. dq_content (wk_queues wk ! p) \<noteq> [])"
    unfolding find_some_iff using e by auto
  also have "\<dots> \<longleftrightarrow> concat (map dq_content (wk_queues wk)) \<noteq> []"
    unfolding concat_all_empty using l by auto
  finally show ?thesis by (simp add: wk_local_def del: concat_eq_Nil_conv)
qed

lemma any_work_iff:
  assumes d: "tb_inv d"
  shows "any_work_available d \<longleftrightarrow> tb_content d \<noteq> {#}"
proof -
  have wk: "wk_inv wk" if "wk \<in> set (tb_workers d)" for wk using d that by (simp add: tb_inv_alt)
  have g: "gq_size_hint (tb_global d) > 0 \<longleftrightarrow> gq_content (tb_global d) \<noteq> {#}"
    using d by (simp add: tb_inv_alt gq_inv_def gq_size_hint_def gq_content_def del: concat_eq_Nil_conv)
  have c: "tb_content d \<noteq> {#} \<longleftrightarrow> gq_content (tb_global d) \<noteq> {#} \<or>
      (\<exists>wk \<in> set (tb_workers d). wk_local wk + wk_waiting wk \<noteq> {#})"
    by (simp add: tb_content_alt sum_list_mset_empty)
  show ?thesis
  proof (cases "tb_mode d = Static")
    case True
    have w: "wk_inbox_count wk > 0 \<longleftrightarrow> wk_local wk + wk_waiting wk \<noteq> {#}" if "wk \<in> set (tb_workers d)" for wk
    proof -
      have "wk_local wk = {#}" "wk_inbox_count wk = size (wk_waiting wk)"
        using d True that wk [OF that] by (simp_all add: tb_inv_alt wk_inv_alt)
      then show ?thesis by (simp add: nonempty_has_size)
    qed
    show ?thesis unfolding any_work_available_def c find_some_iff using g w True by auto
  next
    case False
    have w: "List.find (\<lambda>p. \<not> empty_hint (wk_queues wk ! p)) [0..<kPriorityCount] \<noteq> None \<longleftrightarrow>
        wk_local wk + wk_waiting wk \<noteq> {#}" if "wk \<in> set (tb_workers d)" for wk
    proof -
      have "wk_waiting wk = {#}" using d False that by (simp add: tb_inv_alt)
      then show ?thesis using wk_local_nonempty [OF wk [OF that]] by simp
    qed
    show ?thesis unfolding any_work_available_def c find_some_iff [of _ "tb_workers d"] using g w False by auto
  qed
qed

lemma park_begin_result:
  "park_begin i d = (d', sleeps) \<Longrightarrow> sleeps \<longleftrightarrow> tb_running d \<and> \<not> any_work_available d"
  "park_begin i d = (d', True) \<Longrightarrow> tb_sleeping d' = tb_sleeping d + 1"
  "park_begin i d = (d', False) \<Longrightarrow> d' = d"
  by (auto simp: park_begin_def Let_def any_work_available_def upd_worker_def split: if_splits)

section \<open>The victim generator\<close>

lemma xor_zero_eq:
  assumes "x XOR y = (0 :: u64)"
  shows "x = y"
proof -
  have "x XOR (x XOR y) = y" by (simp flip: xor.assoc)
  then show ?thesis using assms by simp
qed

lemma push_xor_zero:
  fixes x :: u64
  assumes "x XOR push_bit k x = 0" "0 < k"
  shows "x = 0"
proof -
  have e: "x = push_bit k x" using assms(1) by (rule xor_zero_eq)
  have "\<not> bit x n" for n
  proof (induction n rule: less_induct)
    case (less n)
    have "bit x n \<Longrightarrow> k \<le> n \<and> bit x (n - k)"
      using e by (metis bit_push_bit_iff)
    then show ?case using less [of "n - k"] assms(2) by fastforce
  qed
  then show ?thesis by (simp add: bit_eq_iff)
qed

lemma drop_xor_zero:
  fixes x :: u64
  assumes "x XOR drop_bit k x = 0" "0 < k"
  shows "x = 0"
proof -
  have e: "x = drop_bit k x" using assms(1) by (rule xor_zero_eq)
  have "\<not> bit x n" for n
  proof (induction "64 - n" arbitrary: n rule: less_induct)
    case less
    show ?case
    proof
      assume b: "bit x n"
      then have n: "n < 64" using bit_imp_le_length [of x n] by simp
      have "bit x (k + n)" using e b by (metis bit_drop_bit_eq comp_apply)
      then show False using less [of "k + n"] n assms(2) by simp
    qed
  qed
  then show ?thesis by (simp add: bit_eq_iff)
qed

lemma xorshift64_nonzero: "xorshift64 x = 0 \<longleftrightarrow> x = 0"
proof
  assume z: "xorshift64 x = 0"
  let ?s1 = "x XOR push_bit 13 x"
  let ?s2 = "?s1 XOR drop_bit 7 ?s1"
  have "?s2 XOR push_bit 17 ?s2 = 0" using z by (simp add: xorshift64_def Let_def)
  then have "?s2 = 0" by (rule push_xor_zero) simp
  then have "?s1 = 0" by (rule drop_xor_zero) simp
  then show "x = 0" by (rule push_xor_zero) simp
qed (simp add: xorshift64_def)

lemma seed_nonzero:
  assumes "i < 2 ^ 32"
  shows "(0x9E3779B97F4A7C15 :: u64) * (of_nat i + 1) \<noteq> 0"
proof
  assume z: "(0x9E3779B97F4A7C15 :: u64) * (of_nat i + 1) = 0"
  have inv: "(0xF1DE83E19937733D :: u64) * 0x9E3779B97F4A7C15 = 1" by simp
  have "(0xF1DE83E19937733D :: u64) * (0x9E3779B97F4A7C15 * (of_nat i + 1)) = of_nat i + 1"
    by (simp only: mult.assoc [symmetric] inv) simp
  then have "of_nat i + 1 = (0 :: u64)" using z by (metis mult_zero_right)
  then have "(of_nat (Suc i) :: u64) = 0" by (simp add: add.commute)
  then have "unat (of_nat (Suc i) :: u64) = 0" by simp
  moreover have "unat (of_nat (Suc i) :: u64) = Suc i"
    using assms by (simp add: unat_of_nat take_bit_nat_eq_self del: of_nat_Suc)
  ultimately show False by simp
qed

section \<open>A new runtime\<close>

lemma tb_new_total: "tb_new config n \<noteq> None"
proof -
  have "unat (ucast (deque_capacity config) :: u64) \<le> 2 ^ 63"
  proof -
    have "unat (deque_capacity config) < 2 ^ LENGTH(32)" by (rule unsigned_less)
    then show ?thesis by (simp add: unsigned_ucast_eq take_bit_nat_eq_self)
  qed
  then have "unat (if deque_capacity config > 0 then ucast (deque_capacity config) else 1024 :: u64) \<le> 2 ^ 63"
    by simp
  from abp_new_wf [OF this, of invalid_handle] show ?thesis by (auto simp: tb_new_def Let_def)
qed

lemma tb_new_inv:
  assumes "tb_new config n = Some d" "0 < n" "n \<le> 2 ^ 31"
  shows "tb_inv d" "tb_content d = {#}" "tb_mode d = scheduler config" "tb_worker_count d = n"
    "length (tb_workers d) = unat n" "tb_sleeping d = 0" "tb_notified d = 0" "tb_running d"
proof -
  let ?cap = "if deque_capacity config > 0 then ucast (deque_capacity config) else 1024 :: u64"
  obtain q where q: "abp_new invalid_handle ?cap = Some q" and d: "d =
      \<lparr>tb_mode = scheduler config, tb_skip_empty = opt_set config kOptSkipEmptyDeques,
       tb_worker_count = n, tb_workers = map (worker_new q) [0..<unat n], tb_global = gq_new,
       tb_local_overflows = 0, tb_submissions_local = 0, tb_submissions_global = 0,
       tb_static_cursor = 0, tb_sleeping = 0, tb_running = True, tb_notified = 0\<rparr>"
    using assms(1) by (auto simp: tb_new_def Let_def)
  have "unat (deque_capacity config) < 2 ^ LENGTH(32)" by (rule unsigned_less)
  then have "unat ?cap \<le> 2 ^ 63" by (simp add: unsigned_ucast_eq take_bit_nat_eq_self)
  from abp_new_wf [OF this, of invalid_handle] have wf: "dq_inv q" "dq_content q = []" using q by auto
  have l: "wk_local (worker_new q i) = {#}" "wk_waiting (worker_new q i) = {#}" for i
    using wf(2) by (simp_all add: worker_new_def wk_local_def wk_waiting_def)
  have w: "wk_inv (worker_new q i)" for i
    unfolding wk_inv_alt l using wf(1) by (simp add: worker_new_def)
  show "tb_inv d"
    using assms(2,3) w l unfolding tb_inv_alt d
    by (auto simp: gq_inv_def gq_content_def kPriorityCount_def)
  show "tb_content d = {#}"
    unfolding tb_content_alt d by (simp add: gq_content_def sum_list_mset_empty l)
qed (use assms(1) in \<open>auto simp: tb_new_def Let_def\<close>)

lemma wake_one_notified: "tb_notified (wake_one_worker d) = tb_notified d + (if tb_sleeping d = 0 then 0 else 1)"
  by (simp add: wake_one_worker_def)

lemma tb_enqueue_notified:
  "tb_notified (tb_enqueue_ready c h p d) = tb_notified d + (if tb_sleeping d = 0 then 0 else 1)"
proof (cases "tb_mode d = Static")
  case True
  then show ?thesis by (simp add: tb_enqueue_ready_def Let_def wake_one_notified upd_worker_def)
next
  case False
  show ?thesis
  proof (cases c)
    case None
    then show ?thesis using False by (simp add: tb_enqueue_ready_def Let_def wake_one_notified)
  next
    case (Some i)
    obtain wk ok where w: "wk_push (prio_index p) h (tb_workers d ! unat i) = (wk, ok)" by force
    show ?thesis
      by (cases ok) (use False Some w in \<open>simp_all add: tb_enqueue_ready_def Let_def wake_one_notified upd_worker_def\<close>)
  qed
qed

lemma park_begin_kept:
  assumes d: "tb_inv d" and i: "i < length (tb_workers d)" and r: "park_begin i d = (d', sleeps)"
  shows "tb_inv d'" "tb_content d' = tb_content d" "length (tb_workers d') = length (tb_workers d)"
proof -
  let ?d1 = "d\<lparr>tb_sleeping := tb_sleeping d + 1\<rparr>"
  have "took ?d1 (upd_worker i ((tb_workers ?d1 ! i)\<lparr>wk_parks := wk_parks (tb_workers d ! i) + 1\<rparr>) ?d1) invalid_handle"
    using i by (intro counter_step) (simp_all add: d tb_frame wk_set_counters wk_frame)
  then have "tb_inv d' \<and> tb_content d' = tb_content d \<and> length (tb_workers d') = length (tb_workers d)"
    using r d by (auto simp: park_begin_def Let_def any_work_available_def took_def tb_frame upd_worker_def split: if_splits)
  then show "tb_inv d'" "tb_content d' = tb_content d" "length (tb_workers d') = length (tb_workers d)" by blast+
qed

end
