(* ===== verification/Thunderbolt_Props.thy ===== *)
theory Thunderbolt_Props
  imports Thunderbolt_Correct
begin

text \<open>What the work distribution of \<open>ThunderboltRuntime\<close> guarantees, one theorem per guarantee.\<close>

section \<open>Witness states\<close>

definition demo_config :: "SchedulerMode \<Rightarrow> RuntimeConfig" where
  "demo_config mode = default_config\<lparr>worker_count := 2, scheduler := mode\<rparr>"

definition demo_tb :: "SchedulerMode \<Rightarrow> tb_state" where
  "demo_tb mode = (case tb_new (demo_config mode) 2 of None \<Rightarrow> undefined | Some d \<Rightarrow> d)"

definition demo_handle :: TaskHandle where
  "demo_handle = \<lparr>hindex = 7, hgeneration = 3\<rparr>"

lemma demo_handle_valid [simp]: "handle_valid demo_handle"
  by (simp add: demo_handle_def handle_valid_def kInvalidIndex_def)

lemma demo_tb_facts:
  "tb_inv (demo_tb mode)" "tb_content (demo_tb mode) = {#}" "tb_mode (demo_tb mode) = mode"
  "length (tb_workers (demo_tb mode)) = 2" "tb_sleeping (demo_tb mode) = 0"
  "tb_notified (demo_tb mode) = 0" "tb_running (demo_tb mode)" "tb_caller (demo_tb mode) None"
proof -
  obtain d where d: "tb_new (demo_config mode) 2 = Some d" using tb_new_total by blast
  then have e: "demo_tb mode = d" by (simp add: demo_tb_def)
  note f = tb_new_inv [OF d]
  have "scheduler (demo_config mode) = mode" by (simp add: demo_config_def)
  then show "tb_inv (demo_tb mode)" "tb_content (demo_tb mode) = {#}" "tb_mode (demo_tb mode) = mode"
    "length (tb_workers (demo_tb mode)) = 2" "tb_sleeping (demo_tb mode) = 0"
    "tb_notified (demo_tb mode) = 0" "tb_running (demo_tb mode)" "tb_caller (demo_tb mode) None"
    using f by (simp_all add: e tb_caller_def word_le_nat_alt)
qed

text \<open>A runtime that holds one handle.\<close>

definition demo_busy :: "SchedulerMode \<Rightarrow> tb_state" where
  "demo_busy mode = tb_enqueue_ready None demo_handle High (demo_tb mode)"

lemma demo_busy_facts:
  "tb_inv (demo_busy mode)" "tb_content (demo_busy mode) = {#demo_handle#}"
  "tb_mode (demo_busy mode) = mode" "length (tb_workers (demo_busy mode)) = 2"
proof -
  show "tb_inv (demo_busy mode)" "tb_content (demo_busy mode) = {#demo_handle#}"
    using tb_enqueue_inv [OF demo_tb_facts(1) demo_tb_facts(8) demo_handle_valid, of High mode] demo_tb_facts(2)
    by (simp_all add: demo_busy_def)
  show "tb_mode (demo_busy mode) = mode"
    using demo_tb_facts(3) [of mode]
    by (auto simp: demo_busy_def tb_enqueue_ready_def Let_def wake_one_worker_def upd_worker_def)
  show "length (tb_workers (demo_busy mode)) = 2"
    by (simp add: demo_busy_def tb_enqueue_shape demo_tb_facts)
qed

section \<open>Properties\<close>

text \<open>
  C7. A search for work is exact: \<open>acquire_next\<close> of a worker removes from the dispatcher (deques,
  injection queue, inboxes) exactly the handle it returns, keeps every structure well-formed, and,
  unless the schedule is static, comes back empty-handed only if nothing is queued anywhere; with a
  static schedule only if the worker's own inbox is empty.
\<close>

theorem acquire_next_exact:
  assumes "tb_inv d" "i < length (tb_workers d)" "acquire_next i d = (d', h)"
  shows "tb_inv d' \<and> tb_content d = tb_content d' + (if handle_valid h then {#h#} else {#}) \<and>
    (tb_mode d \<noteq> Static \<longrightarrow> (handle_valid h \<longleftrightarrow> tb_content d \<noteq> {#})) \<and>
    (tb_mode d = Static \<longrightarrow> (handle_valid h \<longleftrightarrow> concat (wk_inbox (tb_workers d ! i)) \<noteq> []))"
proof (cases "tb_mode d = Static")
  case True
  note s = static_acquire_took [OF assms True]
  then show ?thesis using True by (simp add: took_def handles_of_def wk_waiting_def del: concat_eq_Nil_conv)
next
  case False
  then show ?thesis using acquire_next_took [OF assms False] by (auto simp: took_def handles_of_def)
qed

theorem acquire_next_exact_witness:
  "fst (acquire_next 1 (demo_busy WorkStealing)) \<noteq> demo_busy WorkStealing \<and>
   snd (acquire_next 1 (demo_busy WorkStealing)) = demo_handle \<and>
   tb_content (fst (acquire_next 1 (demo_busy WorkStealing))) = {#}"
proof -
  let ?d = "demo_busy WorkStealing"
  have "acquire_next 1 ?d = (fst (acquire_next 1 ?d), snd (acquire_next 1 ?d))" by simp
  from acquire_next_exact [OF demo_busy_facts(1) _ this] demo_busy_facts [of WorkStealing]
  have "{#demo_handle#} = tb_content (fst (acquire_next 1 ?d)) + {#snd (acquire_next 1 ?d)#}" by auto
  then have "snd (acquire_next 1 ?d) = demo_handle" "tb_content (fst (acquire_next 1 ?d)) = {#}"
    by (auto simp: single_is_union)
  then show ?thesis using demo_busy_facts(2) [of WorkStealing] by auto
qed



text \<open>
  \<open>any_work_available\<close>, the check before parking, is exact: it is true precisely when some
  handle is queued somewhere, although it reads only counters and size hints.
\<close>

theorem any_work_available_exact:
  assumes "tb_inv d"
  shows "any_work_available d \<longleftrightarrow> tb_content d \<noteq> {#}"
  by (rule any_work_iff [OF assms])

theorem any_work_available_exact_witness:
  "any_work_available (demo_busy Static) \<and> \<not> any_work_available (demo_tb Static)"
  using any_work_available_exact [OF demo_busy_facts(1) [of Static]]
    any_work_available_exact [OF demo_tb_facts(1) [of Static]]
    demo_busy_facts(2) [of Static] demo_tb_facts(2) [of Static] by simp



text \<open>
  The aging bound: of any \<open>kAgingInterval\<close> consecutive pops of a worker, exactly one scans the
  priorities from the lowest, also across the wrap-around of the 64-bit pop counter.
\<close>

theorem aging_share:
  "\<exists>!k. k < unat kAgingInterval \<and> aging_pop_favours_lowest PriorityAging (n + of_nat k)"
proof -
  have e: "aging_pop_favours_lowest PriorityAging (n + of_nat k) \<longleftrightarrow> (unat n + k) mod 8 = 7" if "k < 8" for k
  proof -
    have k: "unat (of_nat k :: u64) = k" using that by (simp add: unat_of_nat take_bit_nat_eq_self)
    have "unat ((n + of_nat k) mod 8) = (unat n + k) mod 2 ^ 64 mod 8"
      by (simp add: unat_mod unat_word_ariths k)
    also have "\<dots> = (unat n + k) mod 8" by (simp add: mod_mod_cancel)
    finally show ?thesis
      by (simp add: aging_pop_favours_lowest_def kAgingInterval_def word_unat_eq_iff)
  qed
  have "\<exists>!k. k < 8 \<and> (unat n + k) mod 8 = (7 :: nat)"
  proof -
    have m: "(unat n + k) mod 8 = 7 \<longleftrightarrow> k = 7 - unat n mod 8" if "k < 8" for k
    proof -
      have "(unat n + k) mod 8 = (unat n mod 8 + k) mod 8" by (simp add: mod_add_left_eq)
      also have "\<dots> = (if unat n mod 8 + k < 8 then unat n mod 8 + k else unat n mod 8 + k - 8)"
        using that by (simp add: le_mod_geq)
      finally show ?thesis using that by auto
    qed
    have "7 - unat n mod 8 < 8" by simp
    then show ?thesis using m by (intro ex1I [of _ "7 - unat n mod 8"]) blast+
  qed
  then have "\<exists>!k. k < 8 \<and> aging_pop_favours_lowest PriorityAging (n + of_nat k)" using e by metis
  then show ?thesis by (simp add: kAgingInterval_def)
qed

end
