(* ===== verification/Task_Slot.thy ===== *)
theory Task_Slot
  imports Api_Types
begin

text \<open>
  \<open>core/task/Task.hpp\<close>: one pooled task slot and its successor list. Every method of the
  successor list runs under the slot's spin flag, so each is one atomic step; the list keeps six
  successors in place and spills the rest to a vector.
\<close>

definition kInlineSuccessors :: nat where
  "kInlineSuccessors = 6"

record 'b task =
  t_function :: "'b option"
  t_generation :: u32
  t_state :: TaskState
  t_pending :: u32
  t_priority :: TaskPriority
  t_flags :: u32
  t_cost :: u32
  t_closed :: bool
  t_count :: nat
  t_inline :: "TaskHandle list"
  t_spilled :: "TaskHandle list"

text \<open>\<open>Task()\<close>, with the default member initialisers.\<close>

definition task_new :: "'b task" where
  "task_new =
     \<lparr>t_function = None, t_generation = 0, t_state = Free, t_pending = 0, t_priority = Normal,
      t_flags = 0, t_cost = 0, t_closed = False, t_count = 0,
      t_inline = replicate kInlineSuccessors invalid_handle, t_spilled = []\<rparr>"

definition try_add_successor :: "TaskHandle \<Rightarrow> u32 \<Rightarrow> 'b task \<Rightarrow> 'b task \<times> bool" where
  "try_add_successor successor expected_generation t =
     (let usable = (\<not> t_closed t \<and> t_generation t = expected_generation) in
      if usable then
        ((if t_count t < kInlineSuccessors
          then t\<lparr>t_inline := (t_inline t)[t_count t := successor], t_count := t_count t + 1\<rparr>
          else t\<lparr>t_spilled := t_spilled t @ [successor], t_count := t_count t + 1\<rparr>), True)
      else (t, False))"

definition take_successors :: "'b task \<Rightarrow> 'b task \<times> TaskHandle list" where
  "take_successors t =
     (let inline_count = (if t_count t < kInlineSuccessors then t_count t else kInlineSuccessors);
          out = map (\<lambda>i. t_inline t ! i) [0..<inline_count] @ t_spilled t
      in (t\<lparr>t_closed := True, t_spilled := [], t_count := 0\<rparr>, out))"

definition reset_successors :: "'b task \<Rightarrow> 'b task" where
  "reset_successors t = t\<lparr>t_closed := True, t_count := 0, t_spilled := []\<rparr>"

definition open_successors :: "'b task \<Rightarrow> 'b task" where
  "open_successors t = t\<lparr>t_closed := False, t_count := 0, t_spilled := []\<rparr>"

definition successors_spilled :: "'b task \<Rightarrow> bool" where
  "successors_spilled t \<longleftrightarrow> t_spilled t \<noteq> [] \<or> t_count t > kInlineSuccessors"

section \<open>The list a slot holds\<close>

definition task_inv :: "'b task \<Rightarrow> bool" where
  "task_inv t \<longleftrightarrow> length (t_inline t) = kInlineSuccessors \<and>
     length (t_spilled t) = t_count t - kInlineSuccessors"

definition succs :: "'b task \<Rightarrow> TaskHandle list" where
  "succs t = take (t_count t) (t_inline t) @ t_spilled t"

lemma task_new_inv [simp]: "task_inv task_new" "succs task_new = []"
  by (simp_all add: task_inv_def succs_def task_new_def)

lemma reset_open_inv [simp]:
  "task_inv t \<Longrightarrow> task_inv (reset_successors t)" "task_inv t \<Longrightarrow> task_inv (open_successors t)"
  "succs (reset_successors t) = []" "succs (open_successors t) = []"
  by (simp_all add: task_inv_def succs_def reset_successors_def open_successors_def)

lemma try_add_refused:
  "t_closed t \<or> t_generation t \<noteq> g \<Longrightarrow> try_add_successor h g t = (t, False)"
  by (auto simp: try_add_successor_def Let_def)

lemma try_add_accepted:
  assumes "task_inv t" "\<not> t_closed t" "t_generation t = g"
  shows "snd (try_add_successor h g t)" "succs (fst (try_add_successor h g t)) = succs t @ [h]"
    and "task_inv (fst (try_add_successor h g t))"
  using assms
  by (auto simp: try_add_successor_def Let_def task_inv_def succs_def take_Suc_conv_app_nth
      take_update_cancel)

lemma try_add_frame:
  "t_closed (fst (try_add_successor h g t)) = t_closed t"
  "t_generation (fst (try_add_successor h g t)) = t_generation t"
  "t_state (fst (try_add_successor h g t)) = t_state t"
  "t_pending (fst (try_add_successor h g t)) = t_pending t"
  "t_function (fst (try_add_successor h g t)) = t_function t"
  "t_priority (fst (try_add_successor h g t)) = t_priority t"
  by (simp_all add: try_add_successor_def Let_def)

lemma try_add_inv: "task_inv t \<Longrightarrow> task_inv (fst (try_add_successor h g t))"
  by (cases "t_closed t \<or> t_generation t \<noteq> g") (auto simp: try_add_refused try_add_accepted)

lemma take_successors_result:
  assumes "task_inv t"
  shows "snd (take_successors t) = succs t"
  using assms by (auto simp: take_successors_def Let_def task_inv_def succs_def map_nth_prefix)

lemma take_successors_after:
  "t_closed (fst (take_successors t))" "succs (fst (take_successors t)) = []"
  "task_inv t \<Longrightarrow> task_inv (fst (take_successors t))"
  by (simp_all add: take_successors_def Let_def task_inv_def succs_def)

lemma take_successors_frame:
  "t_generation (fst (take_successors t)) = t_generation t"
  "t_state (fst (take_successors t)) = t_state t"
  "t_pending (fst (take_successors t)) = t_pending t"
  "t_function (fst (take_successors t)) = t_function t"
  "t_priority (fst (take_successors t)) = t_priority t"
  by (simp_all add: take_successors_def Let_def)

lemma successors_spilled_iff:
  "task_inv t \<Longrightarrow> successors_spilled t \<longleftrightarrow> length (succs t) > kInlineSuccessors"
  by (cases "t_spilled t") (auto simp: successors_spilled_def task_inv_def succs_def)

section \<open>A sequence of calls\<close>

text \<open>
  What threads may do to one occupied slot: register successors, and (the completing thread)
  take them. \<open>RetAdd\<close> and \<open>RetTake\<close> are what the calls return, in the order of the spin lock.
\<close>

datatype slot_call = CallAdd TaskHandle u32 | CallTake

datatype slot_ret = RetAdd TaskHandle bool | RetTake "TaskHandle list"

primrec run_slot_calls :: "slot_call list \<Rightarrow> 'b task \<Rightarrow> slot_ret list" where
  "run_slot_calls [] t = []"
| "run_slot_calls (c # cs) t =
     (case c of
        CallAdd h g \<Rightarrow> (case try_add_successor h g t of (t', ok) \<Rightarrow> RetAdd h ok # run_slot_calls cs t')
      | CallTake \<Rightarrow> (case take_successors t of (t', out) \<Rightarrow> RetTake out # run_slot_calls cs t'))"

definition accepted :: "slot_ret list \<Rightarrow> TaskHandle list" where
  "accepted rs = concat (map (\<lambda>r. case r of RetAdd h True \<Rightarrow> [h] | _ \<Rightarrow> []) rs)"

definition handed_off :: "slot_ret list \<Rightarrow> TaskHandle list" where
  "handed_off rs = concat (map (\<lambda>r. case r of RetTake out \<Rightarrow> out | _ \<Rightarrow> []) rs)"

lemma accepted_simps [simp]:
  "accepted [] = []" "accepted (RetAdd h ok # rs) = (if ok then h # accepted rs else accepted rs)"
  "accepted (RetTake out # rs) = accepted rs"
  by (simp_all add: accepted_def)

lemma handed_off_simps [simp]:
  "handed_off [] = []" "handed_off (RetAdd h ok # rs) = handed_off rs"
  "handed_off (RetTake out # rs) = out @ handed_off rs"
  by (simp_all add: handed_off_def)

lemma run_slot_closed:
  "t_closed t \<Longrightarrow> task_inv t \<Longrightarrow> succs t = [] \<Longrightarrow>
   accepted (run_slot_calls cs t) = [] \<and> handed_off (run_slot_calls cs t) = []"
proof (induction cs arbitrary: t)
  case (Cons c cs)
  then show ?case
  proof (cases c)
    case (CallAdd h g)
    then show ?thesis using Cons by (simp add: try_add_refused)
  next
    case CallTake
    then show ?thesis
      using Cons.IH [of "fst (take_successors t)"] Cons.prems take_successors_after [of t]
        take_successors_result [of t]
      by (auto split: prod.split)
  qed
qed simp

lemma run_slot_hand_off:
  "task_inv t \<Longrightarrow> CallTake \<in> set cs \<Longrightarrow> \<not> t_closed t \<Longrightarrow>
   handed_off (run_slot_calls cs t) = succs t @ accepted (run_slot_calls cs t)"
proof (induction cs arbitrary: t)
  case (Cons c cs)
  show ?case
  proof (cases c)
    case (CallAdd h g)
    let ?t = "fst (try_add_successor h g t)"
    have IH: "handed_off (run_slot_calls cs ?t) = succs ?t @ accepted (run_slot_calls cs ?t)"
      using Cons.IH [of ?t] Cons.prems CallAdd by (simp add: try_add_inv try_add_frame)
    show ?thesis
    proof (cases "t_generation t = g")
      case True
      then show ?thesis
        using IH CallAdd Cons.prems try_add_accepted [of t g h] by (auto split: prod.split)
    next
      case False
      then have "try_add_successor h g t = (t, False)" by (simp add: try_add_refused)
      then show ?thesis using IH CallAdd by simp
    qed
  next
    case CallTake
    then show ?thesis
      using Cons.prems run_slot_closed [of "fst (take_successors t)" cs]
        take_successors_after [of t] take_successors_result [of t]
      by (auto split: prod.split)
  qed
qed simp

text \<open>
  C23. No dependency edge is lost or invented at a completing task: for every order in which
  registrations and the completing thread's take reach the slot, the handles handed off are
  exactly those whose registration was reported as accepted, in order of registration, also when
  they overflow the six in-place entries.
\<close>

theorem successor_hand_off:
  assumes "task_inv t" "CallTake \<in> set calls"
  shows "handed_off (run_slot_calls calls (open_successors t)) =
      accepted (run_slot_calls calls (open_successors t))"
  using run_slot_hand_off [of "open_successors t" calls] assms
  by (simp add: open_successors_def task_inv_def succs_def)

theorem successor_hand_off_witness:
  "handed_off (run_slot_calls (replicate 8 (CallAdd \<lparr>hindex = 3, hgeneration = 1\<rparr> 0)
       @ [CallAdd \<lparr>hindex = 4, hgeneration = 0\<rparr> 9, CallTake, CallAdd \<lparr>hindex = 5, hgeneration = 0\<rparr> 0])
       (open_successors (task_new :: nat task))) =
   replicate 8 \<lparr>hindex = 3, hgeneration = 1\<rparr>"
proof -
  have "accepted (run_slot_calls (replicate 8 (CallAdd \<lparr>hindex = 3, hgeneration = 1\<rparr> 0)
       @ [CallAdd \<lparr>hindex = 4, hgeneration = 0\<rparr> 9, CallTake, CallAdd \<lparr>hindex = 5, hgeneration = 0\<rparr> 0])
       (open_successors (task_new :: nat task))) = replicate 8 \<lparr>hindex = 3, hgeneration = 1\<rparr>"
    by code_simp
  then show ?thesis by (subst successor_hand_off) simp_all
qed

end
