(* ===== verification/Task_Pool.thy ===== *)
theory Task_Pool
  imports Task_Slot Sharded_Counter
begin

text \<open>
  \<open>core/task/TaskPool.hpp\<close> and \<open>.cpp\<close>: the fixed slab of task slots, its sixteen free-list
  shards, and the per-thread slot cache with the registry of live pools. Every public operation
  is one step of the thread that runs it: slots move between threads only under a shard mutex.
  A failed \<open>assert\<close> is \<open>None\<close>. Slot indices are \<open>nat\<close>; a handle carries them at their width.
  \<open>lock_counting\<close> counts contention, which a sequence of whole steps does not have.
\<close>

definition kShardCount :: nat where
  "kShardCount = kCounterShards"

definition kMaxBatch :: nat where
  "kMaxBatch = 64"

definition kMinCapacityForCache :: nat where
  "kMinCapacityForCache = 1024"

record 'b pool =
  p_capacity :: nat
  p_batch :: nat
  p_slots :: "'b task list"
  p_shards :: "nat list list"
  p_acquires :: sharded_counter
  p_releases :: sharded_counter
  p_misses :: sharded_counter

text \<open>\<open>TaskPool::ThreadCache\<close>: one per thread, bound to one pool at a time.\<close>

record tcache =
  tc_id :: u64
  tc_count :: nat
  tc_slots :: "nat list"

definition tcache_new :: tcache where
  "tcache_new = \<lparr>tc_id = 0, tc_count = 0, tc_slots = replicate (2 * kMaxBatch) 0\<rparr>"

text \<open>
  The pools of the process by their never-reused id, the registry of live cached pools,
  \<open>g_next_pool_id\<close>, and per thread its cache and its \<open>thread_slot()\<close>.
\<close>

record 'b pworld =
  w_pools :: "u64 \<rightharpoonup> 'b pool"
  w_registry :: "u64 set"
  w_next :: u64
  w_caches :: "tcache list"
  w_home :: "nat list"

definition set_pool :: "u64 \<Rightarrow> 'b pool \<Rightarrow> 'b pworld \<Rightarrow> 'b pworld" where
  "set_pool pid p w = w\<lparr>w_pools := (w_pools w)(pid \<mapsto> p)\<rparr>"

definition set_cache :: "nat \<Rightarrow> tcache \<Rightarrow> 'b pworld \<Rightarrow> 'b pworld" where
  "set_cache tid c w = w\<lparr>w_caches := (w_caches w)[tid := c]\<rparr>"

section \<open>Construction and destruction\<close>

definition pool_new_batch :: "nat \<Rightarrow> bool \<Rightarrow> nat" where
  "pool_new_batch capacity thread_cache =
     (if thread_cache \<and> capacity \<ge> kMinCapacityForCache
      then min kMaxBatch (capacity div (kShardCount * 4)) else 0)"

definition deal_slots :: "nat \<Rightarrow> nat list list" where
  "deal_slots capacity =
     fold (\<lambda>index shards. shards[index mod kShardCount := shards ! (index mod kShardCount) @ [index]])
       (rev [0..<capacity]) (replicate kShardCount [])"

definition pool_new :: "nat \<Rightarrow> bool \<Rightarrow> 'b pool" where
  "pool_new capacity thread_cache =
     \<lparr>p_capacity = capacity, p_batch = pool_new_batch capacity thread_cache,
      p_slots = replicate capacity task_new, p_shards = deal_slots capacity,
      p_acquires = sc_new, p_releases = sc_new, p_misses = sc_new\<rparr>"

definition construct_pool :: "nat \<Rightarrow> bool \<Rightarrow> 'b pworld \<Rightarrow> 'b pworld \<times> u64" where
  "construct_pool capacity thread_cache w =
     (let pid = w_next w; p = pool_new capacity thread_cache in
      (w\<lparr>w_pools := (w_pools w)(pid \<mapsto> p), w_next := pid + 1,
         w_registry := (if p_batch p \<noteq> 0 then insert pid (w_registry w) else w_registry w)\<rparr>, pid))"

definition destroy_pool :: "u64 \<Rightarrow> 'b pworld \<Rightarrow> 'b pworld" where
  "destroy_pool pid w = w\<lparr>w_pools := (w_pools w)(pid := None), w_registry := w_registry w - {pid}\<rparr>"

section \<open>The thread cache\<close>

definition drain_cache :: "nat \<Rightarrow> 'b pworld \<Rightarrow> 'b pworld" where
  "drain_cache tid w =
     (let c = w_caches w ! tid; home = w_home w ! tid;
          w1 = (if tc_count c \<noteq> 0 \<and> tc_id c \<in> w_registry w
                then (case w_pools w (tc_id c) of
                        None \<Rightarrow> w
                      | Some p \<Rightarrow> set_pool (tc_id c)
                          (p\<lparr>p_shards := (p_shards p)[home := p_shards p ! home @
                                map (\<lambda>i. tc_slots c ! i) [0..<tc_count c]]\<rparr>) w)
                else w)
      in set_cache tid (c\<lparr>tc_count := 0, tc_id := 0\<rparr>) w1)"

definition rebind_cache :: "nat \<Rightarrow> u64 \<Rightarrow> 'b pworld \<Rightarrow> 'b pworld" where
  "rebind_cache tid pid w =
     (let w1 = drain_cache tid w in set_cache tid ((w_caches w1 ! tid)\<lparr>tc_id := pid\<rparr>) w1)"

text \<open>The \<open>while\<close> of \<open>refill_cache\<close>: move slots from the back of a shard to the cache.\<close>

fun refill_loop :: "nat \<Rightarrow> tcache \<Rightarrow> nat list \<Rightarrow> tcache \<times> nat list" where
  "refill_loop batch c free_list =
     (if tc_count c < batch \<and> free_list \<noteq> []
      then refill_loop batch
             (c\<lparr>tc_slots := (tc_slots c)[tc_count c := last free_list], tc_count := tc_count c + 1\<rparr>)
             (butlast free_list)
      else (c, free_list))"

declare refill_loop.simps [simp del]

text \<open>The first non-empty shard, counting from the thread's own.\<close>

definition find_shard :: "'b pool \<Rightarrow> nat \<Rightarrow> nat option" where
  "find_shard p home =
     map_option (\<lambda>offset. (home + offset) mod kShardCount)
       (List.find (\<lambda>offset. p_shards p ! ((home + offset) mod kShardCount) \<noteq> []) [0..<kShardCount])"

definition count_miss :: "nat \<Rightarrow> 'b pool \<Rightarrow> 'b pool" where
  "count_miss home p =
     (if p_shards p ! (home mod kShardCount) = []
      then p\<lparr>p_misses := sc_increment home (p_misses p)\<rparr> else p)"

definition refill_cache :: "nat \<Rightarrow> 'b pool \<Rightarrow> tcache \<Rightarrow> 'b pool \<times> tcache" where
  "refill_cache home p c =
     (let p1 = count_miss home p in
      case find_shard p home of
        None \<Rightarrow> (p1, c)
      | Some s \<Rightarrow> (case refill_loop (p_batch p) c (p_shards p ! s) of
                    (c', rest) \<Rightarrow> (p1\<lparr>p_shards := (p_shards p)[s := rest]\<rparr>, c')))"

definition spill_cache :: "nat \<Rightarrow> 'b pool \<Rightarrow> tcache \<Rightarrow> 'b pool \<times> tcache" where
  "spill_cache home p c =
     (p\<lparr>p_shards := (p_shards p)[home := p_shards p ! home @ map (\<lambda>i. tc_slots c ! i) [0..<p_batch p]]\<rparr>,
      c\<lparr>tc_slots := fold (\<lambda>i slots. slots[i - p_batch p := slots ! i]) [p_batch p..<tc_count c] (tc_slots c),
        tc_count := tc_count c - p_batch p\<rparr>)"

definition take_free_slot :: "nat \<Rightarrow> u64 \<Rightarrow> 'b pworld \<Rightarrow> 'b pworld \<times> nat option" where
  "take_free_slot tid pid w =
     (case w_pools w pid of
        None \<Rightarrow> (w, None)
      | Some p \<Rightarrow>
          (let home = w_home w ! tid in
           if p_batch p \<noteq> 0 then
             (let w1 = (if tc_id (w_caches w ! tid) \<noteq> pid then rebind_cache tid pid w else w);
                  w2 = (if tc_count (w_caches w1 ! tid) = 0
                        then (case w_pools w1 pid of
                                None \<Rightarrow> w1
                              | Some p1 \<Rightarrow> (case refill_cache home p1 (w_caches w1 ! tid) of
                                  (p2, c2) \<Rightarrow> set_cache tid c2 (set_pool pid p2 w1)))
                        else w1);
                  c = w_caches w2 ! tid
              in if tc_count c = 0 then (w2, None)
                 else (set_cache tid (c\<lparr>tc_count := tc_count c - 1\<rparr>) w2,
                       Some (tc_slots c ! (tc_count c - 1))))
           else
             (let p1 = count_miss home p in
              case find_shard p home of
                None \<Rightarrow> (set_pool pid p1 w, None)
              | Some s \<Rightarrow>
                  (set_pool pid (p1\<lparr>p_shards := (p_shards p)[s := butlast (p_shards p ! s)]\<rparr>) w,
                   Some (last (p_shards p ! s))))))"

text \<open>The last part of \<open>release\<close>: the slot goes to the releasing thread's cache or shard.\<close>

definition give_slot :: "nat \<Rightarrow> u64 \<Rightarrow> nat \<Rightarrow> 'b pworld \<Rightarrow> 'b pworld" where
  "give_slot tid pid index w =
     (case w_pools w pid of
        None \<Rightarrow> w
      | Some p \<Rightarrow>
          (let home = w_home w ! tid in
           if p_batch p \<noteq> 0 then
             (let w1 = (if tc_id (w_caches w ! tid) \<noteq> pid then rebind_cache tid pid w else w);
                  w2 = (if tc_count (w_caches w1 ! tid) = 2 * p_batch p
                        then (case w_pools w1 pid of
                                None \<Rightarrow> w1
                              | Some p1 \<Rightarrow> (case spill_cache home p1 (w_caches w1 ! tid) of
                                  (p2, c2) \<Rightarrow> set_cache tid c2 (set_pool pid p2 w1)))
                        else w1);
                  c = w_caches w2 ! tid
              in set_cache tid
                   (c\<lparr>tc_slots := (tc_slots c)[tc_count c := index], tc_count := tc_count c + 1\<rparr>) w2)
           else
             set_pool pid (p\<lparr>p_shards := (p_shards p)[home := p_shards p ! home @ [index]]\<rparr>) w))"

section \<open>The public operations\<close>

definition upd_slot :: "nat \<Rightarrow> ('b task \<Rightarrow> 'b task) \<Rightarrow> 'b pool \<Rightarrow> 'b pool" where
  "upd_slot i f p = p\<lparr>p_slots := (p_slots p)[i := f (p_slots p ! i)]\<rparr>"

definition upd_pool :: "u64 \<Rightarrow> ('b pool \<Rightarrow> 'b pool) \<Rightarrow> 'b pworld \<Rightarrow> 'b pworld" where
  "upd_pool pid f w = w\<lparr>w_pools := (w_pools w)(pid := map_option f (w_pools w pid))\<rparr>"

definition slot_at :: "u64 \<Rightarrow> nat \<Rightarrow> 'b pworld \<Rightarrow> 'b task" where
  "slot_at pid i w = (case w_pools w pid of None \<Rightarrow> task_new | Some p \<Rightarrow> p_slots p ! i)"

definition acquire_init :: "'b TaskDesc \<Rightarrow> 'b task \<Rightarrow> 'b task" where
  "acquire_init desc t =
     (let t1 = open_successors
                 (t\<lparr>t_function := dfunction desc, t_priority := dpriority desc,
                    t_flags := dflags desc, t_cost := destimated_cost desc, t_pending := 0\<rparr>)
      in t1\<lparr>t_state := Created\<rparr>)"

definition reserve_init :: "TaskPriority \<Rightarrow> 'b task \<Rightarrow> 'b task" where
  "reserve_init priority t =
     open_successors (t\<lparr>t_priority := priority, t_flags := 0, t_cost := 0, t_pending := 0\<rparr>)"

definition release_reset :: "'b task \<Rightarrow> 'b task" where
  "release_reset t =
     (let t1 = t\<lparr>t_function := None\<rparr>;
          t2 = t1\<lparr>t_generation := t_generation t1 + 1\<rparr>
      in (reset_successors t2)\<lparr>t_state := Free\<rparr>)"

definition count_acquire :: "nat \<Rightarrow> 'b pool \<Rightarrow> 'b pool" where
  "count_acquire home p = p\<lparr>p_acquires := sc_increment home (p_acquires p)\<rparr>"

definition count_release :: "nat \<Rightarrow> 'b pool \<Rightarrow> 'b pool" where
  "count_release home p = p\<lparr>p_releases := sc_increment home (p_releases p)\<rparr>"

text \<open>What \<open>acquire\<close> and \<open>reserve\<close> share: \<open>init\<close> is the initialisation of the slot taken.\<close>

definition claim_slot ::
    "nat \<Rightarrow> u64 \<Rightarrow> ('b task \<Rightarrow> 'b task) \<Rightarrow> 'b pworld \<Rightarrow> ('b pworld \<times> TaskHandle) option" where
  "claim_slot tid pid init w =
     (case take_free_slot tid pid (upd_pool pid (count_acquire (w_home w ! tid)) w) of
        (w1, None) \<Rightarrow> Some (w1, invalid_handle)
      | (w1, Some index) \<Rightarrow>
          (if t_state (slot_at pid index w1) \<noteq> Free then None
           else Some (upd_pool pid (upd_slot index init) w1,
                      \<lparr>hindex = of_nat index, hgeneration = t_generation (slot_at pid index w1)\<rparr>)))"

definition acquire ::
    "nat \<Rightarrow> u64 \<Rightarrow> 'b TaskDesc \<Rightarrow> 'b pworld \<Rightarrow> ('b pworld \<times> TaskHandle) option" where
  "acquire tid pid desc w = claim_slot tid pid (acquire_init desc) w"

definition reserve ::
    "nat \<Rightarrow> u64 \<Rightarrow> TaskPriority \<Rightarrow> 'b pworld \<Rightarrow> ('b pworld \<times> TaskHandle) option" where
  "reserve tid pid priority w = claim_slot tid pid (reserve_init priority) w"

definition publish :: "u64 \<Rightarrow> nat \<Rightarrow> TaskState \<Rightarrow> 'b pworld \<Rightarrow> 'b pworld" where
  "publish pid index st w = upd_pool pid (upd_slot index (\<lambda>t. t\<lparr>t_state := st\<rparr>)) w"

definition release :: "nat \<Rightarrow> u64 \<Rightarrow> TaskHandle \<Rightarrow> 'b pworld \<Rightarrow> 'b pworld option" where
  "release tid pid h w =
     (case w_pools w pid of
        None \<Rightarrow> None
      | Some p \<Rightarrow>
          (let index = unat (hindex h) in
           if handle_valid h \<and> index < p_capacity p \<and> t_generation (p_slots p ! index) = hgeneration h
           then Some (give_slot tid pid index
                  (upd_pool pid (count_release (w_home w ! tid) \<circ> upd_slot index release_reset) w))
           else None))"

text \<open>\<open>get\<close>: the slot of a handle that is not stale.\<close>

definition get :: "TaskHandle \<Rightarrow> 'b pool \<Rightarrow> nat option" where
  "get h p =
     (if \<not> handle_valid h \<or> unat (hindex h) \<ge> p_capacity p then None
      else if t_generation (p_slots p ! unat (hindex h)) \<noteq> hgeneration h then None
      else Some (unat (hindex h)))"

definition slot_for_diagnostics :: "nat \<Rightarrow> 'b pool \<Rightarrow> 'b task option" where
  "slot_for_diagnostics index p =
     (if index < p_capacity p then Some (p_slots p ! index) else None)"

definition live_count :: "'b pool \<Rightarrow> nat" where
  "live_count p =
     (if p_batch p \<noteq> 0
      then fold (\<lambda>i live. if t_state (p_slots p ! i) \<noteq> Free then live + 1 else live)
             [0..<p_capacity p] 0
      else p_capacity p - fold (\<lambda>s total. total + length (p_shards p ! s)) [0..<kShardCount] 0)"

section \<open>The free slots of a pool\<close>

text \<open>
  A free slot is on a shard or hidden in the cache of some thread. \<open>free_mset\<close> collects both;
  the proofs track it through every operation.
\<close>

definition cached_for :: "u64 \<Rightarrow> tcache \<Rightarrow> nat list" where
  "cached_for pid c = (if tc_id c = pid then take (tc_count c) (tc_slots c) else [])"

definition free_mset :: "u64 \<Rightarrow> 'b pworld \<Rightarrow> nat multiset" where
  "free_mset pid w =
     (case w_pools w pid of
        None \<Rightarrow> {#}
      | Some p \<Rightarrow> mset (concat (p_shards p)) + mset (concat (map (cached_for pid) (w_caches w))))"

definition pool_shape :: "'b pool \<Rightarrow> bool" where
  "pool_shape p \<longleftrightarrow> length (p_slots p) = p_capacity p \<and> p_capacity p < 2 ^ 32 \<and>
     length (p_shards p) = kShardCount \<and> p_batch p \<le> kMaxBatch"

definition cache_shape :: "'b pworld \<Rightarrow> tcache \<Rightarrow> bool" where
  "cache_shape w c \<longleftrightarrow> length (tc_slots c) = 2 * kMaxBatch \<and> tc_count c \<le> 2 * kMaxBatch \<and>
     (tc_id c = 0 \<longrightarrow> tc_count c = 0) \<and> (tc_id c = 0 \<or> tc_id c < w_next w) \<and>
     (case w_pools w (tc_id c) of
        None \<Rightarrow> True
      | Some p \<Rightarrow> p_batch p \<noteq> 0 \<and> tc_count c \<le> 2 * p_batch p)"

definition shape_ok :: "'b pworld \<Rightarrow> bool" where
  "shape_ok w \<longleftrightarrow> length (w_home w) = length (w_caches w) \<and>
     (\<forall>h \<in> set (w_home w). h < kShardCount) \<and> (\<forall>q \<in> w_registry w. w_pools w q \<noteq> None) \<and>
     (\<forall>pid p. w_pools w pid = Some p \<longrightarrow>
        pool_shape p \<and> (pid \<in> w_registry w \<longleftrightarrow> p_batch p \<noteq> 0) \<and> pid \<noteq> 0 \<and> pid < w_next w) \<and>
     (\<forall>c \<in> set (w_caches w). cache_shape w c)"

text \<open>What moving slots between shards and caches leaves alone.\<close>

definition core where
  "core w = (w_home w, w_registry w, w_next w, length (w_caches w),
     (\<lambda>pid. map_option (\<lambda>p. (p_capacity p, p_batch p, p_slots p)) (w_pools w pid)))"

definition moved :: "'b pworld \<Rightarrow> 'b pworld \<Rightarrow> bool" where
  "moved w w' \<longleftrightarrow> core w' = core w \<and> shape_ok w' \<and> (\<forall>pid. free_mset pid w' = free_mset pid w)"

lemma moved_refl: "shape_ok w \<Longrightarrow> moved w w"
  by (simp add: moved_def)

lemma moved_trans: "moved w w1 \<Longrightarrow> moved w1 w2 \<Longrightarrow> moved w w2"
  by (simp add: moved_def)

lemma core_pool:
  "core w' = core w \<Longrightarrow> w_pools w pid = Some p \<Longrightarrow>
   \<exists>p'. w_pools w' pid = Some p' \<and> p_capacity p' = p_capacity p \<and> p_batch p' = p_batch p \<and>
     p_slots p' = p_slots p"
  by (auto simp: core_def dest!: fun_cong [where x = pid])

lemma core_none: "core w' = core w \<Longrightarrow> w_pools w pid = None \<longleftrightarrow> w_pools w' pid = None"
  by (auto simp: core_def dest!: fun_cong [where x = pid])

lemma core_basics:
  "core w' = core w \<Longrightarrow> w_home w' = w_home w \<and> w_registry w' = w_registry w \<and>
     w_next w' = w_next w \<and> length (w_caches w') = length (w_caches w)"
  by (simp add: core_def)

lemma core_slot_at: "core w' = core w \<Longrightarrow> slot_at pid i w' = slot_at pid i w"
  using core_pool [of w' w pid] core_none [of w' w pid]
  by (cases "w_pools w pid") (auto simp: slot_at_def)

lemma shape_home: "shape_ok w \<Longrightarrow> tid < length (w_caches w) \<Longrightarrow> w_home w ! tid < kShardCount"
  by (simp add: shape_ok_def)

lemma shape_pool: "shape_ok w \<Longrightarrow> w_pools w pid = Some p \<Longrightarrow> pool_shape p"
  by (simp add: shape_ok_def)

lemma shape_cache: "shape_ok w \<Longrightarrow> tid < length (w_caches w) \<Longrightarrow> cache_shape w (w_caches w ! tid)"
  by (simp add: shape_ok_def)

lemma shape_no_pool_0: "shape_ok w \<Longrightarrow> w_pools w 0 = None"
  by (metis shape_ok_def option.exhaust)

lemma core_set_cache [simp]: "core (set_cache tid c w) = core w"
  by (simp add: core_def set_cache_def)

lemma core_set_pool:
  "w_pools w pid = Some p \<Longrightarrow> p_capacity p' = p_capacity p \<Longrightarrow> p_batch p' = p_batch p \<Longrightarrow>
   p_slots p' = p_slots p \<Longrightarrow> core (set_pool pid p' w) = core w"
  by (auto simp: core_def set_pool_def)

lemma set_cache_sel [simp]:
  "w_pools (set_cache tid c w) = w_pools w" "w_home (set_cache tid c w) = w_home w"
  "w_caches (set_cache tid c w) = (w_caches w)[tid := c]"
  "w_registry (set_cache tid c w) = w_registry w" "w_next (set_cache tid c w) = w_next w"
  by (simp_all add: set_cache_def)

lemma set_pool_sel [simp]:
  "w_pools (set_pool pid p w) = (w_pools w)(pid \<mapsto> p)" "w_home (set_pool pid p w) = w_home w"
  "w_caches (set_pool pid p w) = w_caches w"
  "w_registry (set_pool pid p w) = w_registry w" "w_next (set_pool pid p w) = w_next w"
  by (simp_all add: set_pool_def)

lemma shape_set_cache:
  assumes "shape_ok w" "cache_shape w c"
  shows "shape_ok (set_cache tid c w)"
proof -
  have "cache_shape (set_cache tid c w) c' = cache_shape w c'" for c'
    by (simp add: cache_shape_def)
  then show ?thesis
    using assms set_update_subset_insert [of "w_caches w" tid c] by (auto simp: shape_ok_def)
qed

lemma shape_set_pool:
  assumes "shape_ok w" "w_pools w pid = Some p" "pool_shape p'" "p_batch p' = p_batch p"
  shows "shape_ok (set_pool pid p' w)"
proof -
  have "cache_shape (set_pool pid p' w) c = cache_shape w c" for c
    using assms by (simp add: cache_shape_def)
  then show ?thesis using assms by (auto simp: shape_ok_def)
qed

lemma free_set_cache:
  assumes "tid < length (w_caches w)" "w_pools w pid = Some p"
  shows "free_mset pid (set_cache tid c w) + mset (cached_for pid (w_caches w ! tid)) =
    free_mset pid w + mset (cached_for pid c)"
  using mset_concat_update [of tid "map (cached_for pid) (w_caches w)" "cached_for pid c"] assms
  by (simp add: free_mset_def map_update)

lemma free_set_pool:
  assumes "w_pools w pid = Some p"
  shows "free_mset pid (set_pool pid p' w) + mset (concat (p_shards p)) =
    free_mset pid w + mset (concat (p_shards p'))"
  using assms by (simp add: free_mset_def)

lemma free_set_pool_other: "q \<noteq> pid \<Longrightarrow> free_mset q (set_pool pid p' w) = free_mset q w"
  by (simp add: free_mset_def split: option.split)

lemma free_none: "w_pools w pid = None \<Longrightarrow> free_mset pid w = {#}"
  by (simp add: free_mset_def)

section \<open>Draining, refilling and spilling move slots, and nothing else\<close>

lemma cached_mapped: "length (tc_slots c) = 2 * kMaxBatch \<Longrightarrow> n \<le> 2 * kMaxBatch \<Longrightarrow>
   map (\<lambda>i. tc_slots c ! i) [0..<n] = take n (tc_slots c)"
  by (simp add: map_nth_prefix)

lemma mset_swap: "A + x = B + y \<Longrightarrow> y = x \<Longrightarrow> (A :: 'a multiset) = B"
  by simp

lemma mset_last_butlast: "xs \<noteq> [] \<Longrightarrow> mset xs = add_mset (last xs) (mset (butlast xs))"
  by (metis add_mset_add_single append_butlast_last_id mset_append mset_single_iff_right mset.simps)

lemma mset_exchange:
  assumes "A' + s = A + r" "B' + r = B + s"
  shows "A' + B' = A + (B :: 'a multiset)"
proof -
  have "A' + B' + (s + r) = (A' + s) + (B' + r)" by (simp add: ac_simps)
  also have "\<dots> = A + B + (s + r)" unfolding assms by (simp add: ac_simps)
  finally show ?thesis by simp
qed

lemma mset_swap2:
  assumes "F + c = F1 + c'" "F1 + s = F0 + s'" "s' + c' = s + c"
  shows "(F :: 'a multiset) = F0"
proof -
  have "F + (c + s) = F1 + s + c'" using assms(1) by (metis add.assoc add.commute)
  also have "\<dots> = F0 + (s' + c')" using assms(2) by (simp add: add.assoc)
  also have "\<dots> = F0 + (c + s)" using assms(3) by (simp add: add.commute)
  finally show ?thesis by simp
qed

text \<open>
  A step that replaces one pool's shards and the cache of thread \<open>tid\<close>, with the same slots in
  the two together.
\<close>

lemma moved_pool_cache:
  assumes "shape_ok w" "tid < length (w_caches w)" "w_pools w pid = Some p"
    and "pool_shape p'" "p_capacity p' = p_capacity p" "p_batch p' = p_batch p" "p_slots p' = p_slots p"
    and "cache_shape w c'"
    and "mset (concat (p_shards p')) + mset (cached_for pid c') =
         mset (concat (p_shards p)) + mset (cached_for pid (w_caches w ! tid))"
    and other: "\<And>q. q \<noteq> pid \<Longrightarrow> q \<in> dom (w_pools w) \<Longrightarrow>
         mset (cached_for q c') = mset (cached_for q (w_caches w ! tid))"
  shows "moved w (set_cache tid c' (set_pool pid p' w))"
proof -
  let ?w = "set_pool pid p' w"
  have s1: "shape_ok ?w" using assms by (intro shape_set_pool)
  moreover have "cache_shape ?w c'" using assms by (auto simp: cache_shape_def split: option.splits)
  ultimately have "shape_ok (set_cache tid c' ?w)" by (rule shape_set_cache)
  moreover have "free_mset q (set_cache tid c' ?w) = free_mset q w" for q
  proof (cases "q = pid")
    case True
    have "free_mset pid (set_cache tid c' ?w) + mset (cached_for pid (w_caches w ! tid)) =
        free_mset pid ?w + mset (cached_for pid c')"
      using free_set_cache [of tid ?w pid p' c'] assms(2) by simp
    then have "free_mset pid (set_cache tid c' ?w) = free_mset pid w"
      by (rule mset_swap2 [OF _ free_set_pool [OF assms(3)] assms(9)])
    then show ?thesis using True by simp
  next
    case False
    show ?thesis
    proof (cases "w_pools w q")
      case None
      then show ?thesis using False by (simp add: free_none)
    next
      case (Some r)
      then have "free_mset q (set_cache tid c' ?w) + mset (cached_for q (w_caches w ! tid)) =
          free_mset q w + mset (cached_for q c')"
        using free_set_cache [of tid ?w q r c'] assms(2) False
        by (simp add: free_set_pool_other)
      then show ?thesis by (rule mset_swap) (use other [OF False] Some in auto)
    qed
  qed
  ultimately show ?thesis
    using assms by (simp add: moved_def core_set_pool)
qed

lemma concat_shard_append:
  "s < length xss \<Longrightarrow> mset (concat (xss[s := xss ! s @ ys])) = mset (concat xss) + mset ys"
  using mset_concat_update [of s xss "xss ! s @ ys"] by simp

lemma moved_cache:
  assumes "shape_ok w" "tid < length (w_caches w)" "cache_shape w c'"
    and "\<And>q. q \<in> dom (w_pools w) \<Longrightarrow>
         mset (cached_for q c') = mset (cached_for q (w_caches w ! tid))"
  shows "moved w (set_cache tid c' w)"
proof -
  have "free_mset q (set_cache tid c' w) = free_mset q w" for q
  proof (cases "w_pools w q")
    case (Some r)
    show ?thesis by (rule mset_swap [OF free_set_cache [OF assms(2) Some]]) (use assms(4) Some in auto)
  qed (simp add: free_none)
  then show ?thesis using assms by (simp add: moved_def shape_set_cache)
qed

lemma drain_cache_moved:
  assumes "shape_ok w" "tid < length (w_caches w)"
  shows "moved w (drain_cache tid w)" "tc_count (w_caches (drain_cache tid w) ! tid) = 0"
proof -
  let ?c = "w_caches w ! tid"
  let ?home = "w_home w ! tid"
  let ?empty = "?c\<lparr>tc_count := 0, tc_id := 0\<rparr>"
  have c: "cache_shape w ?c" by (rule shape_cache [OF assms])
  have c0: "cache_shape w ?empty"
    using c shape_no_pool_0 [OF assms(1)] by (simp add: cache_shape_def)
  show "moved w (drain_cache tid w)"
  proof (cases "tc_count ?c \<noteq> 0 \<and> tc_id ?c \<in> w_registry w \<and> w_pools w (tc_id ?c) \<noteq> None")
    case True
    then obtain p where p: "w_pools w (tc_id ?c) = Some p" by blast
    let ?p = "p\<lparr>p_shards := (p_shards p)[?home := p_shards p ! ?home @
                 map (\<lambda>i. tc_slots ?c ! i) [0..<tc_count ?c]]\<rparr>"
    have ps: "pool_shape p" using shape_pool [OF assms(1) p] .
    have "moved w (set_cache tid ?empty (set_pool (tc_id ?c) ?p w))"
    proof (rule moved_pool_cache [OF assms p])
      show "cache_shape w ?empty" by (rule c0)
      show "mset (concat (p_shards ?p)) + mset (cached_for (tc_id ?c) ?empty) =
          mset (concat (p_shards p)) + mset (cached_for (tc_id ?c) ?c)"
        using ps c shape_home [OF assms]
        by (simp add: pool_shape_def cache_shape_def cached_for_def concat_shard_append cached_mapped)
    qed (use ps in \<open>auto simp: pool_shape_def cached_for_def\<close>)
    then show ?thesis using True p by (simp add: drain_cache_def Let_def)
  next
    case False
    have "mset (cached_for q ?empty) = mset (cached_for q ?c)" if q: "q \<in> dom (w_pools w)" for q
    proof (cases "tc_id ?c = q")
      case True
      then obtain p where p: "w_pools w (tc_id ?c) = Some p" using q by auto
      then have "p_batch p \<noteq> 0" using c by (simp add: cache_shape_def)
      then have "tc_id ?c \<in> w_registry w" using p assms(1) by (simp add: shape_ok_def)
      then have "tc_count ?c = 0" using False p by simp
      then show ?thesis by (simp add: cached_for_def)
    qed (auto simp: cached_for_def)
    then have "moved w (set_cache tid ?empty w)" by (intro moved_cache assms c0)
    moreover have "drain_cache tid w = set_cache tid ?empty w"
      using False by (auto simp: drain_cache_def Let_def)
    ultimately show ?thesis by simp
  qed
  show "tc_count (w_caches (drain_cache tid w) ! tid) = 0"
    using assms(2) by (auto simp: drain_cache_def Let_def split: option.split)
qed

lemma rebind_cache_moved:
  assumes "shape_ok w" "tid < length (w_caches w)" "w_pools w pid = Some p" "p_batch p \<noteq> 0"
  shows "moved w (rebind_cache tid pid w)" "tc_id (w_caches (rebind_cache tid pid w) ! tid) = pid"
    "tc_count (w_caches (rebind_cache tid pid w) ! tid) = 0"
proof -
  let ?w = "drain_cache tid w"
  let ?c = "(w_caches ?w ! tid)\<lparr>tc_id := pid\<rparr>"
  note d = drain_cache_moved [OF assms(1,2)]
  have s: "shape_ok ?w" "core ?w = core w" using d(1) by (auto simp: moved_def)
  have t: "tid < length (w_caches ?w)" using core_basics [OF s(2)] assms(2) by simp
  obtain p' where p': "w_pools ?w pid = Some p'" "p_batch p' = p_batch p"
    using core_pool [OF s(2) assms(3)] by auto
  have c: "cache_shape ?w (w_caches ?w ! tid)" by (rule shape_cache [OF s(1) t])
  have "pid < w_next ?w" using s(1) p' by (simp add: shape_ok_def)
  then have "cache_shape ?w ?c"
    using c d(2) p' assms(4) by (simp add: cache_shape_def)
  then have "moved ?w (set_cache tid ?c ?w)"
    by (intro moved_cache s t) (use d(2) in \<open>auto simp: cached_for_def\<close>)
  then show "moved w (rebind_cache tid pid w)"
    using d(1) by (auto simp: rebind_cache_def Let_def intro: moved_trans)
  show "tc_id (w_caches (rebind_cache tid pid w) ! tid) = pid"
    "tc_count (w_caches (rebind_cache tid pid w) ! tid) = 0"
    using t d(2) by (simp_all add: rebind_cache_def Let_def)
qed

lemma refill_loop_moves:
  assumes "refill_loop b c fl = (c', rest)" "b \<le> length (tc_slots c)"
  shows "tc_id c' = tc_id c \<and> length (tc_slots c') = length (tc_slots c) \<and>
    tc_count c' \<le> max b (tc_count c) \<and> tc_count c \<le> tc_count c' \<and>
    mset (take (tc_count c') (tc_slots c')) + mset rest = mset (take (tc_count c) (tc_slots c)) + mset fl"
  using assms
proof (induction b c fl rule: refill_loop.induct)
  case (1 b c fl)
  show ?case
  proof (cases "tc_count c < b \<and> fl \<noteq> []")
    case True
    let ?d = "c\<lparr>tc_slots := (tc_slots c)[tc_count c := last fl], tc_count := tc_count c + 1\<rparr>"
    have r: "refill_loop b ?d (butlast fl) = (c', rest)"
      using 1(2) True by (subst (asm) refill_loop.simps) simp
    have "mset (take (tc_count c + 1) ((tc_slots c)[tc_count c := last fl])) =
        add_mset (last fl) (mset (take (tc_count c) (tc_slots c)))"
      using True 1(3) by (simp add: take_Suc_conv_app_nth take_update_cancel)
    moreover have "mset fl = add_mset (last fl) (mset (butlast fl))"
      using True by (simp add: mset_last_butlast)
    ultimately show ?thesis using 1(1) [OF True r] 1(3) True by simp
  next
    case False
    then show ?thesis using 1(2) by (subst (asm) refill_loop.simps) auto
  qed
qed

lemma refill_loop_progress:
  assumes "refill_loop b c fl = (c', rest)" "tc_count c < b" "fl \<noteq> []" "b \<le> length (tc_slots c)"
  shows "tc_count c' \<noteq> 0"
proof -
  let ?d = "c\<lparr>tc_slots := (tc_slots c)[tc_count c := last fl], tc_count := tc_count c + 1\<rparr>"
  have "refill_loop b ?d (butlast fl) = (c', rest)"
    using assms by (subst (asm) refill_loop.simps) simp
  then show ?thesis using refill_loop_moves [of b ?d "butlast fl" c' rest] assms(4) by simp
qed

lemma find_shard_some:
  "find_shard p home = Some s \<Longrightarrow> s < kShardCount \<and> p_shards p ! s \<noteq> []"
  by (auto simp: find_shard_def kShardCount_def kCounterShards_def dest: find_Some_in)

lemma find_shard_none:
  assumes "find_shard p home = None" "length (p_shards p) = kShardCount"
  shows "concat (p_shards p) = []"
proof -
  have all: "p_shards p ! ((home + offset) mod kShardCount) = []" if "offset < kShardCount" for offset
    using assms(1) that by (auto simp: find_shard_def find_None_all)
  have "p_shards p ! s = []" if s: "s < kShardCount" for s
  proof -
    have "(home + (s + kShardCount - home mod kShardCount) mod kShardCount) mod kShardCount =
        (home mod kShardCount + (s + kShardCount - home mod kShardCount)) mod kShardCount"
      by (simp add: mod_simps)
    also have "\<dots> = s"
      using s by (simp add: kShardCount_def kCounterShards_def)
    finally show ?thesis
      using all [of "(s + kShardCount - home mod kShardCount) mod kShardCount"] s by simp
  qed
  then show ?thesis using assms(2) by (simp only: concat_all_empty) simp
qed

lemma count_miss_sel [simp]:
  "p_shards (count_miss home p) = p_shards p" "p_capacity (count_miss home p) = p_capacity p"
  "p_batch (count_miss home p) = p_batch p" "p_slots (count_miss home p) = p_slots p"
  by (simp_all add: count_miss_def)

lemma refill_cache_facts:
  assumes "pool_shape p" "cache_shape w c" "w_pools w (tc_id c) = Some p" "tc_id c \<noteq> 0" "tc_count c = 0"
    and r: "refill_cache home p c = (p', c')"
  shows "pool_shape p' \<and> p_capacity p' = p_capacity p \<and> p_batch p' = p_batch p \<and> p_slots p' = p_slots p \<and>
    cache_shape w c' \<and> tc_id c' = tc_id c \<and>
    mset (concat (p_shards p')) + mset (take (tc_count c') (tc_slots c')) =
      mset (concat (p_shards p)) + mset (take (tc_count c) (tc_slots c)) \<and>
    (tc_count c' = 0 \<longrightarrow> concat (p_shards p') = [])"
proof (cases "find_shard p home")
  case None
  then show ?thesis
    using assms find_shard_none [OF None] by (auto simp: refill_cache_def Let_def pool_shape_def)
next
  case (Some s)
  obtain rest where l: "refill_loop (p_batch p) c (p_shards p ! s) = (c', rest)"
    and p': "p' = (count_miss home p)\<lparr>p_shards := (p_shards p)[s := rest]\<rparr>"
    using r Some by (auto simp: refill_cache_def Let_def split: prod.splits)
  have b: "0 < p_batch p" "p_batch p \<le> length (tc_slots c)"
    using assms by (auto simp: cache_shape_def pool_shape_def)
  note m = refill_loop_moves [OF l b(2)]
  have s: "s < length (p_shards p)" "p_shards p ! s \<noteq> []"
    using find_shard_some [OF Some] assms(1) by (auto simp: pool_shape_def)
  have "mset (concat (p_shards p')) + mset (p_shards p ! s) = mset (concat (p_shards p)) + mset rest"
    using mset_concat_update [OF s(1), of rest] p' by simp
  then have "mset (concat (p_shards p')) + mset (take (tc_count c') (tc_slots c')) =
      mset (concat (p_shards p)) + mset (take (tc_count c) (tc_slots c))"
    by (rule mset_exchange) (use m in simp)
  moreover have "tc_count c' \<noteq> 0"
    using refill_loop_progress [OF l _ s(2) b(2)] b(1) assms(5) by simp
  ultimately show ?thesis
    using m assms p' b by (auto simp: pool_shape_def cache_shape_def)
qed

text \<open>The in-place shift of \<open>spill_cache\<close> reads each element before it is overwritten.\<close>

lemma spill_shift:
  assumes "b \<le> n" "n \<le> length xs"
  shows "length (fold (\<lambda>i s. s[i - b := s ! i]) [b..<n] xs) = length xs \<and>
    (\<forall>j < length xs. fold (\<lambda>i s. s[i - b := s ! i]) [b..<n] xs ! j =
       (if j < n - b then xs ! (j + b) else xs ! j))"
  using assms
proof (induction n rule: dec_induct)
  case (step n)
  let ?f = "fold (\<lambda>i s. s[i - b := s ! i]) [b..<n] xs"
  have IH: "length ?f = length xs" "\<forall>j < length xs. ?f ! j = (if j < n - b then xs ! (j + b) else xs ! j)"
    using step by auto
  have "?f ! n = xs ! n" using IH(2) step by (cases "b = 0") auto
  then show ?case using IH step by (auto simp: nth_list_update)
qed auto

lemma spill_shift_take:
  assumes "b \<le> n" "n \<le> length xs"
  shows "take (n - b) (fold (\<lambda>i s. s[i - b := s ! i]) [b..<n] xs) = drop b (take n xs)"
  using spill_shift [OF assms] assms by (intro nth_equalityI) (auto simp: add.commute)

lemma spill_cache_facts:
  assumes "pool_shape p" "cache_shape w c" "w_pools w (tc_id c) = Some p" "tc_id c \<noteq> 0" "tc_count c = 2 * p_batch p"
    and h: "home < kShardCount" and r: "spill_cache home p c = (p', c')"
  shows "pool_shape p' \<and> p_capacity p' = p_capacity p \<and> p_batch p' = p_batch p \<and> p_slots p' = p_slots p \<and>
    cache_shape w c' \<and> tc_id c' = tc_id c \<and> tc_count c' = p_batch p \<and>
    mset (concat (p_shards p')) + mset (take (tc_count c') (tc_slots c')) =
      mset (concat (p_shards p)) + mset (take (tc_count c) (tc_slots c))"
proof -
  let ?n = "tc_count c" and ?b = "p_batch p"
  have n: "?n \<le> length (tc_slots c)" "?b \<le> ?n"
    using assms by (auto simp: cache_shape_def)
  have p': "p_shards p' = (p_shards p)[home := p_shards p ! home @ take ?b (tc_slots c)]"
    using r n by (auto simp: spill_cache_def map_nth_prefix)
  have c': "take (tc_count c') (tc_slots c') = drop ?b (take ?n (tc_slots c))"
    "tc_count c' = ?b" "tc_id c' = tc_id c" "length (tc_slots c') = length (tc_slots c)"
    using r spill_shift_take [OF n(2,1)] spill_shift [OF n(2,1)] assms(5) by (auto simp: spill_cache_def)
  have "mset (take ?b (tc_slots c)) + mset (drop ?b (take ?n (tc_slots c))) = mset (take ?n (tc_slots c))"
    using n(2) by (metis append_take_drop_id min.absorb1 mset_append take_take)
  then show ?thesis
    using assms p' c' r h by (auto simp: pool_shape_def cache_shape_def concat_shard_append spill_cache_def)
qed

section \<open>Taking and giving a slot\<close>

text \<open>
  The two list operations with the cache bound to the pool: \<open>refill\<close> and \<open>spill\<close> at world
  level are moves.
\<close>

lemma moved_exchange:
  assumes "shape_ok w" "tid < length (w_caches w)" "w_pools w pid = Some p"
    and "tc_id (w_caches w ! tid) = pid" "tc_id c' = pid"
    and "pool_shape p'" "p_capacity p' = p_capacity p" "p_batch p' = p_batch p" "p_slots p' = p_slots p"
    and "cache_shape w c'"
    and "mset (concat (p_shards p')) + mset (take (tc_count c') (tc_slots c')) =
         mset (concat (p_shards p)) +
         mset (take (tc_count (w_caches w ! tid)) (tc_slots (w_caches w ! tid)))"
  shows "moved w (set_cache tid c' (set_pool pid p' w))"
  using assms by (intro moved_pool_cache) (auto simp: cached_for_def)

definition bind_cache :: "nat \<Rightarrow> u64 \<Rightarrow> 'b pworld \<Rightarrow> 'b pworld" where
  "bind_cache tid pid w = (if tc_id (w_caches w ! tid) \<noteq> pid then rebind_cache tid pid w else w)"

lemma bind_cache_moved:
  assumes "shape_ok w" "tid < length (w_caches w)" "w_pools w pid = Some p" "p_batch p \<noteq> 0"
  shows "moved w (bind_cache tid pid w)" "tc_id (w_caches (bind_cache tid pid w) ! tid) = pid"
  using rebind_cache_moved [OF assms] moved_refl [OF assms(1)] by (auto simp: bind_cache_def)

lemma movedD: "moved w w' \<Longrightarrow> shape_ok w' \<and> core w' = core w"
  by (simp add: moved_def)

text \<open>Putting one index into, or taking it out of, the cache of thread \<open>tid\<close>.\<close>

lemma free_cache_change:
  assumes "tid < length (w_caches w)" "w_pools w pid = Some p"
    and "\<And>q. q \<noteq> pid \<Longrightarrow> mset (cached_for q c') = mset (cached_for q (w_caches w ! tid))"
  shows "free_mset pid (set_cache tid c' w) + mset (cached_for pid (w_caches w ! tid)) =
      free_mset pid w + mset (cached_for pid c')"
    and "q \<noteq> pid \<Longrightarrow> free_mset q (set_cache tid c' w) = free_mset q w"
proof -
  show "free_mset pid (set_cache tid c' w) + mset (cached_for pid (w_caches w ! tid)) =
      free_mset pid w + mset (cached_for pid c')"
    by (rule free_set_cache [OF assms(1,2)])
  show "free_mset q (set_cache tid c' w) = free_mset q w" if "q \<noteq> pid"
  proof (cases "w_pools w q")
    case (Some r)
    show ?thesis
      by (rule mset_swap [OF free_set_cache [OF assms(1) Some]]) (use assms(3) [OF that] in simp)
  qed (simp add: free_none)
qed

definition slot_taken :: "nat \<Rightarrow> u64 \<Rightarrow> 'b pworld \<Rightarrow> 'b pworld \<times> nat option \<Rightarrow> bool" where
  "slot_taken tid pid w r \<longleftrightarrow> core (fst r) = core w \<and> shape_ok (fst r) \<and>
     (\<forall>q. q \<noteq> pid \<longrightarrow> free_mset q (fst r) = free_mset q w) \<and>
     (case snd r of
        Some i \<Rightarrow> free_mset pid w = add_mset i (free_mset pid (fst r))
      | None \<Rightarrow> free_mset pid (fst r) = free_mset pid w \<and>
          (\<forall>p. w_pools (fst r) pid = Some p \<longrightarrow> concat (p_shards p) = [] \<and>
             cached_for pid (w_caches (fst r) ! tid) = []))"

lemma take_from_cache:
  assumes "shape_ok w" "tid < length (w_caches w)" "w_pools w pid = Some p"
    and "tc_id (w_caches w ! tid) = pid" "tc_count (w_caches w ! tid) \<noteq> 0"
  defines "c \<equiv> w_caches w ! tid"
  shows "slot_taken tid pid w
    (set_cache tid (c\<lparr>tc_count := tc_count c - 1\<rparr>) w, Some (tc_slots c ! (tc_count c - 1)))"
proof -
  let ?d = "c\<lparr>tc_count := tc_count c - 1\<rparr>" and ?i = "tc_slots c ! (tc_count c - 1)"
  have c: "cache_shape w c" unfolding c_def by (rule shape_cache [OF assms(1,2)])
  then have d: "cache_shape w ?d" by (auto simp: cache_shape_def split: option.splits)
  have "tc_count c - 1 < length (tc_slots c)" using c assms(5) by (auto simp: cache_shape_def c_def)
  then have "take (tc_count c) (tc_slots c) = take (tc_count c - 1) (tc_slots c) @ [?i]"
    using assms(5) c_def take_Suc_conv_app_nth [of "tc_count c - 1" "tc_slots c"] by simp
  then have cm: "mset (cached_for pid c) = add_mset ?i (mset (cached_for pid ?d))"
    using assms(4) by (simp add: cached_for_def c_def)
  have oth: "mset (cached_for q ?d) = mset (cached_for q c)" if "q \<noteq> pid" for q
    using that assms(4) by (simp add: cached_for_def c_def)
  note f = free_cache_change [OF assms(2,3) oth [unfolded c_def]]
  have "free_mset pid w = add_mset ?i (free_mset pid (set_cache tid ?d w))"
    using f(1) cm by (auto simp: c_def)
  then show ?thesis
    using f(2) shape_set_cache [OF assms(1) d] by (simp add: slot_taken_def c_def)
qed

lemma slot_taken_moved: "moved w w1 \<Longrightarrow> slot_taken tid pid w1 r \<Longrightarrow> slot_taken tid pid w r"
  by (cases "snd r") (simp_all add: moved_def slot_taken_def)

lemma refill_moved:
  assumes "shape_ok w" "tid < length (w_caches w)" "w_pools w pid = Some p"
    and "tc_id (w_caches w ! tid) = pid" "tc_count (w_caches w ! tid) = 0"
    and "refill_cache home p (w_caches w ! tid) = (p', c')"
  shows "moved w (set_cache tid c' (set_pool pid p' w))" "tc_id c' = pid"
    "tc_count c' = 0 \<longrightarrow> concat (p_shards p') = []"
proof -
  have "pid \<noteq> 0" using assms(1,3) shape_no_pool_0 by force
  have f: "pool_shape p' \<and> p_capacity p' = p_capacity p \<and> p_batch p' = p_batch p \<and>
      p_slots p' = p_slots p \<and> cache_shape w c' \<and> tc_id c' = pid \<and>
      mset (concat (p_shards p')) + mset (take (tc_count c') (tc_slots c')) =
      mset (concat (p_shards p)) + mset (take (tc_count (w_caches w ! tid)) (tc_slots (w_caches w ! tid))) \<and>
      (tc_count c' = 0 \<longrightarrow> concat (p_shards p') = [])"
    using refill_cache_facts [OF shape_pool [OF assms(1,3)] shape_cache [OF assms(1,2)] _ _ assms(5,6)] assms(3,4) \<open>pid \<noteq> 0\<close>
    by simp
  then show "moved w (set_cache tid c' (set_pool pid p' w))"
    using assms by (intro moved_exchange) auto
  show "tc_id c' = pid" "tc_count c' = 0 \<longrightarrow> concat (p_shards p') = []" using f by auto
qed

lemma take_free_slot_taken:
  assumes "shape_ok w" "tid < length (w_caches w)" "w_pools w pid = Some p"
  shows "slot_taken tid pid w (take_free_slot tid pid w)"
proof (cases "p_batch p = 0")
  case True
  let ?home = "w_home w ! tid"
  let ?p = "count_miss ?home p"
  have ps: "pool_shape p" by (rule shape_pool [OF assms(1,3)])
  have nocache: "cached_for pid (w_caches w ! tid) = []"
    using shape_cache [OF assms(1,2)] assms(3) True by (auto simp: cache_shape_def cached_for_def)
  show ?thesis
  proof (cases "find_shard p ?home")
    case None
    have "concat (p_shards p) = []"
      using find_shard_none [OF None] ps by (simp add: pool_shape_def)
    moreover have "free_mset pid (set_pool pid ?p w) = free_mset pid w"
      using free_set_pool [OF assms(3), of ?p] by simp
    ultimately show ?thesis
      using True None assms nocache ps shape_set_pool [OF assms(1,3), of ?p]
      by (simp add: take_free_slot_def slot_taken_def Let_def core_set_pool free_set_pool_other
          pool_shape_def)
  next
    case (Some s)
    let ?q = "?p\<lparr>p_shards := (p_shards p)[s := butlast (p_shards p ! s)]\<rparr>"
    have s: "s < length (p_shards p)" "p_shards p ! s \<noteq> []"
      using find_shard_some [OF Some] ps by (auto simp: pool_shape_def)
    have "mset (p_shards p ! s) = add_mset (last (p_shards p ! s)) (mset (butlast (p_shards p ! s)))"
      by (rule mset_last_butlast [OF s(2)])
    then have "mset (concat (p_shards p)) = add_mset (last (p_shards p ! s)) (mset (concat (p_shards ?q)))"
      using mset_concat_update [OF s(1), of "butlast (p_shards p ! s)"] by simp
    then have "free_mset pid w = add_mset (last (p_shards p ! s)) (free_mset pid (set_pool pid ?q w))"
      using free_set_pool [OF assms(3), of ?q] by simp
    then show ?thesis
      using True Some assms ps shape_set_pool [OF assms(1,3), of ?q]
      by (simp add: take_free_slot_def slot_taken_def Let_def core_set_pool free_set_pool_other
          pool_shape_def)
  qed
next
  case False
  let ?u = "bind_cache tid pid w" and ?home = "w_home w ! tid"
  note b = bind_cache_moved [OF assms False]
  have u: "shape_ok ?u" "core ?u = core w" using movedD [OF b(1)] by auto
  have tu: "tid < length (w_caches ?u)" using core_basics [OF u(2)] assms(2) by simp
  obtain p1 where p1: "w_pools ?u pid = Some p1" using core_pool [OF u(2) assms(3)] by auto
  show ?thesis
  proof (cases "tc_count (w_caches ?u ! tid) = 0")
    case False2: False
    have "take_free_slot tid pid w = (set_cache tid ((w_caches ?u ! tid)\<lparr>tc_count :=
        tc_count (w_caches ?u ! tid) - 1\<rparr>) ?u, Some (tc_slots (w_caches ?u ! tid) ! (tc_count (w_caches ?u ! tid) - 1)))"
      using assms(3) False False2 by (simp add: take_free_slot_def bind_cache_def Let_def)
    then show ?thesis
      using slot_taken_moved [OF b(1) take_from_cache [OF u(1) tu p1 b(2) False2]] by simp
  next
    case True
    obtain p2 c2 where r: "refill_cache ?home p1 (w_caches ?u ! tid) = (p2, c2)" by fastforce
    let ?v = "set_cache tid c2 (set_pool pid p2 ?u)"
    note m = refill_moved [OF u(1) tu p1 b(2) True r]
    have v: "shape_ok ?v" using movedD [OF m(1)] by simp
    have mv: "moved w ?v" by (rule moved_trans [OF b(1) m(1)])
    have cv: "w_caches ?v ! tid = c2" "tid < length (w_caches ?v)" "w_pools ?v pid = Some p2"
      using tu by simp_all
    have t: "take_free_slot tid pid w =
        (if tc_count c2 = 0 then (?v, None)
         else (set_cache tid (c2\<lparr>tc_count := tc_count c2 - 1\<rparr>) ?v, Some (tc_slots c2 ! (tc_count c2 - 1))))"
      using assms(3) False True p1 r cv(1)
      by (simp add: take_free_slot_def bind_cache_def [symmetric] Let_def)
    show ?thesis
    proof (cases "tc_count c2 = 0")
      case True
      then show ?thesis
        using t mv m(3) cv by (simp add: slot_taken_def moved_def cached_for_def)
    next
      case False
      then have "slot_taken tid pid ?v (take_free_slot tid pid w)"
        using take_from_cache [OF v cv(2,3)] t m(2) cv(1) by simp
      then show ?thesis by (rule slot_taken_moved [OF mv])
    qed
  qed
qed

definition slot_given :: "u64 \<Rightarrow> nat \<Rightarrow> 'b pworld \<Rightarrow> 'b pworld \<Rightarrow> bool" where
  "slot_given pid i w w' \<longleftrightarrow> core w' = core w \<and> shape_ok w' \<and>
     free_mset pid w' = add_mset i (free_mset pid w) \<and>
     (\<forall>q. q \<noteq> pid \<longrightarrow> free_mset q w' = free_mset q w)"

lemma slot_given_moved: "moved w w1 \<Longrightarrow> slot_given pid i w1 w' \<Longrightarrow> slot_given pid i w w'"
  by (simp add: moved_def slot_given_def)

lemma push_to_cache:
  assumes "shape_ok w" "tid < length (w_caches w)" "w_pools w pid = Some p"
    and "tc_id (w_caches w ! tid) = pid" "tc_count (w_caches w ! tid) < 2 * p_batch p"
  defines "c \<equiv> w_caches w ! tid"
  shows "slot_given pid i w
    (set_cache tid (c\<lparr>tc_slots := (tc_slots c)[tc_count c := i], tc_count := tc_count c + 1\<rparr>) w)"
proof -
  let ?d = "c\<lparr>tc_slots := (tc_slots c)[tc_count c := i], tc_count := tc_count c + 1\<rparr>"
  have c: "cache_shape w c" unfolding c_def by (rule shape_cache [OF assms(1,2)])
  have lim: "tc_count c < 2 * kMaxBatch" "tc_count c < length (tc_slots c)"
    using c assms(5) shape_pool [OF assms(1,3)] by (auto simp: cache_shape_def pool_shape_def c_def)
  have "pid \<noteq> 0" using assms(1,3) shape_no_pool_0 by force
  then have d: "cache_shape w ?d"
    using c lim assms(3,4,5) by (auto simp: cache_shape_def c_def)
  have cm: "mset (cached_for pid ?d) = add_mset i (mset (cached_for pid c))"
    using assms(4) lim by (simp add: cached_for_def c_def take_Suc_conv_app_nth take_update_cancel)
  have oth: "mset (cached_for q ?d) = mset (cached_for q c)" if "q \<noteq> pid" for q
    using that assms(4) by (simp add: cached_for_def c_def)
  note f = free_cache_change [OF assms(2,3) oth [unfolded c_def]]
  have "free_mset pid (set_cache tid ?d w) = add_mset i (free_mset pid w)"
    using f(1) cm by (auto simp: c_def)
  then show ?thesis
    using f(2) shape_set_cache [OF assms(1) d] by (simp add: slot_given_def c_def)
qed

lemma give_slot_given:
  assumes "shape_ok w" "tid < length (w_caches w)" "w_pools w pid = Some p"
  shows "slot_given pid i w (give_slot tid pid i w)"
proof (cases "p_batch p = 0")
  case True
  let ?home = "w_home w ! tid"
  let ?p = "p\<lparr>p_shards := (p_shards p)[?home := p_shards p ! ?home @ [i]]\<rparr>"
  have ps: "pool_shape p" "pool_shape ?p"
    using shape_pool [OF assms(1,3)] by (auto simp: pool_shape_def)
  have "mset (concat (p_shards ?p)) = add_mset i (mset (concat (p_shards p)))"
    using ps shape_home [OF assms(1,2)] by (simp add: pool_shape_def concat_shard_append)
  then have "free_mset pid (set_pool pid ?p w) = add_mset i (free_mset pid w)"
    using free_set_pool [OF assms(3), of ?p] by simp
  then show ?thesis
    using True assms ps shape_set_pool [OF assms(1,3) ps(2)]
    by (simp add: give_slot_def slot_given_def Let_def core_set_pool free_set_pool_other)
next
  case False
  let ?u = "bind_cache tid pid w" and ?home = "w_home w ! tid"
  note b = bind_cache_moved [OF assms False]
  have u: "shape_ok ?u" "core ?u = core w" using movedD [OF b(1)] by auto
  have tu: "tid < length (w_caches ?u)" using core_basics [OF u(2)] assms(2) by simp
  obtain p1 where p1: "w_pools ?u pid = Some p1" "p_batch p1 = p_batch p"
    using core_pool [OF u(2) assms(3)] by auto
  have cu: "cache_shape ?u (w_caches ?u ! tid)" by (rule shape_cache [OF u(1) tu])
  show ?thesis
  proof (cases "tc_count (w_caches ?u ! tid) = 2 * p_batch p")
    case False2: False
    have "tc_count (w_caches ?u ! tid) < 2 * p_batch p1"
      using cu p1 b(2) False2 by (simp add: cache_shape_def)
    then have "slot_given pid i ?u (give_slot tid pid i w)"
      using push_to_cache [OF u(1) tu p1(1) b(2)] assms(3) False False2
      by (simp add: give_slot_def bind_cache_def Let_def)
    then show ?thesis by (rule slot_given_moved [OF b(1)])
  next
    case True
    obtain p2 c2 where r: "spill_cache ?home p1 (w_caches ?u ! tid) = (p2, c2)" by fastforce
    let ?v = "set_cache tid c2 (set_pool pid p2 ?u)"
    have "pid \<noteq> 0" using assms(1,3) shape_no_pool_0 by force
    then have k: "w_pools ?u (tc_id (w_caches ?u ! tid)) = Some p1" "tc_id (w_caches ?u ! tid) \<noteq> 0"
      "tc_count (w_caches ?u ! tid) = 2 * p_batch p1"
      using b(2) p1 True by simp_all
    have f: "pool_shape p2 \<and> p_capacity p2 = p_capacity p1 \<and> p_batch p2 = p_batch p1 \<and>
        p_slots p2 = p_slots p1 \<and> cache_shape ?u c2 \<and> tc_id c2 = pid \<and> tc_count c2 = p_batch p1 \<and>
        mset (concat (p_shards p2)) + mset (take (tc_count c2) (tc_slots c2)) =
        mset (concat (p_shards p1)) +
        mset (take (tc_count (w_caches ?u ! tid)) (tc_slots (w_caches ?u ! tid)))"
      using spill_cache_facts [OF shape_pool [OF u(1) p1(1)] cu k shape_home [OF assms(1,2)] r]
      unfolding b(2) .
    have m: "moved ?u ?v" by (rule moved_exchange [OF u(1) tu p1(1) b(2)]) (use f in blast)+
    have cv: "w_caches ?v ! tid = c2" "tid < length (w_caches ?v)" "w_pools ?v pid = Some p2"
      using tu by simp_all
    have "give_slot tid pid i w =
        set_cache tid (c2\<lparr>tc_slots := (tc_slots c2)[tc_count c2 := i], tc_count := tc_count c2 + 1\<rparr>) ?v"
      using assms(3) False True p1 r cv(1)
      by (simp add: give_slot_def bind_cache_def [symmetric] Let_def)
    moreover have "slot_given pid i ?v
        (set_cache tid (c2\<lparr>tc_slots := (tc_slots c2)[tc_count c2 := i], tc_count := tc_count c2 + 1\<rparr>) ?v)"
      using push_to_cache [OF conjunct1 [OF movedD [OF m]] cv(2,3), of i] f cv(1) p1 False by simp
    ultimately show ?thesis
      by (intro slot_given_moved [OF moved_trans [OF b(1) m]]) simp
  qed
qed

end
