(* ===== verification/Pool_Correct.thy ===== *)
theory Pool_Correct
  imports Task_Pool
begin

text \<open>
  Correctness of the task pool: the contract of a store of free slots (locale \<open>slot_store\<close>),
  its interpretation on \<open>take_free_slot\<close> / \<open>give_slot\<close>, and the invariant of every run of pool
  operations by any threads on any pools: free slots and handed-out slots partition the slab.
\<close>

section \<open>The interface of a slot store\<close>

locale slot_store =
  fixes okay :: "'s \<Rightarrow> bool"
    and thr :: "'s \<Rightarrow> nat \<Rightarrow> bool"
    and free :: "'s \<Rightarrow> nat multiset"
    and take_slot :: "nat \<Rightarrow> 's \<Rightarrow> 's \<times> nat option"
    and give :: "nat \<Rightarrow> nat \<Rightarrow> 's \<Rightarrow> 's"
  assumes take_okay: "okay s \<Longrightarrow> thr s t \<Longrightarrow> okay (fst (take_slot t s))"
    and take_some: "okay s \<Longrightarrow> thr s t \<Longrightarrow> snd (take_slot t s) = Some i \<Longrightarrow>
      free s = add_mset i (free (fst (take_slot t s)))"
    and take_none: "okay s \<Longrightarrow> thr s t \<Longrightarrow> snd (take_slot t s) = None \<Longrightarrow>
      free (fst (take_slot t s)) = free s"
    and give_okay: "okay s \<Longrightarrow> thr s t \<Longrightarrow> okay (give t i s)"
    and give_free: "okay s \<Longrightarrow> thr s t \<Longrightarrow> free (give t i s) = add_mset i (free s)"
begin

text \<open>Free and held slots partition \<open>all_slots\<close>.\<close>

definition partitioned :: "nat multiset \<Rightarrow> nat list \<Rightarrow> 's \<Rightarrow> bool" where
  "partitioned all_slots held s \<longleftrightarrow> okay s \<and> free s + mset held = all_slots"

lemma take_partitioned:
  "partitioned A held s \<Longrightarrow> thr s t \<Longrightarrow> snd (take_slot t s) = Some i \<Longrightarrow>
   partitioned A (i # held) (fst (take_slot t s))"
  using take_okay [of s t] take_some [of s t i] by (auto simp: partitioned_def)

lemma take_none_partitioned:
  "partitioned A held s \<Longrightarrow> thr s t \<Longrightarrow> snd (take_slot t s) = None \<Longrightarrow>
   partitioned A held (fst (take_slot t s))"
  using take_okay [of s t] take_none [of s t] by (auto simp: partitioned_def)

lemma give_partitioned:
  "partitioned A held s \<Longrightarrow> thr s t \<Longrightarrow> i \<in> set held \<Longrightarrow>
   partitioned A (remove1 i held) (give t i s)"
  using give_okay [of s t i] give_free [of s t i] by (auto simp: partitioned_def)

lemma partitioned_fresh:
  "partitioned (mset xs) held s \<Longrightarrow> distinct xs \<Longrightarrow>
   distinct held \<and> set held \<subseteq> set xs \<and> (\<forall>i \<in># free s. i \<notin> set held)"
proof -
  assume p: "partitioned (mset xs) held s" and d: "distinct xs"
  have eq: "mset (held @ sorted_list_of_multiset (free s)) = mset xs"
    using p by (simp add: partitioned_def add.commute)
  have "distinct (held @ sorted_list_of_multiset (free s))"
    using d eq by (metis mset_eq_imp_distinct_iff)
  moreover have "set held \<subseteq> set xs" using eq mset_eq_setD by fastforce
  ultimately show ?thesis by auto
qed

text \<open>An item just taken was held by nobody.\<close>

lemma take_fresh:
  assumes "partitioned (mset xs) held s" "distinct xs" "thr s t" "snd (take_slot t s) = Some i"
  shows "i \<notin> set held \<and> i \<in> set xs \<and> i \<in># free s"
proof -
  have "distinct (i # held) \<and> set (i # held) \<subseteq> set xs"
    using partitioned_fresh [OF take_partitioned [OF assms(1,3,4)] assms(2)] by blast
  moreover have "i \<in># free s"
    using take_some [of s t i] assms by (simp add: partitioned_def)
  ultimately show ?thesis by simp
qed

end

definition pool_okay :: "u64 \<Rightarrow> 'b pworld \<Rightarrow> bool" where
  "pool_okay pid w \<longleftrightarrow> shape_ok w \<and> w_pools w pid \<noteq> None"

definition has_thread :: "'b pworld \<Rightarrow> nat \<Rightarrow> bool" where
  "has_thread w tid \<longleftrightarrow> tid < length (w_caches w)"

lemma pool_okay_cong: "core w' = core w \<Longrightarrow> shape_ok w' \<Longrightarrow> pool_okay pid w \<Longrightarrow> pool_okay pid w'"
  using core_none [of w' w pid] by (simp add: pool_okay_def)

lemma pool_slot_store:
  "slot_store (pool_okay pid) has_thread (free_mset pid)
     (\<lambda>tid. take_free_slot tid pid) (\<lambda>tid. give_slot tid pid)"
proof
  fix w :: "'b pworld" and tid i
  assume "pool_okay pid w" "has_thread w tid"
  then obtain p where p: "shape_ok w" "tid < length (w_caches w)" "w_pools w pid = Some p"
    by (auto simp: pool_okay_def has_thread_def)
  note t = take_free_slot_taken [OF p] and g = give_slot_given [OF p, of i]
  show "pool_okay pid (fst (take_free_slot tid pid w))"
    using t \<open>pool_okay pid w\<close> by (auto simp: slot_taken_def intro: pool_okay_cong)
  show "pool_okay pid (give_slot tid pid i w)"
    using g \<open>pool_okay pid w\<close> by (auto simp: slot_given_def intro: pool_okay_cong)
  show "free_mset pid (give_slot tid pid i w) = add_mset i (free_mset pid w)"
    using g by (simp add: slot_given_def)
  show "free_mset pid w = add_mset i (free_mset pid (fst (take_free_slot tid pid w)))"
    if "snd (take_free_slot tid pid w) = Some i"
    using t that by (simp add: slot_taken_def)
  show "free_mset pid (fst (take_free_slot tid pid w)) = free_mset pid w"
    if "snd (take_free_slot tid pid w) = None"
    using t that by (simp add: slot_taken_def)
qed

interpretation pool: slot_store "pool_okay pid" has_thread "free_mset pid"
    "\<lambda>tid. take_free_slot tid pid" "\<lambda>tid. give_slot tid pid"
  for pid
  by (rule pool_slot_store)

section \<open>Operations that change slots\<close>

text \<open>A change of one pool that leaves its free list alone.\<close>

definition keeps_lists :: "('b pool \<Rightarrow> 'b pool) \<Rightarrow> bool" where
  "keeps_lists f \<longleftrightarrow> (\<forall>p. p_capacity (f p) = p_capacity p \<and> p_batch (f p) = p_batch p \<and>
     p_shards (f p) = p_shards p \<and> length (p_slots (f p)) = length (p_slots p))"

lemma keeps_lists_intros [simp, intro]:
  "keeps_lists (upd_slot i u)" "keeps_lists (count_acquire home)" "keeps_lists (count_release home)"
  "keeps_lists f \<Longrightarrow> keeps_lists g \<Longrightarrow> keeps_lists (f \<circ> g)"
  by (simp_all add: keeps_lists_def upd_slot_def count_acquire_def count_release_def)

lemma upd_pool_sel [simp]:
  "w_caches (upd_pool pid f w) = w_caches w" "w_home (upd_pool pid f w) = w_home w"
  "w_registry (upd_pool pid f w) = w_registry w" "w_next (upd_pool pid f w) = w_next w"
  "w_pools (upd_pool pid f w) q = (if q = pid then map_option f (w_pools w pid) else w_pools w q)"
  by (simp_all add: upd_pool_def)

lemma free_upd_pool: "keeps_lists f \<Longrightarrow> free_mset q (upd_pool pid f w) = free_mset q w"
  by (auto simp: free_mset_def keeps_lists_def split: option.split)

lemma shape_upd_pool:
  assumes "keeps_lists f" "shape_ok w"
  shows "shape_ok (upd_pool pid f w)"
proof -
  have "cache_shape (upd_pool pid f w) c = cache_shape w c" for c
    using assms(1) by (auto simp: cache_shape_def keeps_lists_def split: option.split)
  moreover have "pool_shape (f p) \<longleftrightarrow> pool_shape p" for p
    using assms(1) by (auto simp: pool_shape_def keeps_lists_def)
  ultimately show ?thesis using assms by (auto simp: shape_ok_def keeps_lists_def)
qed

lemma slots_upd_slot [simp]: "p_slots (upd_slot i f p) = (p_slots p)[i := f (p_slots p ! i)]"
  by (simp add: upd_slot_def)

lemma slots_counts [simp]:
  "p_slots (count_acquire home p) = p_slots p" "p_slots (count_release home p) = p_slots p"
  "p_capacity (count_acquire home p) = p_capacity p" "p_capacity (count_release home p) = p_capacity p"
  by (simp_all add: count_acquire_def count_release_def)

lemma capacity_upd_slot [simp]: "p_capacity (upd_slot i f p) = p_capacity p"
  by (simp add: upd_slot_def)

lemma initialisers [simp]:
  "t_generation (acquire_init d t) = t_generation t" "t_generation (reserve_init pr t) = t_generation t"
  "task_inv t \<Longrightarrow> task_inv (acquire_init d t)" "task_inv t \<Longrightarrow> task_inv (reserve_init pr t)"
  "t_state (acquire_init d t) = Created" "t_state (reserve_init pr t) = t_state t"
  "t_closed (acquire_init d t) = False" "succs (acquire_init d t) = []"
  "t_function (acquire_init d t) = dfunction d" "t_priority (acquire_init d t) = dpriority d"
  by (simp_all add: acquire_init_def reserve_init_def Let_def open_successors_def task_inv_def succs_def)

lemma release_reset_simps [simp]:
  "t_generation (release_reset t) = t_generation t + 1" "t_state (release_reset t) = Free"
  "t_closed (release_reset t)" "t_function (release_reset t) = None"
  "task_inv t \<Longrightarrow> task_inv (release_reset t)"
  by (simp_all add: release_reset_def Let_def reset_successors_def task_inv_def)

section \<open>The invariant\<close>

definition held_idx :: "u64 \<Rightarrow> (u64 \<times> TaskHandle) list \<Rightarrow> nat list" where
  "held_idx pid held = map (\<lambda>(q, h). unat (hindex h)) (filter (\<lambda>(q, h). q = pid) held)"

definition slots_ok :: "u64 \<Rightarrow> (u64 \<times> TaskHandle) list \<Rightarrow> 'b pworld \<Rightarrow> 'b pool \<Rightarrow> bool" where
  "slots_ok pid held w p \<longleftrightarrow> (\<forall>t \<in> set (p_slots p). task_inv t) \<and>
     free_mset pid w + mset (held_idx pid held) = mset [0..<p_capacity p] \<and>
     (\<forall>i \<in># free_mset pid w. t_state (p_slots p ! i) = Free)"

definition pworld_ok :: "(u64 \<times> TaskHandle) list \<Rightarrow> 'b pworld \<Rightarrow> bool" where
  "pworld_ok held w \<longleftrightarrow> shape_ok w \<and> (\<forall>pid p. w_pools w pid = Some p \<longrightarrow> slots_ok pid held w p) \<and>
     (\<forall>(pid, h) \<in> set held. \<exists>p. w_pools w pid = Some p \<and> get h p \<noteq> None)"

lemma get_some: "get h p = Some i \<longleftrightarrow> i = unat (hindex h) \<and> handle_valid h \<and> i < p_capacity p \<and>
    t_generation (p_slots p ! i) = hgeneration h"
  by (auto simp: get_def)

lemma get_not_none: "get h p \<noteq> None \<longleftrightarrow> handle_valid h \<and> unat (hindex h) < p_capacity p \<and>
    t_generation (p_slots p ! unat (hindex h)) = hgeneration h"
  by (auto simp: get_def)

lemma slots_ok_partitioned:
  "shape_ok w \<Longrightarrow> w_pools w pid = Some p \<Longrightarrow> slots_ok pid held w p \<Longrightarrow>
   pool.partitioned pid (mset [0..<p_capacity p]) (held_idx pid held) w"
  by (simp add: pool.partitioned_def pool_okay_def slots_ok_def)

lemma index_valid: "i < c \<Longrightarrow> c < 2 ^ 32 \<Longrightarrow> (of_nat i :: u32) \<noteq> kInvalidIndex"
proof
  assume "i < c" "c < 2 ^ 32" "(of_nat i :: u32) = kInvalidIndex"
  then have "unat (of_nat i :: u32) = 2 ^ 32 - 1" by (simp add: kInvalidIndex_def)
  then show False using \<open>i < c\<close> \<open>c < 2 ^ 32\<close> by (simp add: unat_of_nat)
qed

text \<open>The invariant only looks at the slots, the capacity and the free slots of each pool.\<close>

definition same_slots :: "u64 \<Rightarrow> 'b pworld \<Rightarrow> 'b pworld \<Rightarrow> bool" where
  "same_slots q w w' \<longleftrightarrow> map_option (\<lambda>p. (p_slots p, p_capacity p)) (w_pools w' q) =
     map_option (\<lambda>p. (p_slots p, p_capacity p)) (w_pools w q)"

lemma core_same_slots: "core w' = core w \<Longrightarrow> same_slots q w w'"
  using core_pool [of w' w q] core_none [of w' w q]
  by (cases "w_pools w q") (auto simp: same_slots_def)

lemma same_slotsD:
  "same_slots q w w' \<Longrightarrow> w_pools w' q = Some p' \<Longrightarrow>
   \<exists>p. w_pools w q = Some p \<and> p_slots p = p_slots p' \<and> p_capacity p = p_capacity p'"
  by (cases "w_pools w q") (auto simp: same_slots_def)

lemma same_slots_get:
  "same_slots q w w' \<Longrightarrow> \<exists>p. w_pools w q = Some p \<and> get h p \<noteq> None \<Longrightarrow>
   \<exists>p. w_pools w' q = Some p \<and> get h p \<noteq> None"
  by (cases "w_pools w' q") (auto simp: same_slots_def get_def split: if_splits)

lemma slots_ok_same:
  assumes "\<forall>p. w_pools w q = Some p \<longrightarrow> slots_ok q held w p" "same_slots q w w'"
    and "free_mset q w' = free_mset q w" "w_pools w' q = Some p'"
  shows "slots_ok q held w' p'"
  using same_slotsD [OF assms(2,4)] assms(1,3) by (auto simp: slots_ok_def)

lemma pworld_ok_same:
  assumes "pworld_ok held w" "shape_ok w'" "\<And>q. same_slots q w w'" "\<And>q. free_mset q w' = free_mset q w"
  shows "pworld_ok held w'"
  unfolding pworld_ok_def
proof (intro conjI allI impI ballI)
  show "slots_ok pid held w' p" if "w_pools w' pid = Some p" for pid p
    using assms(1) by (intro slots_ok_same [OF _ assms(3,4) that]) (simp add: pworld_ok_def)
  show "case x of (pid, h) \<Rightarrow> \<exists>p. w_pools w' pid = Some p \<and> get h p \<noteq> None" if "x \<in> set held" for x
    using assms(1) that same_slots_get [OF assms(3)] by (fastforce simp: pworld_ok_def)
qed (rule assms(2))

lemma pworld_ok_upd:
  assumes "pworld_ok held w" "keeps_lists f" "\<And>p. p_slots (f p) = p_slots p"
  shows "pworld_ok held (upd_pool pid f w)"
proof (rule pworld_ok_same [OF assms(1)])
  show "shape_ok (upd_pool pid f w)"
    using assms by (intro shape_upd_pool) (auto simp: pworld_ok_def)
  show "same_slots q w (upd_pool pid f w)" for q
    using assms(2,3) by (cases "w_pools w q") (auto simp: same_slots_def keeps_lists_def)
qed (rule free_upd_pool [OF assms(2)])

lemma taken_none_ok:
  assumes "pworld_ok held w" "slot_taken tid pid w (w1, None)"
  shows "pworld_ok held w1"
proof (rule pworld_ok_same [OF assms(1)])
  show "same_slots q w w1" for q using assms(2) by (simp add: slot_taken_def core_same_slots)
  show "free_mset q w1 = free_mset q w" for q
    using assms(2) by (cases "q = pid") (simp_all add: slot_taken_def)
qed (use assms(2) in \<open>simp add: slot_taken_def\<close>)

text \<open>A slot that has just been taken: it was free, in range and held by nobody.\<close>

lemma taken_slot_facts:
  assumes "pworld_ok held w" "w_pools w pid = Some p" "slot_taken tid pid w (w1, Some i)"
  shows "i < p_capacity p \<and> i \<in># free_mset pid w \<and> i \<notin># free_mset pid w1 \<and>
    i \<notin> set (held_idx pid held) \<and> t_state (p_slots p ! i) = Free \<and> unat (of_nat i :: u32) = i \<and>
    i < length (p_slots p) \<and> (of_nat i :: u32) \<noteq> kInvalidIndex"
proof -
  have so: "slots_ok pid held w p" and sh: "shape_ok w" using assms by (auto simp: pworld_ok_def)
  have f: "free_mset pid w = add_mset i (free_mset pid w1)" using assms(3) by (simp add: slot_taken_def)
  have part: "pool.partitioned pid (mset [0..<p_capacity p]) (i # held_idx pid held) w1"
    using so f assms core_none [of w1 w pid]
    by (auto simp: pool.partitioned_def pool_okay_def slots_ok_def slot_taken_def)
  have ps: "p_capacity p < 2 ^ 32" "length (p_slots p) = p_capacity p"
    using shape_pool [OF sh assms(2)] by (auto simp: pool_shape_def)
  have i: "i < p_capacity p" "i \<notin># free_mset pid w1" "i \<notin> set (held_idx pid held)"
    using pool.partitioned_fresh [OF part] by auto
  moreover have "unat (of_nat i :: u32) = i" using i(1) ps(1) by (simp add: unat_of_nat)
  ultimately show ?thesis using f so ps index_valid [OF i(1) ps(1)] by (auto simp: slots_ok_def)
qed

lemma get_upd_slot:
  "(\<And>t. t_generation (f t) = t_generation t) \<Longrightarrow> length (p_slots p) = p_capacity p \<Longrightarrow>
   get h (upd_slot i f p) = get h p"
  by (cases "i = unat (hindex h)") (auto simp: get_def)

lemma taken_slot_ok:
  assumes ok: "pworld_ok held w" and p: "w_pools w pid = Some p"
    and t: "slot_taken tid pid w (w1, Some i)" and p1: "w_pools w1 pid = Some p1"
    and init: "\<And>t. t_generation (init t) = t_generation t" "\<And>t. task_inv t \<Longrightarrow> task_inv (init t)"
  defines "h \<equiv> \<lparr>hindex = of_nat i, hgeneration = t_generation (p_slots p ! i)\<rparr>"
  shows "pworld_ok ((pid, h) # held) (upd_pool pid (upd_slot i init) w1)"
proof -
  let ?w = "upd_pool pid (upd_slot i init) w1"
  note i = taken_slot_facts [OF ok p t]
  have s: "same_slots q w w1" for q using t by (simp add: slot_taken_def core_same_slots)
  have sl: "p_slots p1 = p_slots p" "p_capacity p1 = p_capacity p" "length (p_slots p) = p_capacity p"
    using same_slotsD [OF s p1] p ok shape_pool [of w pid p] by (auto simp: pworld_ok_def pool_shape_def)
  have fw: "free_mset q ?w = free_mset q w1" for q by (rule free_upd_pool) simp
  have f: "free_mset pid w = add_mset i (free_mset pid w1)" using t by (simp add: slot_taken_def)
  have hi: "held_idx pid ((pid, h) # held) = i # held_idx pid held"
    using i by (simp add: held_idx_def h_def)
  have so: "slots_ok pid held w p" using ok p by (simp add: pworld_ok_def)
  show ?thesis
    unfolding pworld_ok_def
  proof (intro conjI allI impI ballI)
    show "shape_ok ?w" using t by (intro shape_upd_pool) (simp_all add: slot_taken_def)
    show "slots_ok q ((pid, h) # held) ?w r" if r: "w_pools ?w q = Some r" for q r
    proof (cases "q = pid")
      case True
      then have r': "r = upd_slot i init p1" using r p1 by simp
      have "\<forall>t \<in> set (p_slots r). task_inv t"
        using so i init(2) [of "p_slots p ! i"] unfolding r' slots_upd_slot sl
        by (intro ball_set_update) (auto simp: slots_ok_def sl(3))
      moreover have "\<forall>j \<in># free_mset pid ?w. t_state (p_slots r ! j) = Free"
        using so f fw i r' sl by (auto simp: slots_ok_def nth_list_update)
      ultimately show ?thesis
        using True so f fw [of pid] hi r' sl by (simp add: slots_ok_def)
    next
      case False
      have "slots_ok q held w1 r"
        using False r t ok by (intro slots_ok_same [OF _ s]) (auto simp: pworld_ok_def slot_taken_def)
      then show ?thesis using False fw [of q] by (simp add: slots_ok_def held_idx_def)
    qed
    show "case x of (q, k) \<Rightarrow> \<exists>r. w_pools ?w q = Some r \<and> get k r \<noteq> None"
      if xin: "x \<in> set ((pid, h) # held)" for x
    proof (cases "x = (pid, h)")
      case True
      have "get h p1 \<noteq> None" using i sl by (simp add: get_def h_def handle_valid_def)
      then show ?thesis using True p1 sl init(1) by (simp add: get_upd_slot)
    next
      case False
      then obtain q k where x: "x = (q, k)" "(q, k) \<in> set held" using xin by (cases x) auto
      then obtain r where "w_pools w1 q = Some r" "get k r \<noteq> None"
        using ok same_slots_get [OF s, of q k] by (fastforce simp: pworld_ok_def)
      then show ?thesis using x p1 sl init(1) by (cases "q = pid") (auto simp: get_upd_slot)
    qed
  qed
qed

lemma core_count: "core (upd_pool pid (count_acquire home) w) = core w"
  by (auto simp: core_def fun_eq_iff count_acquire_def split: option.split)
    (cases "w_pools w pid"; simp add: count_acquire_def)+

text \<open>The two outcomes of \<open>acquire\<close> and \<open>reserve\<close>.\<close>

lemma claim_slot_cases:
  assumes ok: "pworld_ok held w" and tid: "tid < length (w_caches w)" and p: "w_pools w pid = Some p"
    and init: "\<And>t. t_generation (init t) = t_generation t" "\<And>t. task_inv t \<Longrightarrow> task_inv (init t)"
  obtains (exhausted) w' where "claim_slot tid pid init w = Some (w', invalid_handle)"
      "pworld_ok held w'" "\<And>q. same_slots q w w'" "slot_taken tid pid w (w', None)"
      "length (w_caches w') = length (w_caches w)" "w_next w' = w_next w"
    | (taken) w1 w' i h where "claim_slot tid pid init w = Some (w', h)"
      "h = \<lparr>hindex = of_nat i, hgeneration = t_generation (p_slots p ! i)\<rparr>"
      "i < p_capacity p" "i \<in># free_mset pid w" "i \<notin> set (held_idx pid held)"
      "\<And>q. same_slots q w w1" "w' = upd_pool pid (upd_slot i init) w1" "pworld_ok ((pid, h) # held) w'"
      "length (w_caches w') = length (w_caches w)" "w_next w' = w_next w" "handle_valid h"
proof -
  let ?f = "count_acquire (w_home w ! tid)"
  let ?u = "upd_pool pid ?f w"
  have u: "pworld_ok held ?u" by (rule pworld_ok_upd [OF ok]) simp_all
  have pu: "w_pools ?u pid = Some (?f p)" using p by simp
  have su: "same_slots q w ?u" for q by (cases "w_pools w q") (auto simp: same_slots_def)
  obtain w1 r where t1: "take_free_slot tid pid ?u = (w1, r)" by fastforce
  have t: "slot_taken tid pid ?u (w1, r)"
    using take_free_slot_taken [OF _ _ pu, of tid] u tid t1 by (simp add: pworld_ok_def)
  then have c: "core w1 = core ?u" by (simp add: slot_taken_def)
  have s1: "same_slots q w w1" for q
    using su [of q] core_same_slots [OF c, of q] by (simp add: same_slots_def)
  have b: "length (w_caches w1) = length (w_caches w)" "w_next w1 = w_next w"
    using core_basics [OF c] by auto
  show thesis
  proof (cases r)
    case None
    have "slot_taken tid pid w (w1, None)"
      using t None free_upd_pool [of ?f _ pid w] by (auto simp: slot_taken_def core_count)
    then show thesis
      using exhausted [of w1] taken_none_ok [OF u, of tid pid w1] t t1 None s1 b
      by (simp add: claim_slot_def)
  next
    case (Some i)
    let ?h = "\<lparr>hindex = of_nat i, hgeneration = t_generation (p_slots p ! i)\<rparr>"
    note i = taken_slot_facts [OF u pu t [unfolded Some]]
    obtain p1 where p1: "w_pools w1 pid = Some p1" "p_slots p1 = p_slots p"
      using core_pool [OF c pu] by auto
    have "claim_slot tid pid init w = Some (upd_pool pid (upd_slot i init) w1, ?h)"
      using t1 Some p1 i by (simp add: claim_slot_def slot_at_def)
    moreover have "pworld_ok ((pid, ?h) # held) (upd_pool pid (upd_slot i init) w1)"
      using taken_slot_ok [OF u pu t [unfolded Some] p1(1) init] by simp
    ultimately show thesis
      using taken [of "upd_pool pid (upd_slot i init) w1" ?h i w1] i s1 b free_upd_pool [of ?f pid pid w]
      by (simp add: handle_valid_def)
  qed
qed

section \<open>\<open>release\<close>, \<open>publish\<close> and the end of a thread\<close>

lemma held_idx_remove:
  "(pid, h) \<in> set held \<Longrightarrow>
   mset (held_idx q held) =
     (if q = pid then add_mset (unat (hindex h)) (mset (held_idx q (remove1 (pid, h) held)))
      else mset (held_idx q (remove1 (pid, h) held)))"
  by (induction held) (auto simp: held_idx_def)

lemma held_distinct:
  assumes "pworld_ok held w" "w_pools w pid = Some p"
  shows "distinct (held_idx pid held)" "set (held_idx pid held) \<subseteq> {..<p_capacity p}"
    "\<forall>i \<in># free_mset pid w. i \<notin> set (held_idx pid held) \<and> i < p_capacity p"
proof -
  have "slots_ok pid held w p" "shape_ok w" using assms by (auto simp: pworld_ok_def)
  then have part: "pool.partitioned pid (mset [0..<p_capacity p]) (held_idx pid held) w"
    using assms(2) slots_ok_partitioned by blast
  then show "distinct (held_idx pid held)" "set (held_idx pid held) \<subseteq> {..<p_capacity p}"
    using pool.partitioned_fresh [OF part] by auto
  have "free_mset pid w \<subseteq># mset [0..<p_capacity p]"
    using part by (metis mset_subset_eq_add_left pool.partitioned_def)
  then show "\<forall>i \<in># free_mset pid w. i \<notin> set (held_idx pid held) \<and> i < p_capacity p"
    using pool.partitioned_fresh [OF part] by (auto dest: mset_subset_eqD)
qed

text \<open>A change of a held slot: invisible to the other held slots and to the free ones.\<close>

lemma held_upd_ok:
  assumes ok: "pworld_ok held w" and h: "(pid, h) \<in> set held" "w_pools w pid = Some p"
    and f: "\<forall>t. task_inv t \<longrightarrow> task_inv (f t)" and "i = unat (hindex h)" and k: "keeps_lists g"
  defines "w' \<equiv> upd_pool pid (g \<circ> upd_slot i f) w"
  shows "shape_ok w'" "\<And>q. free_mset q w' = free_mset q w"
    "\<forall>t \<in> set ((p_slots p)[i := f (p_slots p ! i)]). task_inv t"
    "\<forall>j \<in># free_mset pid w. t_state ((p_slots p)[i := f (p_slots p ! i)] ! j) = Free"
proof -
  have kl: "keeps_lists (g \<circ> upd_slot i f)" using k by simp
  have so: "slots_ok pid held w p" and sh: "shape_ok w" using ok h by (auto simp: pworld_ok_def)
  show "shape_ok w'" unfolding w'_def by (rule shape_upd_pool [OF kl sh])
  show "free_mset q w' = free_mset q w" for q unfolding w'_def by (rule free_upd_pool [OF kl])
  have i: "i \<in> set (held_idx pid held)"
    using h(1) \<open>i = unat (hindex h)\<close> by (force simp: held_idx_def image_iff)
  then have "i < length (p_slots p)"
    using held_distinct(2) [OF ok h(2)] shape_pool [OF sh h(2)] by (auto simp: pool_shape_def)
  then show "\<forall>t \<in> set ((p_slots p)[i := f (p_slots p ! i)]). task_inv t"
    using so f by (intro ball_set_update) (auto simp: slots_ok_def)
  have "\<forall>j \<in># free_mset pid w. i \<noteq> j" using i held_distinct(3) [OF ok h(2)] by auto
  then show "\<forall>j \<in># free_mset pid w. t_state ((p_slots p)[i := f (p_slots p ! i)] ! j) = Free"
    using so by (auto simp: slots_ok_def)
qed

lemma publish_ok:
  assumes ok: "pworld_ok held w" and h: "(pid, h) \<in> set held"
    and f: "\<And>t. task_inv t \<Longrightarrow> task_inv (f t)" "\<And>t. t_generation (f t) = t_generation t"
  shows "pworld_ok held (upd_pool pid (upd_slot (unat (hindex h)) f) w)"
proof -
  let ?w = "upd_pool pid (upd_slot (unat (hindex h)) f) w"
  obtain p where p: "w_pools w pid = Some p" using ok h by (auto simp: pworld_ok_def)
  have e: "upd_pool pid ((\<lambda>q. q) \<circ> upd_slot (unat (hindex h)) f) w = ?w" by (simp add: comp_def)
  have kl: "keeps_lists (\<lambda>q. q)" by (simp add: keeps_lists_def)
  have fi: "\<forall>t. task_inv t \<longrightarrow> task_inv (f t)" using f(1) by blast
  note u = held_upd_ok [OF ok h p fi refl kl, unfolded e]
  have sh: "pool_shape p" using ok p shape_pool by (auto simp: pworld_ok_def)
  show ?thesis
    unfolding pworld_ok_def
  proof (intro conjI allI impI ballI)
    show "shape_ok ?w" by (rule u(1))
    show "slots_ok q held ?w r" if r: "w_pools ?w q = Some r" for q r
    proof (cases "q = pid")
      case True
      then show ?thesis
        using u(2) [of pid] u(3,4) ok p r by (auto simp: slots_ok_def pworld_ok_def)
    next
      case False
      then show ?thesis
        using u(2) [of q] ok r by (auto simp: slots_ok_def pworld_ok_def)
    qed
    show "case x of (q, k) \<Rightarrow> \<exists>r. w_pools ?w q = Some r \<and> get k r \<noteq> None" if "x \<in> set held" for x
      using ok that p f(2) sh by (auto simp: pworld_ok_def get_upd_slot pool_shape_def split: prod.splits)
  qed
qed

lemma release_ok:
  assumes ok: "pworld_ok held w" and h: "(pid, h) \<in> set held" and tid: "tid < length (w_caches w)"
    and p: "w_pools w pid = Some p"
  obtains w' r where "release tid pid h w = Some w'" "pworld_ok (remove1 (pid, h) held) w'"
    "w_pools w' pid = Some r" "p_capacity r = p_capacity p"
    "p_slots r = (p_slots p)[unat (hindex h) := release_reset (p_slots p ! unat (hindex h))]"
    "\<And>q. q \<noteq> pid \<Longrightarrow> same_slots q w w'" "length (w_caches w') = length (w_caches w)"
    "w_next w' = w_next w" "unat (hindex h) < p_capacity p"
proof -
  let ?i = "unat (hindex h)"
  let ?g = "count_release (w_home w ! tid)"
  let ?u = "upd_pool pid (?g \<circ> upd_slot ?i release_reset) w"
  let ?w = "give_slot tid pid ?i ?u"
  have g: "get h p \<noteq> None" using ok h p by (fastforce simp: pworld_ok_def)
  then have i: "handle_valid h" "?i < p_capacity p" "t_generation (p_slots p ! ?i) = hgeneration h"
    unfolding get_not_none by auto
  have rel: "release tid pid h w = Some ?w" using p i by (simp add: release_def Let_def)
  have sl: "length (p_slots p) = p_capacity p"
    using ok p shape_pool by (auto simp: pworld_ok_def pool_shape_def)
  have fi: "\<forall>t :: 'a task. task_inv t \<longrightarrow> task_inv (release_reset t)" by simp
  note u = held_upd_ok [OF ok h p fi refl keeps_lists_intros(3)]
  have pu: "w_pools ?u pid = Some (?g (upd_slot ?i release_reset p))" using p by simp
  have tu: "tid < length (w_caches ?u)" using tid by simp
  have gv: "slot_given pid ?i ?u ?w" using give_slot_given [OF u(1) tu] pu by simp
  then have c: "core ?w = core ?u" by (simp add: slot_given_def)
  obtain r where r: "w_pools ?w pid = Some r" "p_capacity r = p_capacity p"
    "p_slots r = (p_slots p)[?i := release_reset (p_slots p ! ?i)]"
    using core_pool [OF c pu] by auto
  have same: "same_slots q w ?w" if "q \<noteq> pid" for q
    using core_same_slots [OF c, of q] that by (simp add: same_slots_def)
  note hm = held_idx_remove [OF h]
  have nodup: "?i \<notin> set (held_idx pid (remove1 (pid, h) held))"
    using held_distinct(1) [OF ok p] hm [of pid]
    by (metis distinct.simps(2) mset.simps(2) mset_eq_imp_distinct_iff)
  have "pworld_ok (remove1 (pid, h) held) ?w"
    unfolding pworld_ok_def
  proof (intro conjI allI impI ballI)
    show "shape_ok ?w" using gv by (simp add: slot_given_def)
    show "slots_ok q (remove1 (pid, h) held) ?w s" if s: "w_pools ?w q = Some s" for q s
    proof (cases "q = pid")
      case True
      have "free_mset pid ?w = add_mset ?i (free_mset pid w)" using gv u(2) by (simp add: slot_given_def)
      moreover have "slots_ok pid held w p" using ok p by (simp add: pworld_ok_def)
      ultimately show ?thesis
        using True s r u(3,4) hm [of pid] sl i by (auto simp: slots_ok_def)
    next
      case False
      have "slots_ok q held ?w s"
        using False gv u(2) ok s by (intro slots_ok_same [OF _ same]) (auto simp: pworld_ok_def slot_given_def)
      then show ?thesis using hm [of q] False by (simp add: slots_ok_def)
    qed
    show "case x of (q, k) \<Rightarrow> \<exists>s. w_pools ?w q = Some s \<and> get k s \<noteq> None"
      if x: "x \<in> set (remove1 (pid, h) held)" for x
    proof -
      obtain q k where qk: "x = (q, k)" by fastforce
      have "(q, k) \<in> set held" using x qk notin_set_remove1 by metis
      then have old: "\<exists>s. w_pools w q = Some s \<and> get k s \<noteq> None" using ok by (fastforce simp: pworld_ok_def)
      show ?thesis
      proof (cases "q = pid")
        case True
        then have "unat (hindex k) \<in> set (held_idx pid (remove1 (pid, h) held))"
          using x qk by (force simp: held_idx_def image_iff)
        then have "unat (hindex k) \<noteq> ?i" using nodup by metis
        then show ?thesis using old qk True p r by (auto simp: get_def split: if_splits)
      next
        case False
        then show ?thesis using same_slots_get [OF same old] qk by simp
      qed
    qed
  qed
  then show thesis
    using that [OF rel _ r(1,2,3) same] core_basics [OF c] i by simp
qed

end
