(* ===== verification/Runtime_Base.thy ===== *)
theory Runtime_Base
  imports Pool_Runs
begin

text \<open>
  \<open>runtime/RuntimeBase.hpp\<close> and \<open>.cpp\<close>: task lifetime, dependency resolution, completion, waiting
  and the degradation to inline execution, shared by both runtimes. A derived runtime supplies
  the virtual functions of \<open>vtable\<close>; task bodies are arbitrary user code, a function on the whole
  state that may end in an exception. Every operation is a step of the thread \<open>tid\<close> that calls it.
  \<open>None\<close> is a failed assertion, a call of an empty \<open>TaskFunction\<close>, or a wait that never returns.
\<close>

section \<open>State\<close>

definition kNoWaitedIndex :: u32 where
  "kNoWaitedIndex = 0xFFFFFFFF"

definition kMaxHandleWaiterSlots :: nat where
  "kMaxHandleWaiterSlots = 32"

datatype exn = StdException string | OtherException

text \<open>What the runtime does to the outside: messages on stderr, and \<open>completion_cv_.notify_all()\<close>.\<close>

datatype rt_event =
    UncaughtInTask u32 u32 string
  | UncaughtInline string
  | NotifyCompletion

record ('b, 'd) rtb =
  rb_config :: RuntimeConfig
  rb_world :: "'b pworld"
  rb_pid :: u64
  rb_own :: "u32 option list"
  rb_handle_waiters :: u32
  rb_all_waiters :: u32
  rb_wait_slots :: "u32 list"
  rb_overflow :: u32
  rb_outstanding :: u64
  rb_completed :: sharded_counter
  rb_inline :: sharded_counter
  rb_edges :: sharded_counter
  rb_presatisfied :: sharded_counter
  rb_uncaught :: sharded_counter
  rb_events :: "rt_event list"
  rb_disp :: 'd

text \<open>
  \<open>v_enqueue\<close> is \<open>enqueue_ready\<close> (of a calling thread that is worker \<open>i\<close>, or none), \<open>v_try\<close> is
  \<open>try_execute_one\<close>. \<open>v_call\<close> runs a body with its context; \<open>v_others\<close> is a step of the rest of the
  process while an external thread is blocked.
\<close>

record ('b, 'd) vtable =
  v_enqueue :: "u32 option \<Rightarrow> TaskHandle \<Rightarrow> TaskPriority \<Rightarrow> 'd \<Rightarrow> 'd"
  v_call :: "'b \<Rightarrow> nat \<Rightarrow> u32 \<Rightarrow> ('b, 'd) rtb \<Rightarrow> ('b, 'd) rtb \<times> exn option"
  v_try :: "nat \<Rightarrow> ('b, 'd) rtb \<Rightarrow> (('b, 'd) rtb \<times> bool) option"
  v_others :: "('b, 'd) rtb \<Rightarrow> ('b, 'd) rtb"

definition thread_home :: "nat \<Rightarrow> ('b, 'd) rtb \<Rightarrow> nat" where
  "thread_home tid rt = w_home (rb_world rt) ! tid"

definition on_own_worker :: "nat \<Rightarrow> ('b, 'd) rtb \<Rightarrow> u32 option" where
  "on_own_worker tid rt = rb_own rt ! tid"

definition context_index :: "nat \<Rightarrow> ('b, 'd) rtb \<Rightarrow> u32" where
  "context_index tid rt = (case on_own_worker tid rt of None \<Rightarrow> kExternalThread | Some i \<Rightarrow> i)"

text \<open>\<open>pool_.get(handle)\<close> and the slot it names.\<close>

definition rt_get :: "TaskHandle \<Rightarrow> ('b, 'd) rtb \<Rightarrow> nat option" where
  "rt_get h rt = Option.bind (w_pools (rb_world rt) (rb_pid rt)) (get h)"

definition rt_slot :: "nat \<Rightarrow> ('b, 'd) rtb \<Rightarrow> 'b task" where
  "rt_slot i rt = slot_at (rb_pid rt) i (rb_world rt)"

definition rt_upd :: "nat \<Rightarrow> ('b task \<Rightarrow> 'b task) \<Rightarrow> ('b, 'd) rtb \<Rightarrow> ('b, 'd) rtb" where
  "rt_upd i f rt = rt\<lparr>rb_world := upd_pool (rb_pid rt) (upd_slot i f) (rb_world rt)\<rparr>"

definition rt_enqueue :: "('b, 'd) vtable \<Rightarrow> nat \<Rightarrow> TaskHandle \<Rightarrow> TaskPriority \<Rightarrow> ('b, 'd) rtb \<Rightarrow> ('b, 'd) rtb" where
  "rt_enqueue v tid h priority rt =
     rt\<lparr>rb_disp := v_enqueue v (on_own_worker tid rt) h priority (rb_disp rt)\<rparr>"

definition resolve_worker_count :: "u32 \<Rightarrow> RuntimeConfig \<Rightarrow> u32" where
  "resolve_worker_count logical config =
     (if worker_count config \<noteq> 0 then worker_count config else if logical > 0 then logical else 1)"

text \<open>The constructor; \<open>homes\<close> are the \<open>thread_slot()\<close> values of the threads of the process.\<close>

definition rtb_new :: "RuntimeConfig \<Rightarrow> nat list \<Rightarrow> u32 option list \<Rightarrow> 'd \<Rightarrow> ('b, 'd) rtb" where
  "rtb_new config homes own disp =
     (case construct_pool (unat (task_capacity config)) (opt_set config kOptThreadCache)
             (process_start homes) of
        (w, pid) \<Rightarrow>
          \<lparr>rb_config = config, rb_world = w, rb_pid = pid, rb_own = own,
           rb_handle_waiters = 0, rb_all_waiters = 0,
           rb_wait_slots = replicate kMaxHandleWaiterSlots kNoWaitedIndex, rb_overflow = 0,
           rb_outstanding = 0, rb_completed = sc_new, rb_inline = sc_new, rb_edges = sc_new,
           rb_presatisfied = sc_new, rb_uncaught = sc_new, rb_events = [], rb_disp = disp\<rparr>)"

section \<open>Completion\<close>

definition record_uncaught_exception ::
    "nat \<Rightarrow> TaskHandle \<Rightarrow> exn \<Rightarrow> ('b, 'd) rtb \<Rightarrow> ('b, 'd) rtb" where
  "record_uncaught_exception tid h e rt =
     (let what = (case e of StdException s \<Rightarrow> s | OtherException \<Rightarrow> ''non-std::exception value'') in
      rt\<lparr>rb_uncaught := sc_increment (thread_home tid rt) (rb_uncaught rt),
         rb_events := rb_events rt @
           [if handle_valid h then UncaughtInTask (hindex h) (hgeneration h) what else UncaughtInline what]\<rparr>)"

definition is_complete_internal :: "TaskHandle \<Rightarrow> ('b, 'd) rtb \<Rightarrow> bool" where
  "is_complete_internal h rt =
     (if \<not> handle_valid h then True
      else case rt_get h rt of
        None \<Rightarrow> True
      | Some i \<Rightarrow>
          (if t_generation (rt_slot i rt) \<noteq> hgeneration h then True
           else t_state (rt_slot i rt) = Completed))"

definition release_dependent :: "('b, 'd) vtable \<Rightarrow> nat \<Rightarrow> TaskHandle \<Rightarrow> ('b, 'd) rtb \<Rightarrow> ('b, 'd) rtb" where
  "release_dependent v tid dependent rt =
     (case rt_get dependent rt of
        None \<Rightarrow> rt
      | Some i \<Rightarrow>
          (let old = t_pending (rt_slot i rt);
               rt1 = rt_upd i (\<lambda>t. t\<lparr>t_pending := t_pending t - 1\<rparr>) rt
           in if old = 1
              then rt_enqueue v tid dependent (t_priority (rt_slot i rt1))
                     (rt_upd i (\<lambda>t. t\<lparr>t_state := Queued\<rparr>) rt1)
              else rt1))"

text \<open>Whether a completion notifies: \<open>remaining\<close> is what is left outstanding.\<close>

definition wake_handle_waiters :: "u32 \<Rightarrow> ('b, 'd) rtb \<Rightarrow> bool" where
  "wake_handle_waiters index rt \<longleftrightarrow> rb_handle_waiters rt \<noteq> 0 \<and>
     (rb_overflow rt \<noteq> 0 \<or> List.find (\<lambda>slot. slot = index) (rb_wait_slots rt) \<noteq> None)"

definition wake_all_waiters :: "u64 \<Rightarrow> ('b, 'd) rtb \<Rightarrow> bool" where
  "wake_all_waiters remaining rt \<longleftrightarrow> remaining = 0 \<and> rb_all_waiters rt \<noteq> 0"

definition complete :: "('b, 'd) vtable \<Rightarrow> nat \<Rightarrow> TaskHandle \<Rightarrow> ('b, 'd) rtb \<Rightarrow> ('b, 'd) rtb option" where
  "complete v tid h rt =
     (case rt_get h rt of
        None \<Rightarrow> None
      | Some i \<Rightarrow>
          (let successors = snd (take_successors (rt_slot i rt));
               rt1 = rt_upd i (\<lambda>t. fst (take_successors t)) rt;
               rt2 = rt_upd i (\<lambda>t. t\<lparr>t_state := Completed\<rparr>) rt1
           in case release tid (rb_pid rt) h (rb_world rt2) of
                None \<Rightarrow> None
              | Some w \<Rightarrow>
                  (let rt3 = fold (release_dependent v tid) successors (rt2\<lparr>rb_world := w\<rparr>);
                       remaining = rb_outstanding rt3 - 1;
                       rt4 = rt3\<lparr>rb_completed := sc_increment (thread_home tid rt3) (rb_completed rt3),
                                 rb_outstanding := remaining\<rparr>
                   in Some (if wake_handle_waiters (hindex h) rt4 \<or> wake_all_waiters remaining rt4
                            then rt4\<lparr>rb_events := rb_events rt4 @ [NotifyCompletion]\<rparr>
                            else rt4))))"

definition execute :: "('b, 'd) vtable \<Rightarrow> nat \<Rightarrow> TaskHandle \<Rightarrow> ('b, 'd) rtb \<Rightarrow> ('b, 'd) rtb option" where
  "execute v tid h rt =
     (case rt_get h rt of
        None \<Rightarrow> None
      | Some i \<Rightarrow>
          (let previous = t_state (rt_slot i rt);
               rt1 = rt_upd i (\<lambda>t. t\<lparr>t_state := Executing\<rparr>) rt
           in if \<not> (previous = Queued \<or> previous = Ready) then None
              else case t_function (rt_slot i rt1) of
                None \<Rightarrow> None
              | Some f \<Rightarrow>
                  (case v_call v f tid (context_index tid rt1) rt1 of
                     (rt2, None) \<Rightarrow> complete v tid h rt2
                   | (rt2, Some e) \<Rightarrow> complete v tid h (record_uncaught_exception tid h e rt2))))"

definition run_inline :: "('b, 'd) vtable \<Rightarrow> nat \<Rightarrow> 'b TaskDesc \<Rightarrow> ('b, 'd) rtb \<Rightarrow> ('b, 'd) rtb" where
  "run_inline v tid desc rt =
     (let rt1 = rt\<lparr>rb_inline := sc_increment (thread_home tid rt) (rb_inline rt)\<rparr>;
          rt2 = (case dfunction desc of
                   None \<Rightarrow> rt1
                 | Some f \<Rightarrow>
                     (case v_call v f tid (context_index tid rt1) rt1 of
                        (rt', None) \<Rightarrow> rt'
                      | (rt', Some e) \<Rightarrow> record_uncaught_exception tid invalid_handle e rt'))
      in rt2\<lparr>rb_outstanding := rb_outstanding rt2 - 1\<rparr>)"

section \<open>Waiting\<close>

definition register_handle_waiter :: "u32 \<Rightarrow> ('b, 'd) rtb \<Rightarrow> ('b, 'd) rtb \<times> nat" where
  "register_handle_waiter index rt =
     (case List.find (\<lambda>i. rb_wait_slots rt ! i = kNoWaitedIndex) [0..<kMaxHandleWaiterSlots] of
        Some i \<Rightarrow> (rt\<lparr>rb_wait_slots := (rb_wait_slots rt)[i := index]\<rparr>, i)
      | None \<Rightarrow> (rt\<lparr>rb_overflow := rb_overflow rt + 1\<rparr>, kMaxHandleWaiterSlots))"

definition unregister_handle_waiter :: "nat \<Rightarrow> ('b, 'd) rtb \<Rightarrow> ('b, 'd) rtb" where
  "unregister_handle_waiter slot rt =
     (if slot < kMaxHandleWaiterSlots
      then rt\<lparr>rb_wait_slots := (rb_wait_slots rt)[slot := kNoWaitedIndex]\<rparr>
      else rt\<lparr>rb_overflow := rb_overflow rt - 1\<rparr>)"

text \<open>\<open>while (!pred) { if (!try_execute_one(ctx)) yield(); }\<close>\<close>

partial_function (option) help_loop ::
    "('b, 'd) vtable \<Rightarrow> (('b, 'd) rtb \<Rightarrow> bool) \<Rightarrow> nat \<Rightarrow> ('b, 'd) rtb \<Rightarrow> ('b, 'd) rtb option" where
  "help_loop v pred tid rt =
     (if pred rt then Some rt
      else Option.bind (v_try v tid rt) (\<lambda>r. help_loop v pred tid (fst r)))"

declare help_loop.simps [code]

text \<open>\<open>completion_cv_.wait(lock, pred)\<close>: the rest of the process runs until the predicate holds.\<close>

partial_function (option) block_until ::
    "('b, 'd) vtable \<Rightarrow> (('b, 'd) rtb \<Rightarrow> bool) \<Rightarrow> ('b, 'd) rtb \<Rightarrow> ('b, 'd) rtb option" where
  "block_until v pred rt = (if pred rt then Some rt else block_until v pred (v_others v rt))"

declare block_until.simps [code]

definition rt_wait :: "('b, 'd) vtable \<Rightarrow> nat \<Rightarrow> TaskHandle \<Rightarrow> ('b, 'd) rtb \<Rightarrow> ('b, 'd) rtb option" where
  "rt_wait v tid h rt =
     (if is_complete_internal h rt then Some rt
      else if on_own_worker tid rt \<noteq> None then help_loop v (is_complete_internal h) tid rt
      else
        (case register_handle_waiter (hindex h) rt of
           (rt1, slot) \<Rightarrow>
             map_option
               (\<lambda>rt2. unregister_handle_waiter slot (rt2\<lparr>rb_handle_waiters := rb_handle_waiters rt2 - 1\<rparr>))
               (block_until v (is_complete_internal h)
                  (rt1\<lparr>rb_handle_waiters := rb_handle_waiters rt1 + 1\<rparr>))))"

definition rt_wait_all :: "('b, 'd) vtable \<Rightarrow> nat \<Rightarrow> ('b, 'd) rtb \<Rightarrow> ('b, 'd) rtb option" where
  "rt_wait_all v tid rt =
     (if rb_outstanding rt = 0 then Some rt
      else if on_own_worker tid rt \<noteq> None then help_loop v (\<lambda>r. rb_outstanding r = 0) tid rt
      else map_option (\<lambda>rt2. rt2\<lparr>rb_all_waiters := rb_all_waiters rt2 - 1\<rparr>)
             (block_until v (\<lambda>r. rb_outstanding r = 0)
                (rt\<lparr>rb_all_waiters := rb_all_waiters rt + 1\<rparr>)))"

section \<open>Submission\<close>

definition count_outstanding :: "('b, 'd) rtb \<Rightarrow> ('b, 'd) rtb" where
  "count_outstanding rt = rt\<lparr>rb_outstanding := rb_outstanding rt + 1\<rparr>"

definition submit ::
    "('b, 'd) vtable \<Rightarrow> nat \<Rightarrow> 'b TaskDesc \<Rightarrow> ('b, 'd) rtb \<Rightarrow> (('b, 'd) rtb \<times> TaskHandle) option" where
  "submit v tid desc rt =
     (let priority = dpriority desc; rt1 = count_outstanding rt in
      case acquire tid (rb_pid rt1) desc (rb_world rt1) of
        None \<Rightarrow> None
      | Some (w, h) \<Rightarrow>
          (let rt2 = rt1\<lparr>rb_world := w\<rparr> in
           if \<not> handle_valid h then Some (run_inline v tid desc rt2, invalid_handle)
           else case rt_get h rt2 of
             None \<Rightarrow> None
           | Some i \<Rightarrow>
               Some (rt_enqueue v tid h priority (rt_upd i (\<lambda>t. t\<lparr>t_state := Queued\<rparr>) rt2), h)))"

text \<open>
  \<open>submit_emplace\<close>: \<open>construct\<close> builds the body (\<open>Inr\<close>) or throws (\<open>Inl\<close>); the exception is
  handed to the caller.
\<close>

definition submit_emplace ::
    "('b, 'd) vtable \<Rightarrow> nat \<Rightarrow> exn + 'b \<Rightarrow> TaskPriority \<Rightarrow> ('b, 'd) rtb \<Rightarrow>
     (('b, 'd) rtb \<times> (exn + TaskHandle)) option" where
  "submit_emplace v tid construct priority rt =
     (let rt1 = count_outstanding rt in
      case reserve tid (rb_pid rt1) priority (rb_world rt1) of
        None \<Rightarrow> None
      | Some (w, h) \<Rightarrow>
          (let rt2 = rt1\<lparr>rb_world := w\<rparr> in
           if \<not> handle_valid h then
             (case construct of
                Inl e \<Rightarrow> Some (rt2\<lparr>rb_outstanding := rb_outstanding rt2 - 1\<rparr>, Inl e)
              | Inr f \<Rightarrow> Some (run_inline v tid (make_desc (Some f) priority) rt2, Inr invalid_handle))
           else
             (case construct of
                Inl e \<Rightarrow>
                  map_option (\<lambda>w'. (rt2\<lparr>rb_world := w', rb_outstanding := rb_outstanding rt2 - 1\<rparr>, Inl e))
                    (release tid (rb_pid rt2) h (rb_world rt2))
              | Inr f \<Rightarrow>
                  (let i = unat (hindex h);
                       rt3 = rt_upd i (\<lambda>t. t\<lparr>t_function := Some f\<rparr>) rt2;
                       rt4 = rt3\<lparr>rb_world := publish (rb_pid rt3) i Queued (rb_world rt3)\<rparr>
                   in Some (rt_enqueue v tid h priority rt4, Inr h)))))"

text \<open>One iteration of the registration loop of \<open>submit_after\<close>; \<open>i\<close> is the new task's slot.\<close>

definition register_dependency ::
    "nat \<Rightarrow> nat \<Rightarrow> TaskHandle \<Rightarrow> TaskHandle \<Rightarrow> ('b, 'd) rtb \<Rightarrow> ('b, 'd) rtb" where
  "register_dependency tid i h dependency rt =
     (let rt1 = rt\<lparr>rb_edges := sc_increment (thread_home tid rt) (rb_edges rt)\<rparr> in
      case rt_get dependency rt1 of
        Some j \<Rightarrow>
          (if snd (try_add_successor h (hgeneration dependency) (rt_slot j rt1))
           then rt_upd j (\<lambda>t. fst (try_add_successor h (hgeneration dependency) t)) rt1
           else rt_upd i (\<lambda>t. t\<lparr>t_pending := t_pending t - 1\<rparr>)
                  (rt1\<lparr>rb_presatisfied := sc_increment (thread_home tid rt1) (rb_presatisfied rt1)\<rparr>))
      | None \<Rightarrow>
          rt_upd i (\<lambda>t. t\<lparr>t_pending := t_pending t - 1\<rparr>)
            (rt1\<lparr>rb_presatisfied := sc_increment (thread_home tid rt1) (rb_presatisfied rt1)\<rparr>))"

definition submit_after ::
    "('b, 'd) vtable \<Rightarrow> nat \<Rightarrow> 'b TaskDesc \<Rightarrow> TaskHandle list \<Rightarrow> ('b, 'd) rtb \<Rightarrow>
     (('b, 'd) rtb \<times> TaskHandle) option" where
  "submit_after v tid desc dependencies rt =
     (if dependencies = [] then submit v tid desc rt
      else
        (let priority = dpriority desc; rt1 = count_outstanding rt in
         case acquire tid (rb_pid rt1) desc (rb_world rt1) of
           None \<Rightarrow> None
         | Some (w, h) \<Rightarrow>
             (let rt2 = rt1\<lparr>rb_world := w\<rparr> in
              if \<not> handle_valid h then
                map_option (\<lambda>rt3. (run_inline v tid desc rt3, invalid_handle))
                  (fold (\<lambda>d r. Option.bind r (rt_wait v tid d)) dependencies (Some rt2))
              else case rt_get h rt2 of
                None \<Rightarrow> None
              | Some i \<Rightarrow>
                  (let rt3 = rt_upd i (\<lambda>t. t\<lparr>t_state := Waiting\<rparr>) rt2;
                       rt4 = rt_upd i (\<lambda>t. t\<lparr>t_pending := of_nat (length dependencies) + 1\<rparr>) rt3;
                       rt5 = fold (register_dependency tid i h) dependencies rt4;
                       old = t_pending (rt_slot i rt5);
                       rt6 = rt_upd i (\<lambda>t. t\<lparr>t_pending := t_pending t - 1\<rparr>) rt5
                   in Some (if old = 1
                            then (rt_enqueue v tid h priority (rt_upd i (\<lambda>t. t\<lparr>t_state := Queued\<rparr>) rt6), h)
                            else (rt6, h))))))"

section \<open>Diagnostics\<close>

fun state_name :: "TaskState \<Rightarrow> string" where
  "state_name Free = ''Free''"
| "state_name Created = ''Created''"
| "state_name Waiting = ''Waiting''"
| "state_name Ready = ''Ready''"
| "state_name Queued = ''Queued''"
| "state_name Claimed = ''Claimed''"
| "state_name Executing = ''Executing''"
| "state_name Completed = ''Completed''"

text \<open>The lines of \<open>dump_outstanding\<close>: at most 32 slots that are not free.\<close>

definition dump_outstanding :: "'b pool \<Rightarrow> (nat \<times> string \<times> u32 \<times> u32) list" where
  "dump_outstanding p =
     take 32 (map (\<lambda>i. let t = p_slots p ! i in (i, state_name (t_state t), t_pending t, t_generation t))
       (filter (\<lambda>i. t_state (p_slots p ! i) \<noteq> Free) [0..<p_capacity p]))"

end
