(* ===== verification/Runtime_Correct.thy ===== *)
theory Runtime_Correct
  imports Runtime_Base
begin

text \<open>
  The invariant of the shared runtime machinery, over any dispatcher (locale \<open>dispatcher\<close>) and any
  user code that uses the runtime only through its operations. It says that no task is lost or
  run twice, that a task becomes ready exactly when its last dependency completes, and that
  \<open>outstanding_\<close> is exact.
\<close>

section \<open>The interface of a derived runtime\<close>

text \<open>
  \<open>content\<close> is what the dispatch structures hold; \<open>caller\<close> says which threads may enqueue (a
  worker index has to be one of the runtime's).
\<close>

locale dispatcher =
  fixes dinv :: "'d \<Rightarrow> bool"
    and content :: "'d \<Rightarrow> TaskHandle multiset"
    and caller :: "'d \<Rightarrow> u32 option \<Rightarrow> bool"
    and enq :: "u32 option \<Rightarrow> TaskHandle \<Rightarrow> TaskPriority \<Rightarrow> 'd \<Rightarrow> 'd"
  assumes enq_inv: "dinv d \<Longrightarrow> caller d c \<Longrightarrow> handle_valid h \<Longrightarrow> dinv (enq c h p d)"
    and enq_content: "dinv d \<Longrightarrow> caller d c \<Longrightarrow> handle_valid h \<Longrightarrow>
      content (enq c h p d) = add_mset h (content d)"
    and enq_caller: "caller (enq c h p d) c' \<longleftrightarrow> caller d c'"

section \<open>The invariant\<close>

text \<open>The slot of a handle, and the number of registered edges that end in a task.\<close>

definition slot_of :: "('b, 'd) rtb \<Rightarrow> TaskHandle \<Rightarrow> 'b task" where
  "slot_of rt h = rt_slot (unat (hindex h)) rt"

definition edges_to :: "TaskHandle list \<Rightarrow> ('b, 'd) rtb \<Rightarrow> TaskHandle \<Rightarrow> nat" where
  "edges_to H rt h = (\<Sum>k\<leftarrow>H. count_list (succs (slot_of rt k)) h)"

text \<open>
  \<open>H\<close>: the unfinished tasks, newest first.\<close>

definition rt_base :: "TaskHandle list \<Rightarrow> ('b, 'd) rtb \<Rightarrow> bool" where
  "rt_base H rt \<longleftrightarrow> pworld_ok (map (Pair (rb_pid rt)) H) (rb_world rt) \<and>
     w_pools (rb_world rt) (rb_pid rt) \<noteq> None"

text \<open>
  An edge leads from a task to a newer one, so that the edges form no cycle.
  \<open>E\<close>: decrements of \<open>pending_dependencies\<close> that are still to be made (the guard and the edges of
  a registration in progress, the successors a completion has taken over).
\<close>

definition rt_tasks :: "TaskHandle list \<Rightarrow> TaskHandle list \<Rightarrow> ('b, 'd) rtb \<Rightarrow> bool" where
  "rt_tasks H E rt \<longleftrightarrow>
     (\<forall>h \<in> set H. let t = slot_of rt h in
        \<not> t_closed t \<and> t_function t \<noteq> None \<and> t_state t \<in> {Waiting, Queued, Executing} \<and>
        unat (t_pending t) = edges_to H rt h + count_list E h \<and>
        (t_state t = Waiting \<longleftrightarrow> t_pending t \<noteq> 0)) \<and>
     (\<forall>h \<in> set H. set (succs (slot_of rt h)) \<subseteq> set H - {h}) \<and>
     sorted_wrt (\<lambda>a b. b \<notin> set (succs (slot_of rt a))) H \<and> set E \<subseteq> set H"

definition queued :: "TaskHandle list \<Rightarrow> ('b, 'd) rtb \<Rightarrow> TaskHandle list" where
  "queued H rt = filter (\<lambda>h. t_state (slot_of rt h) = Queued) H"

text \<open>
  \<open>Q\<close>: tasks a thread has taken from the dispatcher and not begun; \<open>n\<close>: tasks running inline.
\<close>

definition rt_inv ::
    "('d \<Rightarrow> bool) \<Rightarrow> ('d \<Rightarrow> TaskHandle multiset) \<Rightarrow> ('d \<Rightarrow> u32 option \<Rightarrow> bool) \<Rightarrow>
     TaskHandle list \<Rightarrow> TaskHandle multiset \<Rightarrow> nat \<Rightarrow> TaskHandle list \<Rightarrow> ('b, 'd) rtb \<Rightarrow> bool" where
  "rt_inv dinv content caller H Q n E rt \<longleftrightarrow> rt_base H rt \<and> rt_tasks H E rt \<and>
     dinv (rb_disp rt) \<and> mset (queued H rt) = content (rb_disp rt) + Q \<and>
     rb_outstanding rt = of_nat (length H + n) \<and>
     length (rb_own rt) = length (w_caches (rb_world rt)) \<and>
     (\<forall>c \<in> set (rb_own rt). caller (rb_disp rt) c)"

definition thread_ok :: "nat \<Rightarrow> ('b, 'd) rtb \<Rightarrow> bool" where
  "thread_ok tid rt \<longleftrightarrow> tid < length (rb_own rt)"

section \<open>Slots of unfinished tasks\<close>

lemma held_idx_map: "held_idx pid (map (Pair pid) H) = map (\<lambda>h. unat (hindex h)) H"
  by (induction H) (auto simp: held_idx_def)

lemma rt_base_facts:
  assumes "rt_base H rt"
  shows "distinct (map (\<lambda>h. unat (hindex h)) H)"
    and "h \<in> set H \<Longrightarrow> rt_get h rt = Some (unat (hindex h))"
    and "h \<in> set H \<Longrightarrow> t_generation (slot_of rt h) = hgeneration h \<and> handle_valid h"
    and "h \<in> set H \<Longrightarrow> task_inv (slot_of rt h)"
proof -
  obtain p where p: "w_pools (rb_world rt) (rb_pid rt) = Some p" using assms by (auto simp: rt_base_def)
  have ok: "pworld_ok (map (Pair (rb_pid rt)) H) (rb_world rt)" using assms by (simp add: rt_base_def)
  show "distinct (map (\<lambda>h. unat (hindex h)) H)"
    using held_distinct(1) [OF ok p] by (simp add: held_idx_map)
  have g: "get h p \<noteq> None" if "h \<in> set H" for h using ok p that by (fastforce simp: pworld_ok_def)
  show "rt_get h rt = Some (unat (hindex h))" if "h \<in> set H"
    using g [OF that] p by (auto simp: rt_get_def get_def split: if_splits)
  show "t_generation (slot_of rt h) = hgeneration h \<and> handle_valid h" if "h \<in> set H"
    using g [OF that] p by (auto simp: slot_of_def rt_slot_def slot_at_def get_def split: if_splits)
  have "\<forall>t \<in> set (p_slots p). task_inv t" "length (p_slots p) = p_capacity p"
    using ok p shape_pool [of "rb_world rt"] by (auto simp: pworld_ok_def slots_ok_def pool_shape_def)
  then show "task_inv (slot_of rt h)" if "h \<in> set H"
    using g [OF that] p by (auto simp: slot_of_def rt_slot_def slot_at_def get_def split: if_splits)
qed

lemma idx_inj: "rt_base H rt \<Longrightarrow> h \<in> set H \<Longrightarrow> k \<in> set H \<Longrightarrow>
    unat (hindex h) = unat (hindex k) \<longleftrightarrow> h = k"
  using rt_base_facts(1) by (auto simp: distinct_map inj_on_def)

lemma rt_base_distinct: "rt_base H rt \<Longrightarrow> distinct H"
  using rt_base_facts(1) distinct_map by blast

lemma rt_upd_sel [simp]:
  "rb_pid (rt_upd i f rt) = rb_pid rt" "rb_disp (rt_upd i f rt) = rb_disp rt"
  "rb_own (rt_upd i f rt) = rb_own rt" "rb_outstanding (rt_upd i f rt) = rb_outstanding rt"
  "w_caches (rb_world (rt_upd i f rt)) = w_caches (rb_world rt)"
  "w_home (rb_world (rt_upd i f rt)) = w_home (rb_world rt)"
  by (simp_all add: rt_upd_def)

lemma rt_upd_base:
  assumes "rt_base H rt" "h \<in> set H" "\<And>t. task_inv t \<Longrightarrow> task_inv (f t)"
    "\<And>t. t_generation (f t) = t_generation t"
  shows "rt_base H (rt_upd (unat (hindex h)) f rt)"
  using assms publish_ok [of "map (Pair (rb_pid rt)) H" "rb_world rt" "rb_pid rt" h f]
  by (auto simp: rt_base_def rt_upd_def)

lemma slot_of_upd:
  assumes "rt_base H rt" "h \<in> set H" "k \<in> set H"
  shows "slot_of (rt_upd (unat (hindex h)) f rt) k = (if k = h then f (slot_of rt h) else slot_of rt k)"
proof -
  obtain p where p: "w_pools (rb_world rt) (rb_pid rt) = Some p" using assms by (auto simp: rt_base_def)
  have ok: "pworld_ok (map (Pair (rb_pid rt)) H) (rb_world rt)" using assms by (simp add: rt_base_def)
  have "unat (hindex h) < p_capacity p" using held_distinct(2) [OF ok p] assms(2) by (auto simp: held_idx_map)
  moreover have "length (p_slots p) = p_capacity p"
    using ok p shape_pool [of "rb_world rt"] by (auto simp: pworld_ok_def pool_shape_def)
  ultimately show ?thesis
    using p idx_inj [OF assms(1-3)]
    by (auto simp: slot_of_def rt_slot_def slot_at_def rt_upd_def nth_list_update)
qed

lemma upd_slot_twice: "upd_slot i f (upd_slot i g p) = upd_slot i (\<lambda>t. f (g t)) p"
  by (cases "i < length (p_slots p)") (simp_all add: upd_slot_def list_update_beyond)

lemma rt_upd_twice: "rt_upd i f (rt_upd i g rt) = rt_upd i (\<lambda>t. f (g t)) rt"
  by (simp add: rt_upd_def upd_pool_def option.map_comp comp_def upd_slot_twice)

lemma edges_to_cong:
  "(\<And>k. k \<in> set H \<Longrightarrow> succs (slot_of rt' k) = succs (slot_of rt k)) \<Longrightarrow> edges_to H rt' h = edges_to H rt h"
  by (simp add: edges_to_def cong: map_cong)

lemma queued_cong:
  "(\<And>k. k \<in> set H \<Longrightarrow> t_state (slot_of rt' k) = t_state (slot_of rt k)) \<Longrightarrow> queued H rt' = queued H rt"
  by (simp add: queued_def cong: filter_cong)

text \<open>Fields the invariant does not look at.\<close>

lemma slot_of_world: "rb_world rt' = rb_world rt \<Longrightarrow> rb_pid rt' = rb_pid rt \<Longrightarrow> slot_of rt' = slot_of rt"
  by (rule ext) (simp add: slot_of_def rt_slot_def)

lemma rt_inv_frame:
  assumes "rb_world rt' = rb_world rt" "rb_pid rt' = rb_pid rt" "rb_disp rt' = rb_disp rt"
    "rb_outstanding rt' = rb_outstanding rt" "rb_own rt' = rb_own rt"
  shows "rt_inv dinv content caller H Q n E rt' \<longleftrightarrow> rt_inv dinv content caller H Q n E rt"
  using assms slot_of_world [OF assms(1,2)]
  by (simp add: rt_inv_def rt_base_def rt_tasks_def edges_to_def queued_def)

section \<open>One decrement\<close>

text \<open>
  The step shared by \<open>release_dependent\<close> and the end of \<open>submit_after\<close>: decrement, and enqueue on
  the transition to zero.
\<close>

definition drop_edge :: "('b, 'd) vtable \<Rightarrow> nat \<Rightarrow> TaskHandle \<Rightarrow> TaskPriority \<Rightarrow> ('b, 'd) rtb \<Rightarrow> ('b, 'd) rtb" where
  "drop_edge v tid h p rt =
     (let i = unat (hindex h); rt1 = rt_upd i (\<lambda>t. t\<lparr>t_pending := t_pending t - 1\<rparr>) rt in
      if t_pending (rt_slot i rt) = 1
      then rt_enqueue v tid h p (rt_upd i (\<lambda>t. t\<lparr>t_state := Queued\<rparr>) rt1) else rt1)"

lemma mset_filter_change:
  "distinct H \<Longrightarrow> h \<in> set H \<Longrightarrow> \<not> P h \<Longrightarrow> Q h \<Longrightarrow> (\<And>k. k \<in> set H \<Longrightarrow> k \<noteq> h \<Longrightarrow> Q k = P k) \<Longrightarrow>
   mset (filter Q H) = add_mset h (mset (filter P H))"
proof (induction H)
  case (Cons k H)
  show ?case
  proof (cases "k = h")
    case True
    then have "filter Q H = filter P H" using Cons.prems by (intro filter_cong) auto
    then show ?thesis using True Cons.prems by simp
  next
    case False
    then show ?thesis using Cons by auto
  qed
qed simp

lemma rt_tasksD:
  assumes "rt_tasks H E rt" "h \<in> set H"
  shows "\<not> t_closed (slot_of rt h)" "t_function (slot_of rt h) \<noteq> None"
    "t_state (slot_of rt h) \<in> {Waiting, Queued, Executing}"
    "unat (t_pending (slot_of rt h)) = edges_to H rt h + count_list E h"
    "t_state (slot_of rt h) = Waiting \<longleftrightarrow> t_pending (slot_of rt h) \<noteq> 0"
  using assms by (auto simp: rt_tasks_def Let_def)

lemma rt_tasks_succs: "rt_tasks H E rt \<Longrightarrow> h \<in> set H \<Longrightarrow> set (succs (slot_of rt h)) \<subseteq> set H - {h}"
  by (simp add: rt_tasks_def)

lemma rt_tasks_change:
  assumes T: "rt_tasks H E rt" and h: "h \<in> set H"
    and s: "\<And>k. k \<in> set H \<Longrightarrow> slot_of rt' k = (if k = h then t' else slot_of rt k)"
    and t': "succs t' = succs (slot_of rt h)" "\<not> t_closed t'" "t_function t' \<noteq> None"
      "t_state t' \<in> {Waiting, Queued, Executing}"
      "unat (t_pending t') = edges_to H rt h + count_list E' h" "t_state t' = Waiting \<longleftrightarrow> t_pending t' \<noteq> 0"
    and E': "\<And>k. k \<noteq> h \<Longrightarrow> count_list E' k = count_list E k" "set E' \<subseteq> set H"
  shows "rt_tasks H E' rt'"
proof -
  have sc: "succs (slot_of rt' k) = succs (slot_of rt k)" if "k \<in> set H" for k
    using s [OF that] t'(1) by simp
  have e: "edges_to H rt' k = edges_to H rt k" for k by (rule edges_to_cong) (rule sc)
  have "let t = slot_of rt' k in
        \<not> t_closed t \<and> t_function t \<noteq> None \<and> t_state t \<in> {Waiting, Queued, Executing} \<and>
        unat (t_pending t) = edges_to H rt' k + count_list E' k \<and> (t_state t = Waiting \<longleftrightarrow> t_pending t \<noteq> 0)"
    if k: "k \<in> set H" for k
  proof (cases "k = h")
    case True
    then show ?thesis using s [OF k] t' e by (simp add: Let_def)
  next
    case False
    then show ?thesis using s [OF k] rt_tasksD [OF T k] e E'(1) [OF False] by (simp add: Let_def)
  qed
  moreover have "\<forall>k \<in> set H. set (succs (slot_of rt' k)) \<subseteq> set H - {k}"
    using T sc by (simp add: rt_tasks_def)
  moreover have "sorted_wrt (\<lambda>a b. b \<notin> set (succs (slot_of rt a))) H"
    using T by (simp add: rt_tasks_def)
  then have "sorted_wrt (\<lambda>a b. b \<notin> set (succs (slot_of rt' a))) H"
    by (rule sorted_wrt_mono_rel [rotated]) (simp add: sc)
  ultimately show ?thesis using E'(2) unfolding rt_tasks_def by blast
qed

context dispatcher
begin

abbreviation inv :: "TaskHandle list \<Rightarrow> TaskHandle multiset \<Rightarrow> nat \<Rightarrow> TaskHandle list \<Rightarrow> ('b, 'd) rtb \<Rightarrow> bool" where
  "inv \<equiv> rt_inv dinv content caller"

lemma thread_caller: "inv H Q n E rt \<Longrightarrow> thread_ok tid rt \<Longrightarrow> caller (rb_disp rt) (rb_own rt ! tid)"
  by (simp add: rt_inv_def thread_ok_def)

lemma drop_edge_inv:
  assumes inv: "inv H Q n (h # E) rt" and tid: "thread_ok tid rt" and v: "v_enqueue v = enq"
  shows "inv H Q n E (drop_edge v tid h p rt)" "rb_own (drop_edge v tid h p rt) = rb_own rt"
    "rb_pid (drop_edge v tid h p rt) = rb_pid rt"
proof -
  let ?i = "unat (hindex h)" and ?t = "slot_of rt h"
  let ?rt1 = "rt_upd ?i (\<lambda>t. t\<lparr>t_pending := t_pending t - 1\<rparr>) rt"
  have b: "rt_base H rt" and T: "rt_tasks H (h # E) rt" and out: "rb_outstanding rt = of_nat (length H + n)"
    and q: "mset (queued H rt) = content (rb_disp rt) + Q" and d: "dinv (rb_disp rt)"
    and own: "length (rb_own rt) = length (w_caches (rb_world rt))" "\<forall>c \<in> set (rb_own rt). caller (rb_disp rt) c"
    using inv by (simp_all add: rt_inv_def)
  have h: "h \<in> set H" using T by (simp add: rt_tasks_def)
  have E: "set E \<subseteq> set H" using T by (simp add: rt_tasks_def)
  note D = rt_tasksD [OF T h]
  have pend: "unat (t_pending ?t) = Suc (edges_to H rt h + count_list E h)" using D(4) by simp
  have pend1: "unat (t_pending ?t - 1) = edges_to H rt h + count_list E h"
    using pend by (simp add: unat_sub word_le_nat_alt)
  have b1: "rt_base H ?rt1" by (rule rt_upd_base [OF b h]) (simp_all add: task_inv_def)
  have s1: "slot_of ?rt1 k = (if k = h then ?t\<lparr>t_pending := t_pending ?t - 1\<rparr> else slot_of rt k)"
    if "k \<in> set H" for k by (rule slot_of_upd [OF b h that])
  have i: "rt_slot ?i rt = ?t" by (simp add: slot_of_def)
  have waiting: "t_state ?t = Waiting" using D(5) pend by auto
  show "inv H Q n E (drop_edge v tid h p rt)"
  proof (cases "t_pending ?t = 1")
    case False
    have "t_pending ?t - 1 \<noteq> 0" using False by simp
    then have "rt_tasks H E ?rt1"
      using D pend1 waiting E by (intro rt_tasks_change [OF T h s1]) (auto simp: succs_def)
    moreover have "queued H ?rt1 = queued H rt"
      by (rule queued_cong) (use s1 in auto)
    ultimately show ?thesis
      using False b1 d q out own i by (simp add: drop_edge_def Let_def rt_inv_def)
  next
    case True
    let ?rt2 = "rt_upd ?i (\<lambda>t. t\<lparr>t_state := Queued\<rparr>) ?rt1"
    let ?rt3 = "rt_enqueue v tid h p ?rt2"
    have b2: "rt_base H ?rt2" by (rule rt_upd_base [OF b1 h]) (simp_all add: task_inv_def)
    have s2: "slot_of ?rt2 k = (if k = h then ?t\<lparr>t_pending := t_pending ?t - 1, t_state := Queued\<rparr> else slot_of rt k)"
      if "k \<in> set H" for k using slot_of_upd [OF b1 h that] s1 [OF that] s1 [OF h] by simp
    have T2: "rt_tasks H E ?rt2"
      using D pend1 True E by (intro rt_tasks_change [OF T h s2]) (auto simp: succs_def)
    have w3: "rb_world ?rt3 = rb_world ?rt2" "rb_pid ?rt3 = rb_pid ?rt2" by (simp_all add: rt_enqueue_def)
    note sl3 = slot_of_world [OF w3]
    have q3: "mset (queued H ?rt3) = add_mset h (mset (queued H rt))"
      unfolding queued_def sl3
      by (rule mset_filter_change [OF rt_base_distinct [OF b] h]) (use s2 h waiting in auto)
    have val: "handle_valid h" using rt_base_facts(3) [OF b h] by simp
    have "inv H Q n E ?rt3"
      using b2 T2 q3 d out own enq_inv [OF d thread_caller [OF inv tid] val]
        enq_content [OF d thread_caller [OF inv tid] val] q v
      unfolding rt_inv_def
      by (auto simp: rt_enqueue_def on_own_worker_def enq_caller rt_base_def rt_tasks_def edges_to_def
          slot_of_def rt_slot_def)
    then show ?thesis using True i by (simp add: drop_edge_def Let_def)
  qed
  show "rb_own (drop_edge v tid h p rt) = rb_own rt" "rb_pid (drop_edge v tid h p rt) = rb_pid rt"
    by (simp_all add: drop_edge_def Let_def rt_enqueue_def)
qed

lemma drop_edge_executing:
  assumes "inv H Q n (h # E) rt" "k \<in> set H"
  shows "t_state (slot_of (drop_edge v tid h p rt) k) = Executing \<longleftrightarrow> t_state (slot_of rt k) = Executing"
proof -
  let ?i = "unat (hindex h)"
  let ?rt1 = "rt_upd ?i (\<lambda>t. t\<lparr>t_pending := t_pending t - 1\<rparr>) rt"
  let ?rt2 = "rt_upd ?i (\<lambda>t. t\<lparr>t_state := Queued\<rparr>) ?rt1"
  have b: "rt_base H rt" and T: "rt_tasks H (h # E) rt" using assms(1) by (simp_all add: rt_inv_def)
  have h: "h \<in> set H" using T by (simp add: rt_tasks_def)
  have w: "t_state (slot_of rt h) = Waiting" using rt_tasksD(4,5) [OF T h] by auto
  have b1: "rt_base H ?rt1" by (rule rt_upd_base [OF b h]) (simp_all add: task_inv_def)
  note s = slot_of_upd [OF b h assms(2)] slot_of_upd [OF b1 h assms(2)]
  have "slot_of (rt_enqueue v tid h p ?rt2) = slot_of ?rt2"
    by (rule slot_of_world) (simp_all add: rt_enqueue_def)
  then show ?thesis using w by (auto simp: drop_edge_def Let_def s)
qed

lemma release_dependent_drop:
  assumes "inv H Q n E rt" "h \<in> set H"
  shows "release_dependent v tid h rt = drop_edge v tid h (t_priority (slot_of rt h)) rt"
proof -
  have b: "rt_base H rt" using assms by (simp add: rt_inv_def)
  have "t_priority (slot_of (rt_upd (unat (hindex h)) (\<lambda>t. t\<lparr>t_pending := t_pending t - 1\<rparr>) rt) h) =
      t_priority (slot_of rt h)"
    by (simp add: slot_of_upd [OF b assms(2,2)])
  then show ?thesis
    using rt_base_facts(2) [OF b assms(2)]
    by (simp add: release_dependent_def drop_edge_def Let_def slot_of_def)
qed

lemma release_dependents_inv:
  assumes "inv H Q n E rt" "thread_ok tid rt" "v_enqueue v = enq"
  shows "inv H Q n [] (fold (release_dependent v tid) E rt)"
    "rb_own (fold (release_dependent v tid) E rt) = rb_own rt"
    "rb_pid (fold (release_dependent v tid) E rt) = rb_pid rt"
  using assms
proof (induction E arbitrary: rt)
  case (Cons h E)
  {
    case 1
    have h: "h \<in> set H" using 1(1) by (simp add: rt_inv_def rt_tasks_def)
    have r: "release_dependent v tid h rt = drop_edge v tid h (t_priority (slot_of rt h)) rt"
      by (rule release_dependent_drop [OF 1(1) h])
    show ?case
      using Cons.IH(1) [of "release_dependent v tid h rt"] drop_edge_inv [OF 1] 1 r
      by (simp add: thread_ok_def)
  next
    case 2
    have h: "h \<in> set H" using 2(1) by (simp add: rt_inv_def rt_tasks_def)
    show ?case
      using Cons.IH(2) [of "release_dependent v tid h rt"] drop_edge_inv [OF 2] 2
        release_dependent_drop [OF 2(1) h] by (simp add: thread_ok_def)
  next
    case 3
    have h: "h \<in> set H" using 3(1) by (simp add: rt_inv_def rt_tasks_def)
    show ?case
      using Cons.IH(3) [of "release_dependent v tid h rt"] drop_edge_inv [OF 3] 3
        release_dependent_drop [OF 3(1) h] by (simp add: thread_ok_def)
  }
qed simp_all

lemma release_dependents_executing:
  assumes "inv H Q n E rt" "thread_ok tid rt" "v_enqueue v = enq" "k \<in> set H"
  shows "t_state (slot_of (fold (release_dependent v tid) E rt) k) = Executing \<longleftrightarrow>
    t_state (slot_of rt k) = Executing"
  using assms
proof (induction E arbitrary: rt)
  case (Cons h E)
  have h: "h \<in> set H" using Cons.prems(1) by (simp add: rt_inv_def rt_tasks_def)
  have r: "release_dependent v tid h rt = drop_edge v tid h (t_priority (slot_of rt h)) rt"
    by (rule release_dependent_drop [OF Cons.prems(1) h])
  show ?case
    using Cons.IH [of "release_dependent v tid h rt"] drop_edge_inv [OF Cons.prems(1-3)] Cons.prems
      drop_edge_executing [OF Cons.prems(1,4)] r by (simp add: thread_ok_def)
qed simp

lemma executing_no_edges:
  assumes "inv H Q n [] rt" "h \<in> set H" "t_state (slot_of rt h) \<noteq> Waiting" "k \<in> set H"
  shows "h \<notin> set (succs (slot_of rt k))"
proof -
  have T: "rt_tasks H [] rt" using assms(1) by (simp add: rt_inv_def)
  have "edges_to H rt h = 0" using rt_tasksD [OF T assms(2)] assms(3) by auto
  then have "count_list (succs (slot_of rt k)) h = 0"
    using assms(4) by (auto simp: edges_to_def sum_list_eq_0_iff)
  then show ?thesis by (simp add: count_list_0_iff)
qed

text \<open>The middle of \<open>complete\<close>: the slot is released, its successors are yet to be told.\<close>

lemma release_inv:
  assumes inv: "inv H Q n [] rt" and h: "h \<in> set H" and st: "t_state (slot_of rt h) = Executing"
    and tid: "thread_ok tid rt"
    and f: "\<And>t. task_inv t \<Longrightarrow> task_inv (f t)" "\<And>t. t_generation (f t) = t_generation t"
  shows "\<exists>w. release tid (rb_pid rt) h (rb_world (rt_upd (unat (hindex h)) f rt)) = Some w \<and>
    inv (remove1 h H) Q (Suc n) (succs (slot_of rt h)) (rt_upd (unat (hindex h)) f rt\<lparr>rb_world := w\<rparr>) \<and>
    (\<forall>k \<in> set (remove1 h H). slot_of (rt_upd (unat (hindex h)) f rt\<lparr>rb_world := w\<rparr>) k = slot_of rt k)"
proof -
  let ?u = "rt_upd (unat (hindex h)) f rt" and ?pid = "rb_pid rt" and ?H = "remove1 h H"
  have b: "rt_base H rt" and T: "rt_tasks H [] rt" using inv by (simp_all add: rt_inv_def)
  have bu: "rt_base H ?u" by (rule rt_upd_base [OF b h f])
  have dist: "distinct H" by (rule rt_base_distinct [OF b])
  have ok: "pworld_ok (map (Pair ?pid) H) (rb_world ?u)" using bu by (simp add: rt_base_def)
  obtain p where p: "w_pools (rb_world ?u) ?pid = Some p" using bu by (auto simp: rt_base_def)
  have ph: "(?pid, h) \<in> set (map (Pair ?pid) H)" using h by simp
  have tc: "tid < length (w_caches (rb_world ?u))" using tid inv by (simp add: thread_ok_def rt_inv_def)
  obtain w r where w: "release tid ?pid h (rb_world ?u) = Some w"
    "pworld_ok (remove1 (?pid, h) (map (Pair ?pid) H)) w" "w_pools w ?pid = Some r"
    "p_slots r = (p_slots p)[unat (hindex h) := release_reset (p_slots p ! unat (hindex h))]"
    "length (w_caches w) = length (w_caches (rb_world ?u))"
    using release_ok [OF ok ph tc p] by metis
  let ?r = "?u\<lparr>rb_world := w\<rparr>"
  have rm: "remove1 (?pid, h) (map (Pair ?pid) H) = map (Pair ?pid) ?H"
    by (induction H) auto
  have br: "rt_base ?H ?r" using w(2,3) rm by (simp add: rt_base_def)
  have sl: "slot_of ?r k = slot_of rt k" if k: "k \<in> set ?H" for k
  proof -
    have kH: "k \<in> set H" "k \<noteq> h" using k dist by auto
    then have "unat (hindex k) \<noteq> unat (hindex h)" using idx_inj [OF b kH(1) h] by simp
    then have "slot_of ?r k = slot_of ?u k"
      using w(3,4) p by (simp add: slot_of_def rt_slot_def slot_at_def)
    then show ?thesis using slot_of_upd [OF b h kH(1)] kH(2) by simp
  qed
  have e: "edges_to ?H ?r k + count_list (succs (slot_of rt h)) k = edges_to H rt k" for k
  proof -
    have "edges_to ?H ?r k = (\<Sum>j\<leftarrow>?H. count_list (succs (slot_of rt j)) k)"
      unfolding edges_to_def using sl by (intro arg_cong [where f = sum_list] map_cong) auto
    then show ?thesis
      using sum_list_map_remove1 [OF h, of "\<lambda>j. count_list (succs (slot_of rt j)) k"]
      by (simp add: edges_to_def)
  qed
  have sub: "set (succs (slot_of rt h)) \<subseteq> set H - {h}" using T h by (simp add: rt_tasks_def)
  have "rt_tasks ?H (succs (slot_of rt h)) ?r"
    unfolding rt_tasks_def
  proof (intro conjI ballI)
    fix k
    assume k: "k \<in> set ?H"
    then have kH: "k \<in> set H" "k \<noteq> h" using dist by auto
    show "let t = slot_of ?r k in
        \<not> t_closed t \<and> t_function t \<noteq> None \<and> t_state t \<in> {Waiting, Queued, Executing} \<and>
        unat (t_pending t) = edges_to ?H ?r k + count_list (succs (slot_of rt h)) k \<and>
        (t_state t = Waiting \<longleftrightarrow> t_pending t \<noteq> 0)"
      using rt_tasksD [OF T kH(1)] sl [OF k] e [of k] by (simp add: Let_def)
    have "h \<notin> set (succs (slot_of rt k))" by (rule executing_no_edges [OF inv h]) (use st kH in auto)
    then show "set (succs (slot_of ?r k)) \<subseteq> set ?H - {k}"
      using T kH sl [OF k] dist by (auto simp: rt_tasks_def)
  next
    have "sorted_wrt (\<lambda>a b. b \<notin> set (succs (slot_of rt a))) ?H"
      using T dist by (simp add: rt_tasks_def distinct_remove1_removeAll removeAll_filter_not_eq sorted_wrt_filter)
    then show "sorted_wrt (\<lambda>a b. b \<notin> set (succs (slot_of ?r a))) ?H"
      by (rule sorted_wrt_mono_rel [rotated]) (simp add: sl)
    show "set (succs (slot_of rt h)) \<subseteq> set ?H" using sub dist by auto
  qed
  moreover have "queued ?H ?r = queued H rt"
  proof -
    have "queued ?H ?r = filter (\<lambda>k. t_state (slot_of rt k) = Queued) ?H"
      unfolding queued_def using sl by (intro filter_cong) auto
    also have "\<dots> = queued H rt"
      unfolding queued_def using st dist
      by (simp add: distinct_remove1_removeAll removeAll_filter_not_eq filter_filter) (intro filter_cong; auto)
    finally show ?thesis .
  qed
  moreover have "length ?H + Suc n = length H + n"
    using h length_pos_if_in_set [OF h] by (simp add: length_remove1)
  then have "rb_outstanding ?r = of_nat (length ?H + Suc n)" using inv by (simp only: rt_inv_def) simp
  ultimately have "inv ?H Q (Suc n) (succs (slot_of rt h)) ?r"
    using inv br w(5) unfolding rt_inv_def by simp
  then show ?thesis using w(1) sl by blast
qed

lemma complete_inv:
  assumes inv: "inv H Q n [] rt" and h: "h \<in> set H" and st: "t_state (slot_of rt h) = Executing"
    and tid: "thread_ok tid rt" and v: "v_enqueue v = enq"
  shows "\<exists>rt'. complete v tid h rt = Some rt' \<and> inv (remove1 h H) Q n [] rt' \<and> rb_own rt' = rb_own rt \<and>
    rb_pid rt' = rb_pid rt \<and>
    (\<forall>k \<in> set (remove1 h H). t_state (slot_of rt' k) = Executing \<longleftrightarrow> t_state (slot_of rt k) = Executing)"
proof -
  let ?i = "unat (hindex h)" and ?H = "remove1 h H"
  let ?f = "\<lambda>t. (fst (take_successors t))\<lparr>t_state := Completed\<rparr>"
  have b: "rt_base H rt" using inv by (simp add: rt_inv_def)
  have g: "rt_get h rt = Some ?i" by (rule rt_base_facts(2) [OF b h])
  have f: "task_inv t \<Longrightarrow> task_inv (?f t)" "t_generation (?f t) = t_generation t" for t :: "'b task"
    using take_successors_after(3) [of t] by (simp_all add: task_inv_def take_successors_frame)
  have two: "rt_upd ?i (\<lambda>t. t\<lparr>t_state := Completed\<rparr>) (rt_upd ?i (\<lambda>t. fst (take_successors t)) rt) = rt_upd ?i ?f rt"
    by (rule rt_upd_twice)
  obtain w where w: "release tid (rb_pid rt) h (rb_world (rt_upd ?i ?f rt)) = Some w"
    "inv ?H Q (Suc n) (succs (slot_of rt h)) (rt_upd ?i ?f rt\<lparr>rb_world := w\<rparr>)"
    "\<forall>k \<in> set ?H. slot_of (rt_upd ?i ?f rt\<lparr>rb_world := w\<rparr>) k = slot_of rt k"
    using release_inv [OF inv h st tid f] by blast
  let ?rt2 = "rt_upd ?i ?f rt\<lparr>rb_world := w\<rparr>"
  have ss: "snd (take_successors (rt_slot ?i rt)) = succs (slot_of rt h)"
    using take_successors_result [OF rt_base_facts(4) [OF b h]] by (simp add: slot_of_def)
  let ?rt3 = "fold (release_dependent v tid) (succs (slot_of rt h)) ?rt2"
  have t2: "thread_ok tid ?rt2" using tid by (simp add: thread_ok_def)
  note r3 = release_dependents_inv [OF w(2) t2 v]
  let ?rt4 = "?rt3\<lparr>rb_completed := sc_increment (thread_home tid ?rt3) (rb_completed ?rt3),
                   rb_outstanding := rb_outstanding ?rt3 - 1\<rparr>"
  have "rb_outstanding ?rt3 = of_nat (length ?H + Suc n)" using r3(1) by (simp add: rt_inv_def)
  moreover have "inv ?H Q (Suc n) [] (?rt4\<lparr>rb_outstanding := rb_outstanding ?rt3\<rparr>)"
    using r3(1) by (subst rt_inv_frame [where rt = ?rt3]) simp_all
  ultimately have i4: "inv ?H Q n [] ?rt4"
    by (auto simp: rt_inv_def rt_base_def rt_tasks_def edges_to_def queued_def slot_of_def rt_slot_def Let_def)
  let ?rt5 = "?rt4\<lparr>rb_events := rb_events ?rt4 @ [NotifyCompletion]\<rparr>"
  have i5: "inv ?H Q n [] ?rt5" using i4 by (subst rt_inv_frame [where rt = ?rt4]) simp_all
  have "t_state (slot_of ?rt3 k) = Executing \<longleftrightarrow> t_state (slot_of rt k) = Executing" if "k \<in> set ?H" for k
    using release_dependents_executing [OF w(2) t2 v that] w(3) that by simp
  moreover have "slot_of ?rt4 = slot_of ?rt3" "slot_of ?rt5 = slot_of ?rt3" by (rule slot_of_world; simp)+
  ultimately have ex: "\<forall>k \<in> set ?H. (t_state (slot_of ?rt4 k) = Executing \<longleftrightarrow> t_state (slot_of rt k) = Executing) \<and>
      (t_state (slot_of ?rt5 k) = Executing \<longleftrightarrow> t_state (slot_of rt k) = Executing)" by simp
  have "complete v tid h rt = Some (if wake_handle_waiters (hindex h) ?rt4 \<or> wake_all_waiters (rb_outstanding ?rt3 - 1) ?rt4
      then ?rt5 else ?rt4)"
    using g two w(1) ss by (simp add: complete_def Let_def)
  then show ?thesis using i4 i5 ex r3(2,3) by auto
qed

section \<open>Steps of user code\<close>

text \<open>
  What a call into user code, a helped task or a step of another thread may do: anything that
  ends in a state of the invariant, with the running tasks still running.
\<close>

definition keeps :: "TaskHandle list \<Rightarrow> TaskHandle multiset \<Rightarrow> nat \<Rightarrow> ('b, 'd) rtb \<Rightarrow> ('b, 'd) rtb \<Rightarrow> bool" where
  "keeps H Q n rt rt' \<longleftrightarrow> rb_own rt' = rb_own rt \<and> rb_pid rt' = rb_pid rt \<and>
     (\<exists>H'. inv H' Q n [] rt' \<and>
        (\<forall>h \<in> set H. t_state (slot_of rt h) = Executing \<longrightarrow>
           h \<in> set H' \<and> t_state (slot_of rt' h) = Executing))"

definition user_ok :: "('b, 'd) vtable \<Rightarrow> bool" where
  "user_ok v \<longleftrightarrow> v_enqueue v = enq \<and>
     (\<forall>H Q n rt f tid i. inv H Q n [] rt \<longrightarrow> thread_ok tid rt \<longrightarrow> keeps H Q n rt (fst (v_call v f tid i rt))) \<and>
     (\<forall>H Q n rt tid r. inv H Q n [] rt \<longrightarrow> thread_ok tid rt \<longrightarrow> v_try v tid rt = Some r \<longrightarrow> keeps H Q n rt (fst r)) \<and>
     (\<forall>H Q n rt. inv H Q n [] rt \<longrightarrow> keeps H Q n rt (v_others v rt))"

lemma keeps_refl: "inv H Q n [] rt \<Longrightarrow> keeps H Q n rt rt"
  by (auto simp: keeps_def)

lemma keeps_trans:
  assumes "keeps H Q n rt rt1" "\<And>H1. inv H1 Q n [] rt1 \<Longrightarrow> keeps H1 Q n rt1 rt2"
  shows "keeps H Q n rt rt2"
proof -
  obtain H1 where H1: "inv H1 Q n [] rt1" "\<forall>h \<in> set H. t_state (slot_of rt h) = Executing \<longrightarrow>
      h \<in> set H1 \<and> t_state (slot_of rt1 h) = Executing"
    using assms(1) by (auto simp: keeps_def)
  show ?thesis using assms(1) assms(2) [OF H1(1)] H1(2) unfolding keeps_def by fastforce
qed

text \<open>Changes of fields the invariant does not look at.\<close>

lemma keeps_frame:
  assumes "keeps H Q n rt rt1" "rb_world rt' = rb_world rt1" "rb_pid rt' = rb_pid rt1"
    "rb_disp rt' = rb_disp rt1" "rb_outstanding rt' = rb_outstanding rt1" "rb_own rt' = rb_own rt1"
  shows "keeps H Q n rt rt'"
  using assms(1,3,6) slot_of_world [OF assms(2,3)] rt_inv_frame [OF assms(2-6)]
  unfolding keeps_def by simp

lemma keeps_frame_left:
  assumes "keeps H Q n rt1 rt'" "rb_world rt1 = rb_world rt" "rb_pid rt1 = rb_pid rt" "rb_own rt1 = rb_own rt"
  shows "keeps H Q n rt rt'"
  using assms slot_of_world [OF assms(2,3)] unfolding keeps_def by simp

lemma run_inline_keeps:
  assumes u: "user_ok v" and inv: "inv H Q (Suc n) [] rt" and tid: "thread_ok tid rt"
  shows "keeps H Q n rt (run_inline v tid desc rt)"
proof -
  let ?rt1 = "rt\<lparr>rb_inline := sc_increment (thread_home tid rt) (rb_inline rt)\<rparr>"
  have i1: "inv H Q (Suc n) [] ?rt1" using inv by (subst rt_inv_frame [where rt = rt]) simp_all
  have t1: "thread_ok tid ?rt1" using tid by (simp add: thread_ok_def)
  obtain rt2 where r: "run_inline v tid desc rt = rt2\<lparr>rb_outstanding := rb_outstanding rt2 - 1\<rparr>"
    and k: "keeps H Q (Suc n) ?rt1 rt2"
  proof (cases "dfunction desc")
    case None
    then show ?thesis using that [of ?rt1] keeps_refl [OF i1] by (simp add: run_inline_def Let_def)
  next
    case (Some f)
    obtain rt' e where c: "v_call v f tid (context_index tid ?rt1) ?rt1 = (rt', e)" by fastforce
    have k: "keeps H Q (Suc n) ?rt1 rt'"
      using u i1 t1 c unfolding user_ok_def by (metis fst_conv)
    show ?thesis
    proof (cases e)
      case None
      then show ?thesis using that [OF _ k] Some c by (simp add: run_inline_def Let_def)
    next
      case (Some x)
      let ?rt2 = "record_uncaught_exception tid invalid_handle x rt'"
      have "keeps H Q (Suc n) ?rt1 ?rt2"
        by (rule keeps_frame [OF k]) (simp_all add: record_uncaught_exception_def Let_def)
      then show ?thesis using that [of ?rt2] Some \<open>dfunction desc = Some f\<close> c by (simp add: run_inline_def Let_def)
    qed
  qed
  let ?rt3 = "rt2\<lparr>rb_outstanding := rb_outstanding rt2 - 1\<rparr>"
  have "inv H' Q n [] ?rt3" if "inv H' Q (Suc n) [] rt2" for H'
    using that by (auto simp: rt_inv_def rt_base_def rt_tasks_def edges_to_def queued_def slot_of_def rt_slot_def Let_def)
  moreover have "slot_of ?rt3 = slot_of rt2" "slot_of ?rt1 = slot_of rt"
    by (rule slot_of_world; simp)+
  ultimately show ?thesis using k unfolding r keeps_def by auto
qed

section \<open>A new task\<close>

text \<open>What \<open>acquire\<close> and \<open>reserve\<close> leave: a slot of its own for the new handle.\<close>

definition fresh_slot :: "TaskHandle list \<Rightarrow> TaskHandle \<Rightarrow> ('b task \<Rightarrow> 'b task) \<Rightarrow> ('b, 'd) rtb \<Rightarrow> ('b, 'd) rtb \<Rightarrow> bool" where
  "fresh_slot H h init rt rt' \<longleftrightarrow> rt_base (h # H) rt' \<and> h \<notin> set H \<and> handle_valid h \<and>
     (\<forall>k \<in> set H. slot_of rt' k = slot_of rt k) \<and> (\<exists>t. slot_of rt' h = init t) \<and>
     (\<forall>d. rt_get d rt' = rt_get d rt) \<and>
     rb_disp rt' = rb_disp rt \<and> rb_own rt' = rb_own rt \<and> rb_pid rt' = rb_pid rt \<and>
     rb_outstanding rt' = rb_outstanding rt + 1 \<and>
     length (w_caches (rb_world rt')) = length (w_caches (rb_world rt))"

lemma claim_cases:
  assumes inv: "inv H Q n [] rt" and tid: "thread_ok tid rt"
    and init: "\<And>t. t_generation (init t) = t_generation t" "\<And>t. task_inv t \<Longrightarrow> task_inv (init t)"
  obtains (exhausted) w where
      "claim_slot tid (rb_pid rt) init (rb_world rt) = Some (w, invalid_handle)"
      "inv H Q (Suc n) [] (count_outstanding rt\<lparr>rb_world := w\<rparr>)"
      "\<forall>k \<in> set H. slot_of (count_outstanding rt\<lparr>rb_world := w\<rparr>) k = slot_of rt k"
    | (taken) w h where "claim_slot tid (rb_pid rt) init (rb_world rt) = Some (w, h)"
      "fresh_slot H h init rt (count_outstanding rt\<lparr>rb_world := w\<rparr>)"
proof -
  let ?pid = "rb_pid rt"
  have b: "rt_base H rt" using inv by (simp add: rt_inv_def)
  then have ok: "pworld_ok (map (Pair ?pid) H) (rb_world rt)" by (simp add: rt_base_def)
  obtain p where p: "w_pools (rb_world rt) ?pid = Some p" using b by (auto simp: rt_base_def)
  have tc: "tid < length (w_caches (rb_world rt))" using inv tid by (simp add: rt_inv_def thread_ok_def)
  show thesis
  proof (rule claim_slot_cases [OF ok tc p init])
    fix w
    assume c: "claim_slot tid ?pid init (rb_world rt) = Some (w, invalid_handle)"
      "pworld_ok (map (Pair ?pid) H) w" "\<And>q. same_slots q (rb_world rt) w"
      "length (w_caches w) = length (w_caches (rb_world rt))"
    let ?r = "count_outstanding rt\<lparr>rb_world := w\<rparr>"
    have sl: "slot_of ?r = slot_of rt"
      using c(3) [of ?pid] p
      by (intro ext) (cases "w_pools w ?pid"; simp add: slot_of_def rt_slot_def slot_at_def
          count_outstanding_def same_slots_def)
    have "w_pools w ?pid \<noteq> None" using c(3) [of ?pid] p by (auto simp: same_slots_def)
    then have "inv H Q (Suc n) [] ?r"
      using inv c(2,4) sl
      by (simp add: rt_inv_def rt_base_def rt_tasks_def edges_to_def queued_def count_outstanding_def)
    then show thesis using exhausted [OF c(1)] sl by simp
  next
    fix w1 w i h
    assume c: "claim_slot tid ?pid init (rb_world rt) = Some (w, h)"
      "h = \<lparr>hindex = of_nat i, hgeneration = t_generation (p_slots p ! i)\<rparr>"
      "i < p_capacity p" "i \<notin> set (held_idx ?pid (map (Pair ?pid) H))"
      "\<And>q. same_slots q (rb_world rt) w1" "w = upd_pool ?pid (upd_slot i init) w1"
      "pworld_ok ((?pid, h) # map (Pair ?pid) H) w"
      "length (w_caches w) = length (w_caches (rb_world rt))" "handle_valid h"
    let ?r = "count_outstanding rt\<lparr>rb_world := w\<rparr>"
    obtain p1 where p1: "w_pools w1 ?pid = Some p1" "p_slots p1 = p_slots p" "p_capacity p1 = p_capacity p"
      using c(5) [of ?pid] p by (cases "w_pools w1 ?pid") (auto simp: same_slots_def)
    have len: "length (p_slots p) = p_capacity p"
      using ok p shape_pool [of "rb_world rt"] by (auto simp: pworld_ok_def pool_shape_def)
    have idx: "unat (hindex h) = i"
      using c(2,3) ok p shape_pool [of "rb_world rt" ?pid p]
      by (auto simp: pworld_ok_def pool_shape_def unat_of_nat)
    have br: "rt_base (h # H) ?r"
      using c(6,7) p1 by (simp add: rt_base_def count_outstanding_def)
    have other: "slot_of ?r k = slot_of rt k" if k: "k \<in> set H" for k
    proof -
      have "unat (hindex k) \<noteq> i" using c(4) k by (auto simp: held_idx_map)
      then show ?thesis
        using c(6) p p1 by (simp add: slot_of_def rt_slot_def slot_at_def count_outstanding_def)
    qed
    have "slot_of ?r h = init (p_slots p ! i)"
      using c(3,6) p1 len idx by (simp add: slot_of_def rt_slot_def slot_at_def count_outstanding_def)
    moreover have "h \<notin> set H" using rt_base_distinct [OF br] by simp
    moreover have "rt_get d ?r = rt_get d rt" for d
    proof -
      have "rt_get d ?r = get d (upd_slot i init p1)" using c(6) p1 by (simp add: rt_get_def count_outstanding_def)
      also have "\<dots> = get d p1" by (rule get_upd_slot [OF init(1)]) (simp add: p1 len)
      also have "\<dots> = rt_get d rt" using p p1 by (simp add: rt_get_def get_def)
      finally show ?thesis .
    qed
    ultimately have "fresh_slot H h init rt ?r"
      using br c(8,9) other unfolding fresh_slot_def by (auto simp: count_outstanding_def)
    then show thesis using taken [OF c(1)] by simp
  qed
qed

lemma fresh_tasks:
  assumes T: "rt_tasks H [] rt" and f: "fresh_slot H h init rt rt1"
    and s: "\<And>k. k \<in> set (h # H) \<Longrightarrow> slot_of rt' k = (if k = h then t' else slot_of rt1 k)"
    and t': "succs t' = []" "\<not> t_closed t'" "t_function t' \<noteq> None" "t_state t' \<in> {Waiting, Queued, Executing}"
      "unat (t_pending t') = count_list E h" "t_state t' = Waiting \<longleftrightarrow> t_pending t' \<noteq> 0"
    and E: "set E \<subseteq> {h}"
  shows "rt_tasks (h # H) E rt'"
proof -
  have hH: "h \<notin> set H" and old: "k \<in> set H \<Longrightarrow> slot_of rt' k = slot_of rt k" for k
    using f s by (auto simp: fresh_slot_def)
  have new: "slot_of rt' h = t'" using s by simp
  have sub: "k \<in> set H \<Longrightarrow> set (succs (slot_of rt k)) \<subseteq> set H - {k}" for k using T by (simp add: rt_tasks_def)
  have e: "edges_to (h # H) rt' k = edges_to H rt k" for k
    using new t'(1) old by (simp add: edges_to_def cong: map_cong)
  have "count_list (succs (slot_of rt k)) h = 0" if "k \<in> set H" for k
    using sub [OF that] hH by (auto simp: count_list_0_iff)
  then have e0: "edges_to H rt h = 0" by (simp add: edges_to_def sum_list_eq_0_iff)
  show ?thesis
    unfolding rt_tasks_def
  proof (intro conjI ballI)
    fix k
    assume k: "k \<in> set (h # H)"
    show "let t = slot_of rt' k in
        \<not> t_closed t \<and> t_function t \<noteq> None \<and> t_state t \<in> {Waiting, Queued, Executing} \<and>
        unat (t_pending t) = edges_to (h # H) rt' k + count_list E k \<and> (t_state t = Waiting \<longleftrightarrow> t_pending t \<noteq> 0)"
    proof (cases "k = h")
      case True
      then show ?thesis using new t' e e0 by (simp add: Let_def)
    next
      case False
      then have "k \<in> set H" "count_list E k = 0" using k E by (auto simp: count_list_0_iff)
      then show ?thesis using old rt_tasksD [OF T] e by (simp add: Let_def)
    qed
    show "set (succs (slot_of rt' k)) \<subseteq> set (h # H) - {k}"
      using k new t'(1) old sub hH by (cases "k = h") fastforce+
  next
    have "sorted_wrt (\<lambda>a b. b \<notin> set (succs (slot_of rt a))) H" using T by (simp add: rt_tasks_def)
    then have "sorted_wrt (\<lambda>a b. b \<notin> set (succs (slot_of rt' a))) H"
      by (rule sorted_wrt_mono_rel [rotated]) (simp add: old)
    then show "sorted_wrt (\<lambda>a b. b \<notin> set (succs (slot_of rt' a))) (h # H)" using new t'(1) by simp
    show "set E \<subseteq> set (h # H)" using E by auto
  qed
qed

text \<open>A new task with no dependencies goes straight to the dispatcher.\<close>

lemma enqueue_new_inv:
  assumes inv: "inv H Q n [] rt" and tid: "thread_ok tid rt" and v: "v_enqueue v = enq"
    and f: "fresh_slot H h init rt rt1" and rt': "rt' = rt_upd (unat (hindex h)) g rt1"
    and g: "\<And>t. task_inv t \<Longrightarrow> task_inv (g t)" "\<And>t. t_generation (g t) = t_generation t"
      "\<And>t. succs (g (init t)) = []" "\<And>t. \<not> t_closed (g (init t))" "\<And>t. t_function (g (init t)) \<noteq> None"
      "\<And>t. t_state (g (init t)) = Queued" "\<And>t. t_pending (g (init t)) = 0"
  shows "inv (h # H) Q n [] (rt_enqueue v tid h p rt')"
    "keeps H Q n rt (rt_enqueue v tid h p rt')"
proof -
  let ?r = "rt_enqueue v tid h p rt'"
  obtain t where b1: "rt_base (h # H) rt1" and t: "slot_of rt1 h = init t"
    and F: "h \<notin> set H" "handle_valid h" "\<And>k. k \<in> set H \<Longrightarrow> slot_of rt1 k = slot_of rt k"
      "rb_disp rt1 = rb_disp rt" "rb_own rt1 = rb_own rt" "rb_pid rt1 = rb_pid rt"
      "rb_outstanding rt1 = rb_outstanding rt + 1"
      "length (w_caches (rb_world rt1)) = length (w_caches (rb_world rt))"
    using f by (auto simp: fresh_slot_def)
  have T: "rt_tasks H [] rt" and d: "dinv (rb_disp rt)" and q: "mset (queued H rt) = content (rb_disp rt) + Q"
    and own: "length (rb_own rt) = length (w_caches (rb_world rt))" "\<forall>c \<in> set (rb_own rt). caller (rb_disp rt) c"
    and out: "rb_outstanding rt = of_nat (length H + n)"
    using inv by (simp_all add: rt_inv_def)
  have b': "rt_base (h # H) rt'" unfolding rt' by (rule rt_upd_base [OF b1 _ g(1,2)]) simp
  have s': "slot_of rt' k = (if k = h then g (init t) else slot_of rt1 k)" if "k \<in> set (h # H)" for k
    unfolding rt' using slot_of_upd [OF b1 _ that, of h g] t by simp
  have T': "rt_tasks (h # H) [] rt'"
    by (rule fresh_tasks [OF T f s']) (simp_all add: g)
  have w: "rb_world ?r = rb_world rt'" "rb_pid ?r = rb_pid rt'" by (simp_all add: rt_enqueue_def)
  note sl = slot_of_world [OF w]
  have so: "slot_of rt' k = slot_of rt k" if "k \<in> set H" for k
    using s' [of k] that F(1,3) by auto
  have "queued H ?r = queued H rt" by (rule queued_cong) (simp add: sl so)
  then have qe: "queued (h # H) ?r = h # queued H rt"
    using s' [of h] g(6) by (simp add: queued_def sl)
  have "inv (h # H) Q n [] ?r"
    using b' T' qe q own out F v enq_inv [OF d thread_caller [OF inv tid] F(2)]
      enq_content [OF d thread_caller [OF inv tid] F(2)]
    unfolding rt_inv_def
    by (auto simp: rt_enqueue_def on_own_worker_def enq_caller rt_base_def rt_tasks_def edges_to_def
        slot_of_def rt_slot_def rt')
  then show "inv (h # H) Q n [] ?r" .
  then show "keeps H Q n rt ?r"
    unfolding keeps_def using s' F by (auto simp: sl) (simp_all add: rt_enqueue_def rt')
qed

lemma submit_inv:
  assumes u: "user_ok v" and inv: "inv H Q n [] rt" and tid: "thread_ok tid rt"
    and desc: "dfunction desc \<noteq> None"
  shows "\<exists>rt' h. submit v tid desc rt = Some (rt', h) \<and> keeps H Q n rt rt' \<and>
    (handle_valid h \<longrightarrow> h \<notin> set H \<and> inv (h # H) Q n [] rt')"
proof (rule claim_cases [OF inv tid, of "acquire_init desc"])
  fix w
  assume c: "claim_slot tid (rb_pid rt) (acquire_init desc) (rb_world rt) = Some (w, invalid_handle)"
    "inv H Q (Suc n) [] (count_outstanding rt\<lparr>rb_world := w\<rparr>)"
    "\<forall>k \<in> set H. slot_of (count_outstanding rt\<lparr>rb_world := w\<rparr>) k = slot_of rt k"
  let ?r = "count_outstanding rt\<lparr>rb_world := w\<rparr>"
  have "thread_ok tid ?r" using tid by (simp add: thread_ok_def count_outstanding_def)
  then have "keeps H Q n ?r (run_inline v tid desc ?r)" by (rule run_inline_keeps [OF u c(2)])
  then have "keeps H Q n rt (run_inline v tid desc ?r)"
    using c(3) unfolding keeps_def by (simp add: count_outstanding_def)
  then show ?thesis using c(1) by (simp add: submit_def acquire_def Let_def count_outstanding_def)
next
  fix w h
  assume c: "claim_slot tid (rb_pid rt) (acquire_init desc) (rb_world rt) = Some (w, h)"
    "fresh_slot H h (acquire_init desc) rt (count_outstanding rt\<lparr>rb_world := w\<rparr>)"
  let ?r = "count_outstanding rt\<lparr>rb_world := w\<rparr>"
  let ?g = "\<lambda>t :: 'b task. t\<lparr>t_state := Queued\<rparr>"
  have pend: "t_pending (acquire_init desc t) = 0" for t
    by (simp add: acquire_init_def Let_def open_successors_def)
  have v: "v_enqueue v = enq" using u by (simp add: user_ok_def)
  note e = enqueue_new_inv [OF inv tid v c(2) refl, of ?g "dpriority desc"]
  have "rt_get h ?r = Some (unat (hindex h))" "handle_valid h" "h \<notin> set H"
    using c(2) rt_base_facts(2) [of "h # H" ?r h] by (auto simp: fresh_slot_def)
  then have "submit v tid desc rt =
      Some (rt_enqueue v tid h (dpriority desc) (rt_upd (unat (hindex h)) ?g ?r), h)"
    using c(1) by (simp add: submit_def acquire_def Let_def count_outstanding_def)
  moreover have "inv (h # H) Q n [] (rt_enqueue v tid h (dpriority desc) (rt_upd (unat (hindex h)) ?g ?r))"
    by (rule e(1)) (use desc pend in \<open>simp_all add: task_inv_def succs_def acquire_init_def Let_def open_successors_def\<close>)
  moreover have "keeps H Q n rt (rt_enqueue v tid h (dpriority desc) (rt_upd (unat (hindex h)) ?g ?r))"
    by (rule e(2)) (use desc pend in \<open>simp_all add: task_inv_def succs_def acquire_init_def Let_def open_successors_def\<close>)
  ultimately show ?thesis using \<open>h \<notin> set H\<close> by blast
qed simp_all

section \<open>Waiting\<close>

lemma keeps_thread: "keeps H Q n rt rt' \<Longrightarrow> thread_ok tid rt \<Longrightarrow> thread_ok tid rt'"
  by (simp add: keeps_def thread_ok_def)

lemma help_loop_keeps:
  assumes "help_loop v pred tid rt = Some rt'"
  shows "user_ok v \<Longrightarrow> inv H Q n [] rt \<Longrightarrow> thread_ok tid rt \<Longrightarrow> keeps H Q n rt rt' \<and> pred rt'"
proof (induction arbitrary: H rule: help_loop.raw_induct [OF _ assms])
  case (1 help_loop v pred tid rt rt')
  show ?case
  proof (cases "pred rt")
    case True
    then show ?thesis using 1 keeps_refl by auto
  next
    case False
    then obtain r where r: "v_try v tid rt = Some r" "help_loop v pred tid (fst r) = Some rt'"
      using 1(2) by (auto split: bind_splits)
    have k: "keeps H Q n rt (fst r)" using 1(3,4,5) r(1) unfolding user_ok_def by blast
    have "keeps H1 Q n (fst r) rt' \<and> pred rt'" if "inv H1 Q n [] (fst r)" for H1
      by (rule 1(1) [OF r(2) 1(3) that keeps_thread [OF k 1(5)]])
    then show ?thesis using k keeps_trans [OF k] unfolding keeps_def by blast
  qed
qed

lemma block_until_keeps:
  assumes "block_until v pred rt = Some rt'"
  shows "user_ok v \<Longrightarrow> inv H Q n [] rt \<Longrightarrow> keeps H Q n rt rt' \<and> pred rt'"
proof (induction arbitrary: H rule: block_until.raw_induct [OF _ assms])
  case (1 block_until v pred rt rt')
  show ?case
  proof (cases "pred rt")
    case True
    then show ?thesis using 1 keeps_refl by auto
  next
    case False
    then have r: "block_until v pred (v_others v rt) = Some rt'" using 1(2) by simp
    have k: "keeps H Q n rt (v_others v rt)" using 1(3,4) unfolding user_ok_def by blast
    have "keeps H1 Q n (v_others v rt) rt' \<and> pred rt'" if "inv H1 Q n [] (v_others v rt)" for H1
      by (rule 1(1) [OF r 1(3) that])
    then show ?thesis using k keeps_trans [OF k] unfolding keeps_def by blast
  qed
qed

lemma rt_wait_keeps:
  assumes u: "user_ok v" and inv: "inv H Q n [] rt" and tid: "thread_ok tid rt"
    and r: "rt_wait v tid h rt = Some rt'"
  shows "keeps H Q n rt rt'"
proof -
  consider "rt' = rt" | "help_loop v (is_complete_internal h) tid rt = Some rt'"
    | rt1 slot rt2 where "register_handle_waiter (hindex h) rt = (rt1, slot)"
      "block_until v (is_complete_internal h) (rt1\<lparr>rb_handle_waiters := rb_handle_waiters rt1 + 1\<rparr>) = Some rt2"
      "rt' = unregister_handle_waiter slot (rt2\<lparr>rb_handle_waiters := rb_handle_waiters rt2 - 1\<rparr>)"
  proof (cases "is_complete_internal h rt \<or> on_own_worker tid rt \<noteq> None")
    case True
    then show ?thesis using r that(1,2) by (cases "is_complete_internal h rt") (simp_all add: rt_wait_def)
  next
    case False
    obtain rt1 slot where "register_handle_waiter (hindex h) rt = (rt1, slot)" by fastforce
    then show ?thesis using r that(3) [of rt1 slot] False by (auto simp: rt_wait_def)
  qed
  then show ?thesis
  proof cases
    case 1
    then show ?thesis using keeps_refl [OF inv] by simp
  next
    case 2
    then show ?thesis using help_loop_keeps [OF 2 u inv tid] by simp
  next
    case (3 rt1 slot rt2)
    let ?rt = "rt1\<lparr>rb_handle_waiters := rb_handle_waiters rt1 + 1\<rparr>"
    have f: "rb_world ?rt = rb_world rt \<and> rb_pid ?rt = rb_pid rt \<and> rb_disp ?rt = rb_disp rt \<and>
        rb_outstanding ?rt = rb_outstanding rt \<and> rb_own ?rt = rb_own rt"
      using 3(1) by (auto simp: register_handle_waiter_def split: option.splits)
    have "inv H Q n [] ?rt" using inv f by (subst rt_inv_frame [where rt = rt]) auto
    then have "keeps H Q n ?rt rt2" using block_until_keeps [OF 3(2) u] by blast
    then have "keeps H Q n rt rt2" by (rule keeps_frame_left) (use f in auto)
    then show ?thesis
      by (rule keeps_frame) (simp_all add: 3(3) unregister_handle_waiter_def)
  qed
qed

lemma rt_waits_keep:
  assumes u: "user_ok v"
  shows "inv H Q n [] rt \<Longrightarrow> thread_ok tid rt \<Longrightarrow>
    fold (\<lambda>d r. Option.bind r (rt_wait v tid d)) ds (Some rt) = Some rt' \<Longrightarrow> keeps H Q n rt rt'"
proof (induction ds arbitrary: rt H)
  case (Cons d ds)
  have none: "fold (\<lambda>d r. Option.bind r (rt_wait v tid d)) ds None = None" for ds
    by (induction ds) auto
  obtain rt1 where rt1: "rt_wait v tid d rt = Some rt1"
    "fold (\<lambda>d r. Option.bind r (rt_wait v tid d)) ds (Some rt1) = Some rt'"
    using Cons.prems(3) none by (cases "rt_wait v tid d rt") auto
  have k: "keeps H Q n rt rt1" by (rule rt_wait_keeps [OF u Cons.prems(1,2) rt1(1)])
  show ?case
    using keeps_trans [OF k] Cons.IH [OF _ keeps_thread [OF k Cons.prems(2)] rt1(2)] by blast
qed (simp add: keeps_refl)

section \<open>Registering dependencies\<close>

lemma sum_list_bump:
  "distinct L \<Longrightarrow> d \<in> set L \<Longrightarrow> f' d = f d + (c :: nat) \<Longrightarrow> (\<And>k. k \<in> set L \<Longrightarrow> k \<noteq> d \<Longrightarrow> f' k = f k) \<Longrightarrow>
   sum_list (map f' L) = sum_list (map f L) + c"
proof (induction L)
  case (Cons x L)
  show ?case
  proof (cases "x = d")
    case True
    then have m: "map f' L = map f L" using Cons.prems by (intro map_cong) auto
    show ?thesis unfolding True list.map m sum_list.Cons Cons.prems(3) by simp
  qed (use Cons in auto)
qed simp

lemma rt_get_upd:
  assumes "rt_base H rt" "\<And>t. t_generation (f t) = t_generation t"
  shows "rt_get d (rt_upd i f rt) = rt_get d rt"
proof -
  obtain p where p: "w_pools (rb_world rt) (rb_pid rt) = Some p" using assms(1) by (auto simp: rt_base_def)
  have "length (p_slots p) = p_capacity p"
    using assms(1) p shape_pool [of "rb_world rt"] by (auto simp: rt_base_def pworld_ok_def pool_shape_def)
  then show ?thesis using p get_upd_slot [of f p d i] assms(2) by (simp add: rt_get_def rt_upd_def)
qed

text \<open>
  What a step of the registration loop keeps, besides the invariant: which handles resolve, and
  the life-cycle states.
\<close>

definition steady :: "TaskHandle list \<Rightarrow> ('b, 'd) rtb \<Rightarrow> ('b, 'd) rtb \<Rightarrow> bool" where
  "steady H rt rt' \<longleftrightarrow> rb_own rt' = rb_own rt \<and> rb_pid rt' = rb_pid rt \<and>
     (\<forall>d. rt_get d rt' = rt_get d rt) \<and>
     (\<forall>k \<in> set H. t_state (slot_of rt' k) = t_state (slot_of rt k))"

lemma steady_trans: "steady H rt rt1 \<Longrightarrow> steady H rt1 rt2 \<Longrightarrow> steady H rt rt2"
  by (simp add: steady_def)

lemma steady_frame:
  assumes "rb_world rt' = rb_world rt" "rb_pid rt' = rb_pid rt" "rb_own rt' = rb_own rt"
  shows "steady H rt rt'"
  using assms slot_of_world [OF assms(1,2)] by (simp add: steady_def rt_get_def)

lemma edge_accepted:
  assumes inv: "inv (h # H) Q n (h # E) rt" and d: "d \<in> set H"
  defines "rt' \<equiv> rt_upd (unat (hindex d)) (\<lambda>t. fst (try_add_successor h (hgeneration d) t)) rt"
  shows "snd (try_add_successor h (hgeneration d) (slot_of rt d))" "inv (h # H) Q n E rt'"
    "steady (h # H) rt rt'"
proof -
  let ?H = "h # H"
  have b: "rt_base ?H rt" and T: "rt_tasks ?H (h # E) rt" using inv by (simp_all add: rt_inv_def)
  have dist: "distinct ?H" by (rule rt_base_distinct [OF b])
  have dH: "d \<in> set ?H" "d \<noteq> h" using d dist by auto
  note acc = try_add_accepted [OF rt_base_facts(4) [OF b dH(1)] rt_tasksD(1) [OF T dH(1)]
      conjunct1 [OF rt_base_facts(3) [OF b dH(1)]], of h]
  show "snd (try_add_successor h (hgeneration d) (slot_of rt d))" by (rule acc(1))
  have b': "rt_base ?H rt'"
    unfolding rt'_def by (rule rt_upd_base [OF b dH(1)]) (simp_all add: try_add_inv try_add_frame)
  have s: "slot_of rt' k = (if k = d then fst (try_add_successor h (hgeneration d) (slot_of rt d)) else slot_of rt k)"
    if "k \<in> set ?H" for k unfolding rt'_def by (rule slot_of_upd [OF b dH(1) that])
  have fr: "t_state (slot_of rt' k) = t_state (slot_of rt k)" "t_closed (slot_of rt' k) = t_closed (slot_of rt k)"
    "t_pending (slot_of rt' k) = t_pending (slot_of rt k)" "t_function (slot_of rt' k) = t_function (slot_of rt k)"
    if "k \<in> set ?H" for k using s [OF that] by (simp_all add: try_add_frame)
  have e: "edges_to ?H rt' k = edges_to ?H rt k + (if k = h then 1 else 0)" for k
    unfolding edges_to_def
    by (rule sum_list_bump [OF dist dH(1)]) (use s acc(2) dH in auto)
  have "rt_tasks ?H E rt'"
    unfolding rt_tasks_def
  proof (intro conjI ballI)
    fix k
    assume k: "k \<in> set ?H"
    show "let t = slot_of rt' k in
        \<not> t_closed t \<and> t_function t \<noteq> None \<and> t_state t \<in> {Waiting, Queued, Executing} \<and>
        unat (t_pending t) = edges_to ?H rt' k + count_list E k \<and> (t_state t = Waiting \<longleftrightarrow> t_pending t \<noteq> 0)"
      using fr [OF k] rt_tasksD [OF T k] e [of k] by (auto simp: Let_def)
    have "set (succs (slot_of rt k)) \<subseteq> set ?H - {k}" by (rule rt_tasks_succs [OF T k])
    then show "set (succs (slot_of rt' k)) \<subseteq> set ?H - {k}"
      using s [OF k] acc(2) dH by auto
  next
    have "sorted_wrt (\<lambda>a b. b \<notin> set (succs (slot_of rt a))) ?H" using T by (simp add: rt_tasks_def)
    moreover have "succs (slot_of rt' h) = succs (slot_of rt h)" using s [of h] dH(2) by simp
    moreover have "sorted_wrt (\<lambda>a b. b \<notin> set (succs (slot_of rt' a))) H"
      if "sorted_wrt (\<lambda>a b. b \<notin> set (succs (slot_of rt a))) H"
      using that by (rule sorted_wrt_mono_rel [rotated]) (use s acc(2) dist in auto)
    ultimately show "sorted_wrt (\<lambda>a b. b \<notin> set (succs (slot_of rt' a))) ?H" by simp
    show "set E \<subseteq> set ?H" using T by (auto simp: rt_tasks_def)
  qed
  moreover have "queued ?H rt' = queued ?H rt" by (rule queued_cong) (rule fr(1))
  ultimately show "inv ?H Q n E rt'"
    using inv b' by (simp add: rt_inv_def rt'_def)
  show "steady ?H rt rt'"
    unfolding steady_def using fr(1)
    by (auto simp: rt'_def rt_get_upd [OF b] try_add_frame)
qed

lemma edge_satisfied:
  assumes inv: "inv (h # H) Q n (h # E) rt" and E: "h \<in> set E"
  defines "rt' \<equiv> rt_upd (unat (hindex h)) (\<lambda>t. t\<lparr>t_pending := t_pending t - 1\<rparr>) rt"
  shows "inv (h # H) Q n E rt'" "steady (h # H) rt rt'"
proof -
  let ?H = "h # H" and ?t = "slot_of rt h"
  have b: "rt_base ?H rt" and T: "rt_tasks ?H (h # E) rt" using inv by (simp_all add: rt_inv_def)
  have h: "h \<in> set ?H" by simp
  note D = rt_tasksD [OF T h]
  have c: "count_list E h \<noteq> 0" using E by (simp add: count_list_0_iff)
  have pend: "unat (t_pending ?t) = Suc (edges_to ?H rt h + count_list E h)" using D(4) by simp
  then have pend1: "unat (t_pending ?t - 1) = edges_to ?H rt h + count_list E h"
    by (simp add: unat_sub word_le_nat_alt)
  then have nz: "t_pending ?t - 1 \<noteq> 0" using c by (metis add_is_0 unat_0)
  have w: "t_state ?t = Waiting" using D(5) pend by auto
  have s: "slot_of rt' k = (if k = h then ?t\<lparr>t_pending := t_pending ?t - 1\<rparr> else slot_of rt k)"
    if "k \<in> set ?H" for k unfolding rt'_def by (rule slot_of_upd [OF b h that])
  have "rt_base ?H rt'" unfolding rt'_def by (rule rt_upd_base [OF b h]) (simp_all add: task_inv_def)
  moreover have "rt_tasks ?H E rt'"
    using D pend1 nz w T by (intro rt_tasks_change [OF T h s]) (auto simp: succs_def rt_tasks_def)
  moreover have "queued ?H rt' = queued ?H rt" by (rule queued_cong) (use s in auto)
  ultimately show "inv ?H Q n E rt'" using inv by (simp add: rt_inv_def rt'_def)
  show "steady ?H rt rt'"
    unfolding steady_def using s by (auto simp: rt'_def rt_get_upd [OF b])
qed

lemma register_dependency_inv:
  fixes tid :: nat
  assumes inv: "inv (h # H) Q n (h # E) rt" and E: "h \<in> set E"
    and d: "d \<in> set H \<or> rt_get d rt = None"
  defines "rt' \<equiv> register_dependency tid (unat (hindex h)) h d rt"
  shows "inv (h # H) Q n E rt'" "steady (h # H) rt rt'"
proof -
  let ?rt1 = "rt\<lparr>rb_edges := sc_increment (thread_home tid rt) (rb_edges rt)\<rparr>"
  let ?rt2 = "?rt1\<lparr>rb_presatisfied := sc_increment (thread_home tid ?rt1) (rb_presatisfied ?rt1)\<rparr>"
  have get: "rt_get k ?rt1 = rt_get k rt" for k by (simp add: rt_get_def)
  have st: "steady (h # H) rt ?rt1" "steady (h # H) rt ?rt2" by (rule steady_frame; simp)+
  have i: "inv (h # H) Q n (h # E) ?rt1" "inv (h # H) Q n (h # E) ?rt2"
    using inv by (subst rt_inv_frame [where rt = rt]; simp)+
  have "inv (h # H) Q n E rt' \<and> steady (h # H) rt rt'"
  proof (cases "d \<in> set H")
    case True
    have b: "rt_base (h # H) rt" using inv by (simp add: rt_inv_def)
    have g: "rt_get d ?rt1 = Some (unat (hindex d))" using rt_base_facts(2) [OF b] True get by simp
    note a = edge_accepted [OF i(1) True]
    have "rt_slot (unat (hindex d)) ?rt1 = slot_of ?rt1 d" by (simp add: slot_of_def)
    then have "rt' = rt_upd (unat (hindex d)) (\<lambda>t. fst (try_add_successor h (hgeneration d) t)) ?rt1"
      using g a(1) by (simp add: rt'_def register_dependency_def Let_def)
    then show ?thesis using a(2,3) steady_trans [OF st(1)] by simp
  next
    case False
    then have "rt_get d ?rt1 = None" using d get by simp
    then have "rt' = rt_upd (unat (hindex h)) (\<lambda>t. t\<lparr>t_pending := t_pending t - 1\<rparr>) ?rt2"
      by (simp add: rt'_def register_dependency_def Let_def)
    then show ?thesis using edge_satisfied [OF i(2) E] steady_trans [OF st(2)] by simp
  qed
  then show "inv (h # H) Q n E rt'" "steady (h # H) rt rt'" by simp_all
qed

lemma register_dependencies_inv:
  "inv (h # H) Q n (replicate (Suc (length ds)) h) rt \<Longrightarrow>
   \<forall>d \<in> set ds. d \<in> set H \<or> rt_get d rt = None \<Longrightarrow>
   inv (h # H) Q n [h] (fold (register_dependency tid (unat (hindex h)) h) ds rt) \<and>
   steady (h # H) rt (fold (register_dependency tid (unat (hindex h)) h) ds rt)"
proof (induction ds arbitrary: rt)
  case (Cons d ds)
  let ?rt = "register_dependency tid (unat (hindex h)) h d rt"
  have "inv (h # H) Q n (h # replicate (Suc (length ds)) h) rt" using Cons.prems(1) by simp
  from register_dependency_inv [OF this, of d tid] Cons.prems(2)
  have r: "inv (h # H) Q n (replicate (Suc (length ds)) h) ?rt" "steady (h # H) rt ?rt" by auto
  have "\<forall>d \<in> set ds. d \<in> set H \<or> rt_get d ?rt = None"
    using Cons.prems(2) r(2) by (auto simp: steady_def)
  then show ?case using Cons.IH [OF r(1)] steady_trans [OF r(2)] by simp
qed (simp add: steady_def)

lemma submit_after_inv:
  assumes u: "user_ok v" and inv: "inv H Q n [] rt" and tid: "thread_ok tid rt"
    and desc: "dfunction desc \<noteq> None" and ds: "\<forall>d \<in> set ds. d \<in> set H \<or> rt_get d rt = None"
    and len: "length ds + 1 < 2 ^ 32"
  shows "case submit_after v tid desc ds rt of
      Some (rt', h) \<Rightarrow> keeps H Q n rt rt' \<and> (handle_valid h \<longrightarrow> h \<notin> set H \<and> inv (h # H) Q n [] rt')
    | None \<Rightarrow> \<exists>w. acquire tid (rb_pid rt) desc (rb_world rt) = Some (w, invalid_handle)"
proof (cases "ds = []")
  case True
  then show ?thesis using submit_inv [OF u inv tid desc] by (auto simp: submit_after_def split: option.split)
next
  case False
  show ?thesis
  proof (rule claim_cases [OF inv tid, of "acquire_init desc"])
    fix w
    assume c: "claim_slot tid (rb_pid rt) (acquire_init desc) (rb_world rt) = Some (w, invalid_handle)"
      "inv H Q (Suc n) [] (count_outstanding rt\<lparr>rb_world := w\<rparr>)"
      "\<forall>k \<in> set H. slot_of (count_outstanding rt\<lparr>rb_world := w\<rparr>) k = slot_of rt k"
    let ?r = "count_outstanding rt\<lparr>rb_world := w\<rparr>"
    let ?waits = "fold (\<lambda>d r. Option.bind r (rt_wait v tid d)) ds (Some ?r)"
    have t: "thread_ok tid ?r" using tid by (simp add: thread_ok_def count_outstanding_def)
    have s: "submit_after v tid desc ds rt = map_option (\<lambda>rt3. (run_inline v tid desc rt3, invalid_handle)) ?waits"
      using c(1) False by (simp add: submit_after_def acquire_def Let_def count_outstanding_def)
    show ?thesis
    proof (cases ?waits)
      case None
      then show ?thesis using s c(1) by (simp add: acquire_def)
    next
      case (Some rt3)
      have k: "keeps H Q (Suc n) ?r rt3" by (rule rt_waits_keep [OF u c(2) t Some])
      then have "keeps H Q n ?r (run_inline v tid desc rt3)"
      proof -
        obtain H1 where H1: "inv H1 Q (Suc n) [] rt3" "\<forall>h \<in> set H. t_state (slot_of ?r h) = Executing \<longrightarrow>
            h \<in> set H1 \<and> t_state (slot_of rt3 h) = Executing" using k by (auto simp: keeps_def)
        have "keeps H1 Q n rt3 (run_inline v tid desc rt3)"
          by (rule run_inline_keeps [OF u H1(1) keeps_thread [OF k t]])
        then show ?thesis using k H1(2) unfolding keeps_def by fastforce
      qed
      then have "keeps H Q n rt (run_inline v tid desc rt3)"
        using c(3) unfolding keeps_def by (simp add: count_outstanding_def)
      then show ?thesis using s Some by simp
    qed
  next
    fix w h
    assume c: "claim_slot tid (rb_pid rt) (acquire_init desc) (rb_world rt) = Some (w, h)"
      "fresh_slot H h (acquire_init desc) rt (count_outstanding rt\<lparr>rb_world := w\<rparr>)"
    let ?i = "unat (hindex h)" and ?r2 = "count_outstanding rt\<lparr>rb_world := w\<rparr>"
    let ?g = "\<lambda>t :: 'b task. t\<lparr>t_state := Waiting, t_pending := of_nat (length ds) + 1\<rparr>"
    let ?r4 = "rt_upd ?i ?g ?r2"
    let ?r5 = "fold (register_dependency tid ?i h) ds ?r4"
    obtain t where b2: "rt_base (h # H) ?r2" and t: "slot_of ?r2 h = acquire_init desc t"
      and F: "h \<notin> set H" "handle_valid h" "\<And>k. k \<in> set H \<Longrightarrow> slot_of ?r2 k = slot_of rt k"
        "\<And>d. rt_get d ?r2 = rt_get d rt" "length (w_caches (rb_world ?r2)) = length (w_caches (rb_world rt))"
      using c(2) by (auto simp: fresh_slot_def)
    have u32: "unat (of_nat (length ds) + 1 :: u32) = Suc (length ds)"
    proof -
      have "(of_nat (length ds) + 1 :: u32) = of_nat (Suc (length ds))" by simp
      then show ?thesis using len by (simp add: unat_of_nat del: of_nat_Suc)
    qed
    have b4: "rt_base (h # H) ?r4" by (rule rt_upd_base [OF b2]) (simp_all add: task_inv_def)
    have s4: "slot_of ?r4 k = (if k = h then ?g (acquire_init desc t) else slot_of ?r2 k)"
      if "k \<in> set (h # H)" for k using slot_of_upd [OF b2 _ that, of h ?g] t by simp
    have so: "slot_of ?r4 k = slot_of rt k" if "k \<in> set H" for k using s4 [of k] that F(1,3) by auto
    have T: "rt_tasks H [] rt" using inv by (simp add: rt_inv_def)
    have c2: "count_list (replicate m h) h = m" for m by (induction m) auto
    have nz: "(of_nat (length ds) + 1 :: u32) \<noteq> 0" using u32 by (metis nat.distinct(1) unat_0)
    have T4: "rt_tasks (h # H) (replicate (Suc (length ds)) h) ?r4"
      using desc u32 nz c2 by (intro fresh_tasks [OF T c(2) s4])
        (auto simp: succs_def acquire_init_def Let_def open_successors_def)
    have "queued H ?r4 = queued H rt" by (rule queued_cong) (simp add: so)
    then have q4: "queued (h # H) ?r4 = queued H rt" using s4 [of h] by (simp add: queued_def)
    have i4: "inv (h # H) Q n (replicate (Suc (length ds)) h) ?r4"
      using inv b4 T4 q4 F(5) by (simp add: rt_inv_def count_outstanding_def)
    have g4: "rt_get d ?r4 = rt_get d rt" for d using F(4) rt_get_upd [OF b2] by simp
    have r5: "inv (h # H) Q n [h] ?r5" "steady (h # H) ?r4 ?r5"
      using register_dependencies_inv [OF i4] ds g4 by auto
    have t5: "thread_ok tid ?r5" using r5(2) tid by (simp add: steady_def thread_ok_def count_outstanding_def)
    have v: "v_enqueue v = enq" using u by (simp add: user_ok_def)
    note d = drop_edge_inv [OF r5(1) t5 v]
    have "rt_get h ?r2 = Some ?i" using rt_base_facts(2) [OF b2] by simp
    then have s: "submit_after v tid desc ds rt = Some (drop_edge v tid h (dpriority desc) ?r5, h)"
      using c(1) False F(2)
      by (simp add: submit_after_def acquire_def Let_def count_outstanding_def drop_edge_def rt_upd_twice)
    have "t_state (slot_of (drop_edge v tid h (dpriority desc) ?r5) k) = Executing"
      if "k \<in> set H" "t_state (slot_of rt k) = Executing" for k
      using that so r5(2) by (subst drop_edge_executing [OF r5(1)]) (auto simp: steady_def)
    then have "keeps H Q n rt (drop_edge v tid h (dpriority desc) ?r5)"
      unfolding keeps_def using d r5(2)
      by (intro conjI exI [of _ "h # H"] ballI impI) (simp_all add: steady_def count_outstanding_def)
    then show ?thesis using s d(1) F(1) by simp
  qed simp_all
qed

lemma submit_emplace_inv:
  assumes u: "user_ok v" and inv: "inv H Q n [] rt" and tid: "thread_ok tid rt"
  shows "\<exists>rt' r. submit_emplace v tid construct p rt = Some (rt', r) \<and> keeps H Q n rt rt' \<and>
    (case r of Inl e \<Rightarrow> construct = Inl e | Inr h \<Rightarrow> handle_valid h \<longrightarrow> h \<notin> set H \<and> inv (h # H) Q n [] rt')"
proof (rule claim_cases [OF inv tid, of "reserve_init p"])
  fix w
  assume c: "claim_slot tid (rb_pid rt) (reserve_init p) (rb_world rt) = Some (w, invalid_handle)"
    "inv H Q (Suc n) [] (count_outstanding rt\<lparr>rb_world := w\<rparr>)"
    "\<forall>k \<in> set H. slot_of (count_outstanding rt\<lparr>rb_world := w\<rparr>) k = slot_of rt k"
  let ?r = "count_outstanding rt\<lparr>rb_world := w\<rparr>"
  show ?thesis
  proof (cases construct)
    case (Inl e)
    let ?r' = "?r\<lparr>rb_outstanding := rb_outstanding ?r - 1\<rparr>"
    have sl: "slot_of ?r' = slot_of ?r" by (rule slot_of_world) simp_all
    have "inv H Q n [] ?r'"
      using c(2) sl by (auto simp: rt_inv_def rt_base_def rt_tasks_def edges_to_def queued_def)
    then have "keeps H Q n rt ?r'" using c(3) sl unfolding keeps_def by (auto simp: count_outstanding_def)
    then show ?thesis using c(1) Inl by (simp add: submit_emplace_def reserve_def Let_def count_outstanding_def)
  next
    case (Inr f)
    have "thread_ok tid ?r" using tid by (simp add: thread_ok_def count_outstanding_def)
    then have "keeps H Q n ?r (run_inline v tid (make_desc (Some f) p) ?r)" by (rule run_inline_keeps [OF u c(2)])
    then have "keeps H Q n rt (run_inline v tid (make_desc (Some f) p) ?r)"
      using c(3) unfolding keeps_def by (simp add: count_outstanding_def)
    then show ?thesis using c(1) Inr by (simp add: submit_emplace_def reserve_def Let_def count_outstanding_def)
  qed
next
  fix w h
  assume c: "claim_slot tid (rb_pid rt) (reserve_init p) (rb_world rt) = Some (w, h)"
    "fresh_slot H h (reserve_init p) rt (count_outstanding rt\<lparr>rb_world := w\<rparr>)"
  let ?r = "count_outstanding rt\<lparr>rb_world := w\<rparr>" and ?i = "unat (hindex h)"
  have v: "v_enqueue v = enq" using u by (simp add: user_ok_def)
  have F: "rt_base (h # H) ?r" "h \<notin> set H" "handle_valid h" "\<And>k. k \<in> set H \<Longrightarrow> slot_of ?r k = slot_of rt k"
    "length (w_caches w) = length (w_caches (rb_world rt))"
    using c(2) by (auto simp: fresh_slot_def)
  show ?thesis
  proof (cases construct)
    case (Inr f)
    let ?g = "\<lambda>t. t\<lparr>t_function := Some f, t_state := Queued\<rparr>"
    have two: "rt_upd ?i (\<lambda>t. t\<lparr>t_function := Some f\<rparr>) ?r\<lparr>rb_world :=
        publish (rb_pid rt) ?i Queued (rb_world (rt_upd ?i (\<lambda>t. t\<lparr>t_function := Some f\<rparr>) ?r))\<rparr> = rt_upd ?i ?g ?r"
      using rt_upd_twice [of ?i "\<lambda>t. t\<lparr>t_state := Queued\<rparr>" "\<lambda>t. t\<lparr>t_function := Some f\<rparr>" ?r]
      by (simp add: rt_upd_def publish_def count_outstanding_def)
    have s: "submit_emplace v tid construct p rt = Some (rt_enqueue v tid h p (rt_upd ?i ?g ?r), Inr h)"
      using c(1) Inr F(3) two
      by (simp add: submit_emplace_def reserve_def Let_def) (simp add: count_outstanding_def rt_upd_def)
    note e = enqueue_new_inv [OF inv tid v c(2) refl, of ?g p]
    have "inv (h # H) Q n [] (rt_enqueue v tid h p (rt_upd ?i ?g ?r))"
      by (rule e(1)) (simp_all add: task_inv_def succs_def reserve_init_def open_successors_def)
    moreover have "keeps H Q n rt (rt_enqueue v tid h p (rt_upd ?i ?g ?r))"
      by (rule e(2)) (simp_all add: task_inv_def succs_def reserve_init_def open_successors_def)
    ultimately show ?thesis using s F(2) by auto
  next
    case (Inl e)
    let ?pid = "rb_pid rt"
    have ok: "pworld_ok (map (Pair ?pid) (h # H)) w" and "w_pools w ?pid \<noteq> None"
      using F(1) by (simp_all add: rt_base_def count_outstanding_def)
    then obtain q where q: "w_pools w ?pid = Some q" by blast
    have tc: "tid < length (w_caches w)" using inv tid F(5) by (simp add: rt_inv_def thread_ok_def)
    obtain w' r where w': "release tid ?pid h w = Some w'" "pworld_ok (remove1 (?pid, h) (map (Pair ?pid) (h # H))) w'"
      "w_pools w' ?pid = Some r" "p_slots r = (p_slots q)[?i := release_reset (p_slots q ! ?i)]"
      "length (w_caches w') = length (w_caches w)"
      by (rule release_ok [OF ok _ tc q, of h]) (simp, blast)
    define r' where "r' = ?r\<lparr>rb_world := w', rb_outstanding := rb_outstanding ?r - 1\<rparr>"
    have sl: "slot_of r' k = slot_of rt k" if k: "k \<in> set H" for k
    proof -
      have "unat (hindex k) \<noteq> ?i" using idx_inj [OF F(1), of k h] k F(2) by auto
      then have "slot_of r' k = slot_of ?r k"
        using w'(3,4) q by (simp add: r'_def slot_of_def rt_slot_def slot_at_def count_outstanding_def)
      then show ?thesis using F(4) [OF k] by simp
    qed
    have "rt_base H r'" using w'(2,3) by (simp add: r'_def rt_base_def count_outstanding_def)
    moreover have "rt_tasks H [] r'"
    proof -
      have T: "rt_tasks H [] rt" using inv by (simp add: rt_inv_def)
      have e: "edges_to H r' k = edges_to H rt k" for k by (rule edges_to_cong) (simp add: sl)
      have "sorted_wrt (\<lambda>a b. b \<notin> set (succs (slot_of rt a))) H" using T by (simp add: rt_tasks_def)
      then have "sorted_wrt (\<lambda>a b. b \<notin> set (succs (slot_of r' a))) H"
        by (rule sorted_wrt_mono_rel [rotated]) (simp add: sl)
      then show ?thesis using T sl e by (simp add: rt_tasks_def)
    qed
    moreover have "queued H r' = queued H rt" by (rule queued_cong) (simp add: sl)
    ultimately have "inv H Q n [] r'"
      using inv w'(5) F(5) by (simp add: rt_inv_def) (simp add: r'_def count_outstanding_def)
    then have "keeps H Q n rt r'" using sl unfolding keeps_def by (auto simp: r'_def count_outstanding_def)
    moreover have "submit_emplace v tid construct p rt = Some (r', Inl e)"
      using c(1) Inl F(3) w'(1) by (simp add: r'_def submit_emplace_def reserve_def Let_def count_outstanding_def)
    ultimately show ?thesis using Inl by simp
  qed
qed simp_all

section \<open>Executing a task\<close>

text \<open>The task is marked as running, and then its body runs.\<close>

lemma execute_begin:
  assumes inv: "inv H (add_mset h Q) n [] rt" and tid: "thread_ok tid rt"
  obtains f rt1 where "h \<in> set H" "t_state (slot_of rt h) = Queued" "inv H Q n [] rt1" "thread_ok tid rt1"
    "rb_own rt1 = rb_own rt" "rb_pid rt1 = rb_pid rt" "rb_disp rt1 = rb_disp rt"
    "\<And>k. k \<in> set H \<Longrightarrow> t_state (slot_of rt1 k) = (if k = h then Executing else t_state (slot_of rt k))"
    "execute v tid h rt = (case v_call v f tid (context_index tid rt1) rt1 of
        (rt2, None) \<Rightarrow> complete v tid h rt2
      | (rt2, Some e) \<Rightarrow> complete v tid h (record_uncaught_exception tid h e rt2))"
proof -
  let ?i = "unat (hindex h)" and ?g = "\<lambda>t :: 'b task. t\<lparr>t_state := Executing\<rparr>"
  let ?rt1 = "rt_upd ?i ?g rt"
  have b: "rt_base H rt" and T: "rt_tasks H [] rt" and q: "mset (queued H rt) = content (rb_disp rt) + add_mset h Q"
    using inv by (simp_all add: rt_inv_def)
  have "h \<in># mset (queued H rt)" using q by simp
  then have h: "h \<in> set H" and st: "t_state (slot_of rt h) = Queued" by (auto simp: queued_def)
  note D = rt_tasksD [OF T h]
  obtain f where f: "t_function (slot_of rt h) = Some f" using D(2) by auto
  have b1: "rt_base H ?rt1" by (rule rt_upd_base [OF b h]) (simp_all add: task_inv_def)
  have s1: "slot_of ?rt1 k = (if k = h then ?g (slot_of rt h) else slot_of rt k)" if "k \<in> set H" for k
    by (rule slot_of_upd [OF b h that])
  have "rt_tasks H [] ?rt1"
    using D st by (intro rt_tasks_change [OF T h s1]) (auto simp: succs_def)
  moreover have "mset (queued H rt) = add_mset h (mset (queued H ?rt1))"
    unfolding queued_def
    by (rule mset_filter_change [OF rt_base_distinct [OF b] h]) (use s1 st h in auto)
  ultimately have i1: "inv H Q n [] ?rt1" using inv b1 q by (simp add: rt_inv_def)
  have t1: "thread_ok tid ?rt1" using tid by (simp add: thread_ok_def)
  have sl: "rt_slot ?i rt = slot_of rt h" "rt_slot ?i ?rt1 = slot_of ?rt1 h" by (simp_all add: slot_of_def)
  have "execute v tid h rt = (case v_call v f tid (context_index tid ?rt1) ?rt1 of
        (rt2, None) \<Rightarrow> complete v tid h rt2
      | (rt2, Some e) \<Rightarrow> complete v tid h (record_uncaught_exception tid h e rt2))"
    using rt_base_facts(2) [OF b h] st f s1 [OF h] by (simp add: execute_def Let_def sl)
  then show ?thesis using that [OF h st i1 t1] s1 by simp
qed

lemma execute_inv:
  assumes u: "user_ok v" and inv: "inv H (add_mset h Q) n [] rt" and tid: "thread_ok tid rt"
  shows "\<exists>rt'. execute v tid h rt = Some rt' \<and> keeps H Q n rt rt'"
proof (rule execute_begin [OF inv tid, of v])
  fix f rt1
  assume h: "h \<in> set H" and st: "t_state (slot_of rt h) = Queued" and i1: "inv H Q n [] rt1"
    and t1: "thread_ok tid rt1" and o1: "rb_own rt1 = rb_own rt" "rb_pid rt1 = rb_pid rt"
    and s1: "\<And>k. k \<in> set H \<Longrightarrow> t_state (slot_of rt1 k) = (if k = h then Executing else t_state (slot_of rt k))"
    and ex: "execute v tid h rt = (case v_call v f tid (context_index tid rt1) rt1 of
        (rt2, None) \<Rightarrow> complete v tid h rt2
      | (rt2, Some e) \<Rightarrow> complete v tid h (record_uncaught_exception tid h e rt2))"
  obtain rt2 e where c: "v_call v f tid (context_index tid rt1) rt1 = (rt2, e)" by fastforce
  have k2: "keeps H Q n rt1 rt2" using u i1 t1 c unfolding user_ok_def by (metis fst_conv)
  let ?rt3 = "case e of None \<Rightarrow> rt2 | Some x \<Rightarrow> record_uncaught_exception tid h x rt2"
  have k3: "keeps H Q n rt1 ?rt3"
    by (cases e) (use k2 in \<open>auto intro: keeps_frame simp: record_uncaught_exception_def Let_def\<close>)
  then obtain H3 where H3: "inv H3 Q n [] ?rt3" "\<forall>k \<in> set H. t_state (slot_of rt1 k) = Executing \<longrightarrow>
      k \<in> set H3 \<and> t_state (slot_of ?rt3 k) = Executing" by (auto simp: keeps_def)
  have hex: "h \<in> set H3" "t_state (slot_of ?rt3 h) = Executing" using H3(2) h s1 [OF h] by auto
  have v: "v_enqueue v = enq" using u by (simp add: user_ok_def)
  obtain rt4 where r4: "complete v tid h ?rt3 = Some rt4" "inv (remove1 h H3) Q n [] rt4"
    "rb_own rt4 = rb_own ?rt3" "rb_pid rt4 = rb_pid ?rt3"
    "\<forall>k \<in> set (remove1 h H3). t_state (slot_of rt4 k) = Executing \<longleftrightarrow> t_state (slot_of ?rt3 k) = Executing"
    using complete_inv [OF H3(1) hex keeps_thread [OF k3 t1] v] by blast
  have "execute v tid h rt = complete v tid h ?rt3" using ex c by (cases e) simp_all
  moreover have "keeps H Q n rt rt4"
    unfolding keeps_def
  proof (intro conjI exI [of _ "remove1 h H3"] ballI impI)
    fix k
    assume k: "k \<in> set H" "t_state (slot_of rt k) = Executing"
    then have "k \<noteq> h" using st by auto
    moreover have "k \<in> set H3" "t_state (slot_of ?rt3 k) = Executing"
      using H3(2) k s1 [OF k(1)] by auto
    ultimately show "k \<in> set (remove1 h H3)" "t_state (slot_of rt4 k) = Executing"
      using r4(5) by simp_all
  qed (use r4 k3 o1 in \<open>simp_all add: keeps_def\<close>)
  ultimately show ?thesis using r4(1) by simp
qed

end

end
