(* ===== verification/Runtime_Progress.thy ===== *)
theory Runtime_Progress
  imports Runtime_Correct
begin

text \<open>
  What a derived runtime adds to \<open>RuntimeBase\<close>: a source of ready tasks (locale \<open>work_source\<close>), and
  with it \<open>try_execute_one\<close>. The progress argument: the oldest unfinished task is never waiting, so
  a thread that helps finds something to run as long as anything is outstanding.
\<close>

section \<open>Running one ready task\<close>

text \<open>
  \<open>try_execute_one\<close>, over the function \<open>pick\<close> by which the derived runtime finds a ready task for
  the calling thread (worker \<open>Some i\<close>, or no worker).
\<close>

definition try_execute ::
    "(u32 option \<Rightarrow> 'd \<Rightarrow> 'd \<times> TaskHandle) \<Rightarrow> ('b, 'd) vtable \<Rightarrow> nat \<Rightarrow> ('b, 'd) rtb \<Rightarrow> (('b, 'd) rtb \<times> bool) option" where
  "try_execute pick v tid rt =
     (case pick (on_own_worker tid rt) (rb_disp rt) of
        (d, h) \<Rightarrow>
          (if \<not> handle_valid h then Some (rt\<lparr>rb_disp := d\<rparr>, False)
           else map_option (\<lambda>rt'. (rt', True)) (execute v tid h (rt\<lparr>rb_disp := d\<rparr>))))"

text \<open>Bodies that do not call the runtime (they may throw).\<close>

definition silent :: "('b, 'd) vtable \<Rightarrow> bool" where
  "silent v \<longleftrightarrow> (\<forall>f tid i rt. fst (v_call v f tid i rt) = rt)"

definition idle :: "TaskHandle list \<Rightarrow> ('b, 'd) rtb \<Rightarrow> bool" where
  "idle H rt \<longleftrightarrow> (\<forall>h \<in> set H. t_state (slot_of rt h) \<noteq> Executing)"

lemma release_dependent_disp:
  assumes "\<And>c h p d. P (v_enqueue v c h p d) = P d"
  shows "P (rb_disp (release_dependent v tid h rt)) = P (rb_disp rt)"
  using assms by (simp add: release_dependent_def Let_def rt_enqueue_def split: option.split)

lemma release_dependents_disp:
  assumes "\<And>c h p d. P (v_enqueue v c h p d) = P d"
  shows "P (rb_disp (fold (release_dependent v tid) E rt)) = P (rb_disp rt)"
proof (induction E arbitrary: rt)
  case (Cons h E)
  then show ?case by (simp add: release_dependent_disp [where P = P, OF assms])
qed simp

lemma release_dependents_frame:
  "rb_events (fold (release_dependent v tid) E rt) = rb_events rt \<and>
   rb_handle_waiters (fold (release_dependent v tid) E rt) = rb_handle_waiters rt \<and>
   rb_overflow (fold (release_dependent v tid) E rt) = rb_overflow rt \<and>
   rb_wait_slots (fold (release_dependent v tid) E rt) = rb_wait_slots rt \<and>
   rb_all_waiters (fold (release_dependent v tid) E rt) = rb_all_waiters rt"
proof (induction E arbitrary: rt)
  case (Cons h E)
  then show ?case
    by (simp add: release_dependent_def Let_def rt_enqueue_def rt_upd_def split: option.split)
qed simp

lemma complete_disp:
  assumes "complete v tid h rt = Some rt'" "\<And>c h p d. P (v_enqueue v c h p d) = P d"
  shows "P (rb_disp rt') = P (rb_disp rt)"
  using assms(1)
  by (auto simp: complete_def Let_def release_dependents_disp [where P = P, OF assms(2)]
      split: option.splits if_splits)

section \<open>A source of ready tasks\<close>

text \<open>\<open>finds d c\<close>: the thread \<open>c\<close> finds a task whenever the dispatcher holds one.\<close>

locale work_source = dispatcher dinv content caller enq
  for dinv :: "'d \<Rightarrow> bool" and content caller enq +
  fixes pick :: "u32 option \<Rightarrow> 'd \<Rightarrow> 'd \<times> TaskHandle"
    and finds :: "'d \<Rightarrow> u32 option \<Rightarrow> bool"
  assumes pick_inv: "dinv d \<Longrightarrow> caller d c \<Longrightarrow> dinv (fst (pick c d))"
    and pick_content: "dinv d \<Longrightarrow> caller d c \<Longrightarrow> content d = content (fst (pick c d)) +
      (if handle_valid (snd (pick c d)) then {#snd (pick c d)#} else {#})"
    and pick_caller: "dinv d \<Longrightarrow> caller d c \<Longrightarrow> caller (fst (pick c d)) c' \<longleftrightarrow> caller d c'"
    and pick_finds: "dinv d \<Longrightarrow> caller d c \<Longrightarrow> finds d c \<Longrightarrow> content d \<noteq> {#} \<Longrightarrow> handle_valid (snd (pick c d))"
    and finds_pick: "dinv d \<Longrightarrow> caller d c \<Longrightarrow> finds (fst (pick c d)) c' \<longleftrightarrow> finds d c'"
    and finds_enq: "finds (enq c h p d) c' \<longleftrightarrow> finds d c'"
begin

lemma inv_disp:
  assumes "inv H Q n E rt" "dinv d" "content (rb_disp rt) + Q = content d + Q'"
    "\<And>c. caller d c \<longleftrightarrow> caller (rb_disp rt) c"
  shows "inv H Q' n E (rt\<lparr>rb_disp := d\<rparr>)"
  using assms
  by (auto simp: rt_inv_def rt_base_def rt_tasks_def edges_to_def queued_def slot_of_def rt_slot_def Let_def)

lemma slot_of_disp [simp]: "slot_of (rt\<lparr>rb_disp := d\<rparr>) = slot_of rt"
  by (rule slot_of_world) simp_all

lemma pick_step:
  assumes inv: "inv H Q n [] rt" and tid: "thread_ok tid rt" and t: "pick (on_own_worker tid rt) (rb_disp rt) = (d, h)"
  shows "inv H (if handle_valid h then add_mset h Q else Q) n [] (rt\<lparr>rb_disp := d\<rparr>)"
    "thread_ok tid (rt\<lparr>rb_disp := d\<rparr>)"
proof -
  have c: "caller (rb_disp rt) (on_own_worker tid rt)" using thread_caller [OF inv tid] by (simp add: on_own_worker_def)
  have di: "dinv (rb_disp rt)" using inv by (simp add: rt_inv_def)
  show "inv H (if handle_valid h then add_mset h Q else Q) n [] (rt\<lparr>rb_disp := d\<rparr>)"
    by (rule inv_disp [OF inv]) (use pick_inv [OF di c] pick_content [OF di c] pick_caller [OF di c] t in auto)
  show "thread_ok tid (rt\<lparr>rb_disp := d\<rparr>)" using tid by (simp add: thread_ok_def)
qed

lemma keeps_from:
  "keeps H Q n rt1 rt' \<Longrightarrow> rb_own rt1 = rb_own rt \<Longrightarrow> rb_pid rt1 = rb_pid rt \<Longrightarrow> slot_of rt1 = slot_of rt \<Longrightarrow>
   keeps H Q n rt rt'"
  by (simp add: keeps_def)

lemma try_execute_keeps:
  assumes u: "user_ok v" and inv: "inv H Q n [] rt" and tid: "thread_ok tid rt"
  shows "\<exists>r. try_execute pick v tid rt = Some r \<and> keeps H Q n rt (fst r)"
proof -
  obtain d h where t: "pick (on_own_worker tid rt) (rb_disp rt) = (d, h)" by force
  note s = pick_step [OF inv tid t]
  show ?thesis
  proof (cases "handle_valid h")
    case True
    then obtain rt' where r: "execute v tid h (rt\<lparr>rb_disp := d\<rparr>) = Some rt'" "keeps H Q n (rt\<lparr>rb_disp := d\<rparr>) rt'"
      using execute_inv [OF u _ s(2), of H h Q n] s(1) by auto
    have "keeps H Q n rt rt'" by (rule keeps_from [OF r(2)]) simp_all
    then show ?thesis using t True r(1) by (simp add: try_execute_def)
  next
    case False
    then have "keeps H Q n rt (rt\<lparr>rb_disp := d\<rparr>)"
      using keeps_refl [of H Q n "rt\<lparr>rb_disp := d\<rparr>"] s(1) by (auto intro: keeps_from)
    then show ?thesis using t False by (simp add: try_execute_def)
  qed
qed

text \<open>So \<open>try_execute_one\<close> may stand for \<open>v_try\<close>: executing a task does not consult it.\<close>

lemma user_ok_try:
  fixes v :: "('b, 'd) vtable"
  assumes "user_ok v"
  shows "user_ok (v\<lparr>v_try := try_execute pick v\<rparr>)"
  unfolding user_ok_def
proof (intro conjI allI impI)
  fix H Q n tid and rt :: "('b, 'd) rtb" and r
  assume "inv H Q n [] rt" "thread_ok tid rt" "v_try (v\<lparr>v_try := try_execute pick v\<rparr>) tid rt = Some r"
  then show "keeps H Q n rt (fst r)" using try_execute_keeps [OF assms] by fastforce
qed (use assms in \<open>simp_all add: user_ok_def\<close>)

section \<open>Progress\<close>

lemma oldest_not_waiting:
  assumes inv: "inv H Q n [] rt" and H: "H \<noteq> []"
  shows "t_state (slot_of rt (last H)) \<noteq> Waiting"
proof -
  have T: "rt_tasks H [] rt" using inv by (simp add: rt_inv_def)
  have l: "last H \<in> set H" using H by simp
  have s: "sorted_wrt (\<lambda>a b. b \<notin> set (succs (slot_of rt a))) H" using T by (simp add: rt_tasks_def)
  have "last H \<notin> set (succs (slot_of rt k))" if k: "k \<in> set H" for k
  proof (cases "k = last H")
    case True
    then show ?thesis using rt_tasks_succs [OF T l] by auto
  next
    case False
    have "H = butlast H @ [last H]" using H by simp
    then have "sorted_wrt (\<lambda>a b. b \<notin> set (succs (slot_of rt a))) (butlast H @ [last H])" "k \<in> set (butlast H)"
      using s k False by (metis, metis append_butlast_last_id in_set_conv_decomp_last set_append
        Un_iff empty_iff insert_iff list.set)
    then show ?thesis by (simp add: sorted_wrt_append)
  qed
  then have "edges_to H rt (last H) = 0" by (simp add: edges_to_def sum_list_eq_0_iff count_list_0_iff)
  then have "unat (t_pending (slot_of rt (last H))) = 0" using rt_tasksD(4) [OF T l] by simp
  then have "t_pending (slot_of rt (last H)) = 0" by (metis unat_0 word_unat_eq_iff)
  then show ?thesis using rt_tasksD(5) [OF T l] by simp
qed

lemma unfinished_bound:
  assumes "inv H Q n E rt"
  shows "length H \<le> 2 ^ 32"
proof -
  have b: "rt_base H rt" using assms by (simp add: rt_inv_def)
  have "length H = card (set (map (\<lambda>h. unat (hindex h)) H))"
    using distinct_card [OF rt_base_facts(1) [OF b]] by simp
  also have "\<dots> \<le> card {..<2 ^ 32 :: nat}"
  proof (rule card_mono)
    show "set (map (\<lambda>h. unat (hindex h)) H) \<subseteq> {..<2 ^ 32}"
    proof
      fix x
      assume "x \<in> set (map (\<lambda>h. unat (hindex h)) H)"
      then obtain h where "h \<in> set H" "x = unat (hindex h)" by auto
      moreover have "unat (hindex h) < 2 ^ LENGTH(32)" by (rule unsigned_less)
      ultimately show "x \<in> {..<2 ^ 32}" by simp
    qed
  qed simp
  finally show ?thesis by simp
qed

lemma outstanding_zero_iff:
  assumes "inv H Q 0 E rt"
  shows "rb_outstanding rt = 0 \<longleftrightarrow> H = []"
proof -
  have "length H < 2 ^ 64" using unfinished_bound [OF assms] by simp
  then have "unat (of_nat (length H) :: u64) = length H" by (simp add: unat_of_nat take_bit_nat_eq_self)
  moreover have "rb_outstanding rt = of_nat (length H)" using assms by (simp add: rt_inv_def)
  ultimately have u: "unat (rb_outstanding rt) = length H" by simp
  have "rb_outstanding rt = 0 \<longleftrightarrow> unat (rb_outstanding rt) = 0" by (metis unat_0 word_unat_eq_iff)
  then show ?thesis unfolding u by simp
qed

lemma execute_silent:
  assumes s: "silent v" and v: "v_enqueue v = enq" and inv: "inv H (add_mset h Q) n [] rt" and tid: "thread_ok tid rt"
  shows "\<exists>rt'. execute v tid h rt = Some rt' \<and> h \<in> set H \<and> inv (remove1 h H) Q n [] rt' \<and>
    rb_own rt' = rb_own rt \<and> (\<forall>c. finds (rb_disp rt') c \<longleftrightarrow> finds (rb_disp rt) c) \<and>
    (\<forall>k \<in> set (remove1 h H). t_state (slot_of rt' k) = Executing \<longleftrightarrow> t_state (slot_of rt k) = Executing)"
proof (rule execute_begin [OF inv tid, of v])
  fix f rt1
  assume h: "h \<in> set H" and i1: "inv H Q n [] rt1" and t1: "thread_ok tid rt1"
    and o1: "rb_own rt1 = rb_own rt" "rb_pid rt1 = rb_pid rt" "rb_disp rt1 = rb_disp rt"
    and s1: "\<And>k. k \<in> set H \<Longrightarrow> t_state (slot_of rt1 k) = (if k = h then Executing else t_state (slot_of rt k))"
    and ex: "execute v tid h rt = (case v_call v f tid (context_index tid rt1) rt1 of
        (rt2, None) \<Rightarrow> complete v tid h rt2
      | (rt2, Some e) \<Rightarrow> complete v tid h (record_uncaught_exception tid h e rt2))"
  obtain e where c: "v_call v f tid (context_index tid rt1) rt1 = (rt1, e)"
    using s unfolding silent_def by (metis prod.collapse)
  let ?rt3 = "case e of None \<Rightarrow> rt1 | Some x \<Rightarrow> record_uncaught_exception tid h x rt1"
  have e3: "execute v tid h rt = complete v tid h ?rt3" using ex c by (cases e) simp_all
  have f3: "rb_world ?rt3 = rb_world rt1" "rb_pid ?rt3 = rb_pid rt1" "rb_disp ?rt3 = rb_disp rt1"
      "rb_outstanding ?rt3 = rb_outstanding rt1" "rb_own ?rt3 = rb_own rt1"
    by (simp_all add: record_uncaught_exception_def Let_def split: option.split)
  have i3: "inv H Q n [] ?rt3" using i1 rt_inv_frame [OF f3] by simp
  have sl: "slot_of ?rt3 = slot_of rt1" by (rule slot_of_world [OF f3(1,2)])
  have st: "t_state (slot_of ?rt3 h) = Executing" using s1 [OF h] sl by simp
  have t3: "thread_ok tid ?rt3" using t1 f3(5) by (simp add: thread_ok_def)
  obtain rt4 where r4: "complete v tid h ?rt3 = Some rt4" "inv (remove1 h H) Q n [] rt4" "rb_own rt4 = rb_own ?rt3"
    "\<forall>k \<in> set (remove1 h H). t_state (slot_of rt4 k) = Executing \<longleftrightarrow> t_state (slot_of ?rt3 k) = Executing"
    using complete_inv [OF i3 h st t3 v] by blast
  have "distinct H" using inv rt_base_distinct by (auto simp: rt_inv_def)
  then have "t_state (slot_of ?rt3 k) = Executing \<longleftrightarrow> t_state (slot_of rt k) = Executing" if "k \<in> set (remove1 h H)" for k
    using s1 [of k] sl that by auto
  moreover have "finds (rb_disp rt4) c \<longleftrightarrow> finds (rb_disp rt) c" for c
    using complete_disp [OF r4(1), of "\<lambda>d. finds d c"] v finds_enq f3(3) o1(3) by simp
  ultimately show ?thesis using e3 r4 f3(5) o1(1) h by auto
qed

text \<open>One helping step when something is outstanding and nobody is running anything.\<close>

lemma help_step:
  assumes s: "silent w" and w: "v_enqueue w = enq" and inv: "inv H {#} 0 [] rt" and idle: "idle H rt"
    and tid: "thread_ok tid rt" and f: "finds (rb_disp rt) (on_own_worker tid rt)" and H: "H \<noteq> []"
  shows "\<exists>rt' H'. try_execute pick w tid rt = Some (rt', True) \<and> inv H' {#} 0 [] rt' \<and> idle H' rt' \<and>
    length H' < length H \<and> rb_own rt' = rb_own rt \<and> (\<forall>c. finds (rb_disp rt') c \<longleftrightarrow> finds (rb_disp rt) c)"
proof -
  have c: "caller (rb_disp rt) (on_own_worker tid rt)" using thread_caller [OF inv tid] by (simp add: on_own_worker_def)
  have di: "dinv (rb_disp rt)" and T: "rt_tasks H [] rt" and q: "mset (queued H rt) = content (rb_disp rt)"
    using inv by (simp_all add: rt_inv_def)
  have l: "last H \<in> set H" using H by simp
  have "t_state (slot_of rt (last H)) = Queued"
    using rt_tasksD(3) [OF T l] oldest_not_waiting [OF inv H] idle l by (auto simp: idle_def)
  then have "last H \<in># content (rb_disp rt)" using l by (simp flip: q) (simp add: queued_def)
  then have ne: "content (rb_disp rt) \<noteq> {#}" by auto
  obtain d h where t: "pick (on_own_worker tid rt) (rb_disp rt) = (d, h)" by force
  have v: "handle_valid h" using pick_finds [OF di c f ne] t by simp
  note st = pick_step [OF inv tid t]
  obtain rt' where r: "execute w tid h (rt\<lparr>rb_disp := d\<rparr>) = Some rt'" "h \<in> set H" "inv (remove1 h H) {#} 0 [] rt'"
    "rb_own rt' = rb_own rt" "\<forall>c. finds (rb_disp rt') c \<longleftrightarrow> finds d c"
    "\<forall>k \<in> set (remove1 h H). t_state (slot_of rt' k) = Executing \<longleftrightarrow> t_state (slot_of rt k) = Executing"
    using execute_silent [OF s w _ st(2)] st(1) v by force
  have "idle (remove1 h H) rt'" using r(6) idle by (auto simp: idle_def dest: notin_set_remove1 set_remove1_subset [THEN subsetD])
  moreover have "finds d c' \<longleftrightarrow> finds (rb_disp rt) c'" for c' using finds_pick [OF di c] t by simp
  moreover have "length (remove1 h H) < length H" using r(2) length_pos_if_in_set [OF r(2)] by (simp add: length_remove1)
  ultimately show ?thesis using r t v by (auto simp: try_execute_def)
qed

lemma help_loop_finishes:
  assumes v: "v_try v = try_execute pick w" and s: "silent w" "v_enqueue w = enq"
  shows "inv H {#} 0 [] rt \<Longrightarrow> idle H rt \<Longrightarrow> thread_ok tid rt \<Longrightarrow> finds (rb_disp rt) (on_own_worker tid rt) \<Longrightarrow>
    \<exists>rt'. help_loop v (\<lambda>r. rb_outstanding r = 0) tid rt = Some rt' \<and> inv [] {#} 0 [] rt'"
proof (induction "length H" arbitrary: H rt rule: less_induct)
  case less
  show ?case
  proof (cases "H = []")
    case True
    then show ?thesis using less.prems outstanding_zero_iff [OF less.prems(1)] by (auto simp: help_loop.simps)
  next
    case False
    then obtain rt' H' where h: "try_execute pick w tid rt = Some (rt', True)" "inv H' {#} 0 [] rt'" "idle H' rt'"
      "length H' < length H" "rb_own rt' = rb_own rt" "\<forall>c. finds (rb_disp rt') c \<longleftrightarrow> finds (rb_disp rt) c"
      using help_step [OF s less.prems] by blast
    have "\<exists>rt''. help_loop v (\<lambda>r. rb_outstanding r = 0) tid rt' = Some rt'' \<and> inv [] {#} 0 [] rt''"
      by (rule less.hyps [OF h(4,2,3)]) (use h less.prems in \<open>simp_all add: thread_ok_def on_own_worker_def\<close>)
    then show ?thesis
      using outstanding_zero_iff [OF less.prems(1)] False h(1) v by (simp add: help_loop.simps [of v _ tid rt])
  qed
qed

text \<open>The same for an external thread that sleeps while worker \<open>wtid\<close> runs tasks.\<close>

lemma block_until_finishes:
  assumes v: "\<And>r. v_others v r = (case try_execute pick w wtid r of None \<Rightarrow> r | Some x \<Rightarrow> fst x)"
    and s: "silent w" "v_enqueue w = enq"
  shows "inv H {#} 0 [] rt \<Longrightarrow> idle H rt \<Longrightarrow> thread_ok wtid rt \<Longrightarrow> finds (rb_disp rt) (on_own_worker wtid rt) \<Longrightarrow>
    \<exists>rt'. block_until v (\<lambda>r. rb_outstanding r = 0) rt = Some rt' \<and> inv [] {#} 0 [] rt'"
proof (induction "length H" arbitrary: H rt rule: less_induct)
  case less
  show ?case
  proof (cases "H = []")
    case True
    then show ?thesis using less.prems outstanding_zero_iff [OF less.prems(1)] by (auto simp: block_until.simps)
  next
    case False
    then obtain rt' H' where h: "try_execute pick w wtid rt = Some (rt', True)" "inv H' {#} 0 [] rt'" "idle H' rt'"
      "length H' < length H" "rb_own rt' = rb_own rt" "\<forall>c. finds (rb_disp rt') c \<longleftrightarrow> finds (rb_disp rt) c"
      using help_step [OF s less.prems] by blast
    have "\<exists>rt''. block_until v (\<lambda>r. rb_outstanding r = 0) rt' = Some rt'' \<and> inv [] {#} 0 [] rt''"
      by (rule less.hyps [OF h(4,2,3)]) (use h less.prems in \<open>simp_all add: thread_ok_def on_own_worker_def\<close>)
    then show ?thesis
      using outstanding_zero_iff [OF less.prems(1)] False h(1) v [of rt] by (simp add: block_until.simps [of v _ rt])
  qed
qed

lemma wait_all_finishes:
  assumes v: "v_try v = try_execute pick w"
      "\<And>r. v_others v r = (case try_execute pick u wtid r of None \<Rightarrow> r | Some x \<Rightarrow> fst x)"
    and s: "silent w" "v_enqueue w = enq" and s': "silent u" "v_enqueue u = enq"
    and inv: "inv H {#} 0 [] rt" "idle H rt" "thread_ok tid rt" "thread_ok wtid rt"
    and f: "finds (rb_disp rt) (on_own_worker wtid rt)"
      "on_own_worker tid rt \<noteq> None \<longrightarrow> finds (rb_disp rt) (on_own_worker tid rt)"
  shows "\<exists>rt'. rt_wait_all v tid rt = Some rt' \<and> inv [] {#} 0 [] rt'"
proof (cases "rb_outstanding rt = 0")
  case True
  then show ?thesis using inv outstanding_zero_iff [OF inv(1)] by (simp add: rt_wait_all_def)
next
  case False
  show ?thesis
  proof (cases "on_own_worker tid rt")
    case (Some i)
    then show ?thesis
      using help_loop_finishes [OF v(1) s inv(1-3)] f False by (simp add: rt_wait_all_def)
  next
    case None
    let ?rt = "rt\<lparr>rb_all_waiters := rb_all_waiters rt + 1\<rparr>"
    have i: "inv H {#} 0 [] ?rt" using inv(1) by (subst rt_inv_frame [where rt = rt]) simp_all
    have "slot_of ?rt = slot_of rt" by (rule slot_of_world) simp_all
    then have "\<exists>rt'. block_until v (\<lambda>r. rb_outstanding r = 0) ?rt = Some rt' \<and> inv [] {#} 0 [] rt'"
      by (intro block_until_finishes [OF v(2) s' i]) (use inv f in \<open>simp_all add: idle_def thread_ok_def on_own_worker_def\<close>)
    then obtain rt' where r: "block_until v (\<lambda>r. rb_outstanding r = 0) ?rt = Some rt'" "inv [] {#} 0 [] rt'" by blast
    have "inv [] {#} 0 [] (rt'\<lparr>rb_all_waiters := rb_all_waiters rt' - 1\<rparr>)"
      using r(2) by (subst rt_inv_frame [where rt = rt']) simp_all
    then show ?thesis using r(1) None False by (simp add: rt_wait_all_def)
  qed
qed

end

end
