(* ===== verification/Runtimes.thy ===== *)
theory Runtimes
  imports Runtime_Progress Thunderbolt_Correct
begin

text \<open>
  The two runtimes of the library, \<open>StandardRuntime\<close> and \<open>ThunderboltRuntime\<close>: \<open>RuntimeBase\<close> over
  their dispatch structures, with the functions the derived classes add (constructor, destructor,
  \<open>try_execute_one\<close>, one iteration of \<open>worker_loop\<close>). Both interpret the interfaces \<open>dispatcher\<close>
  and \<open>work_source\<close>, which gives them the correctness of \<open>RuntimeBase\<close>.
\<close>

section \<open>The virtual functions\<close>

text \<open>
  \<open>call\<close> runs task bodies and \<open>others\<close> is what the rest of the process does; \<open>try_execute_one\<close> runs
  tasks over the same two.
\<close>

definition bare_vtable where
  "bare_vtable enqueue call others =
     \<lparr>v_enqueue = enqueue, v_call = call, v_try = (\<lambda>_ _. None), v_others = others\<rparr>"

datatype loop_step = LoopExit | LoopBlocked | LoopAgain

section \<open>\<open>StandardRuntime\<close>\<close>

definition std_enqueue :: "u32 option \<Rightarrow> TaskHandle \<Rightarrow> TaskPriority \<Rightarrow> std_queue \<Rightarrow> std_queue" where
  "std_enqueue c h p q = std_enqueue_ready q h p"

text \<open>The constructor; thread \<open>tid\<close> of the process is worker \<open>own ! tid\<close>, or none.\<close>

definition std_new :: "RuntimeConfig \<Rightarrow> nat list \<Rightarrow> u32 option list \<Rightarrow> ('b, std_queue) rtb" where
  "std_new config homes own = rtb_new config homes own sq_new"

definition std_try_execute_one ::
    "('b, std_queue) vtable \<Rightarrow> nat \<Rightarrow> ('b, std_queue) rtb \<Rightarrow> (('b, std_queue) rtb \<times> bool) option" where
  "std_try_execute_one v tid rt = try_execute (\<lambda>_. std_try_pop) v tid rt"

definition std_vtable where
  "std_vtable call others =
     (let v = bare_vtable std_enqueue call others in v\<lparr>v_try := std_try_execute_one v\<rparr>)"

text \<open>
  One iteration of \<open>worker_loop\<close>, for the value of \<open>running_\<close> it reads. \<open>LoopBlocked\<close>: the thread
  waits on the condition variable.
\<close>

definition std_worker_iteration ::
    "('b, std_queue) vtable \<Rightarrow> bool \<Rightarrow> nat \<Rightarrow> ('b, std_queue) rtb \<Rightarrow> (('b, std_queue) rtb \<times> loop_step) option" where
  "std_worker_iteration v running tid rt =
     (if \<not> running then Some (rt, LoopExit)
      else if sq_queued_count (rb_disp rt) = 0 then Some (rt, LoopBlocked)
      else case std_pop_locked (rb_disp rt) of
        (q, h) \<Rightarrow>
          (if handle_valid h
           then map_option (\<lambda>rt'. (rt', LoopAgain)) (execute v tid h (rt\<lparr>rb_disp := q\<rparr>))
           else Some (rt\<lparr>rb_disp := q\<rparr>, LoopAgain)))"

text \<open>The destructor: drain, then clear \<open>running_\<close> (the second component).\<close>

definition std_destroy ::
    "('b, std_queue) vtable \<Rightarrow> nat \<Rightarrow> ('b, std_queue) rtb \<Rightarrow> (('b, std_queue) rtb \<times> bool) option" where
  "std_destroy v tid rt = map_option (\<lambda>rt'. (rt', False)) (rt_wait_all v tid rt)"

definition std_content :: "std_queue \<Rightarrow> TaskHandle multiset" where
  "std_content q = mset (concat (sq_ready q))"

definition any_caller :: "'d \<Rightarrow> u32 option \<Rightarrow> bool" where
  "any_caller d c \<longleftrightarrow> True"

interpretation std: work_source sq_inv std_content any_caller std_enqueue "\<lambda>_. std_try_pop" any_caller
proof
  fix q :: std_queue and c c' h p
  show "sq_inv q \<Longrightarrow> handle_valid h \<Longrightarrow> sq_inv (std_enqueue c h p q)"
    unfolding std_enqueue_def by (rule sq.enq_inv)
  show "sq_inv q \<Longrightarrow> std_content (std_enqueue c h p q) = add_mset h (std_content q)"
    unfolding std_enqueue_def std_content_def by (rule sq.enq_mset)
  show "any_caller (std_enqueue c h p q) c' \<longleftrightarrow> any_caller q c'"
    "any_caller (fst (std_try_pop q)) c' \<longleftrightarrow> any_caller q c'"
    by (simp_all add: any_caller_def)
  assume q: "sq_inv q"
  have r: "fst (as_option (std_try_pop q)) = fst (std_try_pop q)"
    "snd (as_option (std_try_pop q)) = (if handle_valid (snd (std_try_pop q)) then Some (snd (std_try_pop q)) else None)"
    by (simp_all add: as_option_def)
  show "sq_inv (fst (std_try_pop q))" using sq.deq_inv [OF q] by (simp add: r)
  show "std_content q = std_content (fst (std_try_pop q)) +
      (if handle_valid (snd (std_try_pop q)) then {#snd (std_try_pop q)#} else {#})"
    using sq.deq_mset [OF q] by (simp add: r std_content_def split: if_splits)
  show "std_content q \<noteq> {#} \<Longrightarrow> handle_valid (snd (std_try_pop q))"
    using sq.deq_none_iff [OF q] by (simp add: r std_content_def split: if_splits)
qed

section \<open>\<open>ThunderboltRuntime\<close>\<close>

definition tb_runtime_new ::
    "RuntimeConfig \<Rightarrow> u32 \<Rightarrow> nat list \<Rightarrow> u32 option list \<Rightarrow> ('b, tb_state) rtb option" where
  "tb_runtime_new config logical homes own =
     map_option (rtb_new config homes own) (tb_new config (resolve_worker_count logical config))"

text \<open>What \<open>try_execute_one\<close> and \<open>worker_loop\<close> run next; the executed counter goes with it.\<close>

definition tb_pick :: "u32 option \<Rightarrow> tb_state \<Rightarrow> tb_state \<times> TaskHandle" where
  "tb_pick caller d =
     (case caller of
        None \<Rightarrow> (d, invalid_handle)
      | Some i \<Rightarrow>
          (case acquire_next (unat i) d of
             (d', h) \<Rightarrow>
               if handle_valid h
               then (upd_worker (unat i) ((tb_workers d' ! unat i)\<lparr>wk_executed :=
                       wk_executed (tb_workers d' ! unat i) + 1\<rparr>) d', h)
               else (d', invalid_handle)))"

definition tb_try_execute_one ::
    "('b, tb_state) vtable \<Rightarrow> nat \<Rightarrow> ('b, tb_state) rtb \<Rightarrow> (('b, tb_state) rtb \<times> bool) option" where
  "tb_try_execute_one v tid rt = try_execute tb_pick v tid rt"

definition tb_vtable where
  "tb_vtable call others =
     (let v = bare_vtable tb_enqueue_ready call others in v\<lparr>v_try := tb_try_execute_one v\<rparr>)"

text \<open>One iteration of \<open>worker_loop\<close> of worker \<open>i\<close>; the state includes \<open>idle_spins\<close>.\<close>

definition tb_worker_iteration ::
    "('b, tb_state) vtable \<Rightarrow> u32 \<Rightarrow> nat \<Rightarrow> nat \<Rightarrow> ('b, tb_state) rtb \<Rightarrow>
     (nat \<times> ('b, tb_state) rtb \<times> loop_step) option" where
  "tb_worker_iteration v i tid idle_spins rt =
     (if \<not> tb_running (rb_disp rt) then Some (idle_spins, rt, LoopExit)
      else case tb_pick (Some i) (rb_disp rt) of
        (d, h) \<Rightarrow>
          (if handle_valid h
           then map_option (\<lambda>rt'. (0, rt', LoopAgain)) (execute v tid h (rt\<lparr>rb_disp := d\<rparr>))
           else if idle_spins + 1 < kSpinsBeforePark then Some (idle_spins + 1, rt\<lparr>rb_disp := d\<rparr>, LoopAgain)
           else case park_begin (unat i) d of
             (d', sleeps) \<Rightarrow> Some (0, rt\<lparr>rb_disp := d'\<rparr>, if sleeps then LoopBlocked else LoopAgain)))"

definition tb_destroy :: "('b, tb_state) vtable \<Rightarrow> nat \<Rightarrow> ('b, tb_state) rtb \<Rightarrow> ('b, tb_state) rtb option" where
  "tb_destroy v tid rt =
     map_option (\<lambda>rt'. rt'\<lparr>rb_disp := (rb_disp rt')\<lparr>tb_running := False\<rparr>\<rparr>) (rt_wait_all v tid rt)"

text \<open>A worker of a runtime that is not static finds any queued task.\<close>

definition tb_finds :: "tb_state \<Rightarrow> u32 option \<Rightarrow> bool" where
  "tb_finds d c \<longleftrightarrow> c \<noteq> None \<and> tb_mode d \<noteq> Static"

lemma acquire_took:
  assumes "tb_inv d" "i < length (tb_workers d)" "acquire_next i d = (d', h)"
  shows "took d d' h" "tb_mode d \<noteq> Static \<Longrightarrow> tb_content d \<noteq> {#} \<Longrightarrow> handle_valid h"
  by (cases "tb_mode d = Static"; use static_acquire_took [OF assms] acquire_next_took [OF assms] in blast)+

lemma tb_pick_took:
  assumes d: "tb_inv d" and c: "tb_caller d c"
  shows "took d (fst (tb_pick c d)) (snd (tb_pick c d))"
    "tb_finds d c \<Longrightarrow> tb_content d \<noteq> {#} \<Longrightarrow> handle_valid (snd (tb_pick c d))"
proof -
  have "took d (fst (tb_pick c d)) (snd (tb_pick c d)) \<and>
      (tb_finds d c \<longrightarrow> tb_content d \<noteq> {#} \<longrightarrow> handle_valid (snd (tb_pick c d)))"
  proof (cases c)
    case None
    then show ?thesis using d by (simp add: tb_pick_def took_def tb_finds_def)
  next
    case (Some i)
    then have i: "unat i < length (tb_workers d)" using c by (simp add: tb_caller_def)
    obtain d1 h where r: "acquire_next (unat i) d = (d1, h)" by force
    note t = acquire_took [OF d i r]
    show ?thesis
    proof (cases "handle_valid h")
      case True
      have f: "tb_inv d1" "unat i < length (tb_workers d1)" using took_facts [OF t(1)] i by simp_all
      have "took d1 (upd_worker (unat i) ((tb_workers d1 ! unat i)\<lparr>wk_executed :=
          wk_executed (tb_workers d1 ! unat i) + 1\<rparr>) d1) invalid_handle"
        by (rule counter_step [OF f]) (simp_all add: wk_set_counters wk_frame)
      then show ?thesis using took_then [OF t(1)] Some r True by (simp add: tb_pick_def)
    next
      case False
      have "took d d1 invalid_handle" using t(1) False by (simp add: took_def)
      then show ?thesis using Some r False t by (auto simp: tb_pick_def tb_finds_def)
    qed
  qed
  then show "took d (fst (tb_pick c d)) (snd (tb_pick c d))"
    "tb_finds d c \<Longrightarrow> tb_content d \<noteq> {#} \<Longrightarrow> handle_valid (snd (tb_pick c d))" by blast+
qed

lemma tb_enqueue_mode: "tb_mode (tb_enqueue_ready c h p d) = tb_mode d"
proof (cases c)
  case None
  then show ?thesis by (auto simp: tb_enqueue_ready_def Let_def wake_one_worker_def upd_worker_def)
next
  case (Some i)
  obtain wk ok where w: "wk_push (prio_index p) h (tb_workers d ! unat i) = (wk, ok)" by force
  show ?thesis
    by (cases ok) (use Some w in \<open>auto simp: tb_enqueue_ready_def Let_def wake_one_worker_def upd_worker_def\<close>)
qed

interpretation tb: work_source tb_inv tb_content tb_caller tb_enqueue_ready tb_pick tb_finds
proof
  fix d :: tb_state and c c' h p
  show "tb_inv d \<Longrightarrow> tb_caller d c \<Longrightarrow> handle_valid h \<Longrightarrow> tb_inv (tb_enqueue_ready c h p d)"
    and "tb_inv d \<Longrightarrow> tb_caller d c \<Longrightarrow> handle_valid h \<Longrightarrow>
      tb_content (tb_enqueue_ready c h p d) = add_mset h (tb_content d)"
    using tb_enqueue_inv by blast+
  show "tb_caller (tb_enqueue_ready c h p d) c' \<longleftrightarrow> tb_caller d c'"
    by (simp add: tb_caller_def tb_enqueue_shape split: option.split)
  show "tb_finds (tb_enqueue_ready c h p d) c' \<longleftrightarrow> tb_finds d c'"
    by (simp add: tb_finds_def tb_enqueue_mode)
  assume d: "tb_inv d" "tb_caller d c"
  note t = tb_pick_took [OF d]
  note f = took_facts [OF t(1)]
  show "tb_inv (fst (tb_pick c d))" using f by simp
  show "tb_content d = tb_content (fst (tb_pick c d)) +
      (if handle_valid (snd (tb_pick c d)) then {#snd (tb_pick c d)#} else {#})"
    using t(1) by (simp add: took_def handles_of_def)
  show "tb_caller (fst (tb_pick c d)) c' \<longleftrightarrow> tb_caller d c'" using f by (simp add: tb_caller_def split: option.split)
  show "tb_finds (fst (tb_pick c d)) c' \<longleftrightarrow> tb_finds d c'" using f by (simp add: tb_finds_def)
  show "tb_finds d c \<Longrightarrow> tb_content d \<noteq> {#} \<Longrightarrow> handle_valid (snd (tb_pick c d))" by (rule t(2))
qed

section \<open>A new runtime\<close>

lemma rtb_new_inv:
  fixes homes :: "nat list" and disp :: 'd
  assumes "dinv disp" "content disp = {#}" "length own = length homes" "\<forall>c \<in> set own. caller disp c"
    "\<forall>h \<in> set homes. h < kShardCount"
  shows "rt_inv dinv content caller [] {#} 0 [] (rtb_new config homes own disp :: ('b, 'd) rtb)"
proof -
  let ?cap = "unat (task_capacity config)" and ?cache = "opt_set config kOptThreadCache"
  obtain w pid where c: "construct_pool ?cap ?cache (process_start homes :: 'b pworld) = (w, pid)" by force
  have ok: "pworld_ok [] (process_start homes :: 'b pworld)" by (rule process_start_ok [OF assms(5)])
  have "?cap < 2 ^ LENGTH(32)" by (rule unsigned_less)
  then have cap: "?cap < 2 ^ 32" by simp
  have "pworld_ok [] (fst (construct_pool ?cap ?cache (process_start homes :: 'b pworld)))"
    by (rule construct_ok [OF ok cap]) (simp_all add: process_start_def)
  then have w: "pworld_ok [] w" "w_pools w pid \<noteq> None" "length (w_caches w) = length homes"
    using c by (auto simp: construct_pool_def Let_def process_start_def)
  show ?thesis
    using assms(1-4) w by (simp add: rtb_new_def c rt_inv_def rt_base_def rt_tasks_def queued_def)
qed

end
