(* ===== verification/Runtime_Props.thy ===== *)
theory Runtime_Props
  imports Runtimes
begin

text \<open>
  What the two runtimes guarantee to their users. The theorems hold for every task body that uses
  the runtime only through its operations; \<open>script\<close> bodies, which submit further tasks and may
  throw, are shown to be such bodies.
\<close>

section \<open>Scripted task bodies\<close>

text \<open>A body that submits child tasks in order and then returns or throws.\<close>

datatype script = Script "(TaskPriority \<times> script) list" "exn option"

text \<open>
  \<open>n\<close> bounds how deep bodies run inside one another (a child runs inside its parent when the pool is
  exhausted).
\<close>

fun run_script ::
    "nat \<Rightarrow> (u32 option \<Rightarrow> TaskHandle \<Rightarrow> TaskPriority \<Rightarrow> 'd \<Rightarrow> 'd) \<Rightarrow> script \<Rightarrow> nat \<Rightarrow> u32 \<Rightarrow>
     (script, 'd) rtb \<Rightarrow> (script, 'd) rtb \<times> exn option" where
  "run_script 0 enq f tid i rt = (rt, None)"
| "run_script (Suc n) enq (Script children e) tid i rt =
     (fold (\<lambda>(p, c) r. case submit (bare_vtable enq (run_script n enq) (\<lambda>r. r)) tid (make_desc (Some c) p) r of
              None \<Rightarrow> r | Some (r', h) \<Rightarrow> r') children rt, e)"

context dispatcher
begin

lemma script_submits:
  assumes u: "user_ok v"
  shows "inv H Q n [] rt \<Longrightarrow> thread_ok tid rt \<Longrightarrow>
    keeps H Q n rt (fold (\<lambda>(p, c) r. case submit v tid (make_desc (Some c) p) r of
      None \<Rightarrow> r | Some (r', h) \<Rightarrow> r') children rt)"
proof (induction children arbitrary: H rt)
  case Nil
  then show ?case by (simp add: keeps_refl)
next
  case (Cons x children)
  obtain p c where x: "x = (p, c)" by force
  have "dfunction (make_desc (Some c) p) \<noteq> None" by (simp add: make_desc_def)
  then obtain rt' h where s: "submit v tid (make_desc (Some c) p) rt = Some (rt', h)" "keeps H Q n rt rt'"
    using submit_inv [OF u Cons.prems, of "make_desc (Some c) p"] by blast
  have t: "thread_ok tid rt'" by (rule keeps_thread [OF s(2) Cons.prems(2)])
  have "keeps H Q n rt (fold (\<lambda>(p, c) r. case submit v tid (make_desc (Some c) p) r of
      None \<Rightarrow> r | Some (r', h) \<Rightarrow> r') children rt')"
    by (rule keeps_trans [OF s(2)]) (rule Cons.IH [OF _ t])
  then show ?case using x s(1) by simp
qed

lemma script_user_ok: "user_ok (bare_vtable enq (run_script m enq) (\<lambda>r. r))"
proof (induction m)
  case 0
  show ?case by (simp add: user_ok_def bare_vtable_def keeps_refl)
next
  case (Suc m)
  show ?case
    unfolding user_ok_def
  proof (intro conjI allI impI)
    fix H Q n tid i and rt :: "(script, 'd) rtb" and f
    assume "inv H Q n [] rt" "thread_ok tid rt"
    then show "keeps H Q n rt (fst (v_call (bare_vtable enq (run_script (Suc m) enq) (\<lambda>r. r)) f tid i rt))"
      using script_submits [OF Suc] by (cases f) (simp add: bare_vtable_def)
  qed (simp_all add: bare_vtable_def keeps_refl)
qed

end

definition std_demo_vtable :: "(script, std_queue) vtable" where
  "std_demo_vtable = std_vtable (run_script 3 std_enqueue) (\<lambda>r. r)"

definition tb_demo_vtable :: "(script, tb_state) vtable" where
  "tb_demo_vtable = tb_vtable (run_script 3 tb_enqueue_ready) (\<lambda>r. r)"

lemma std_demo_user_ok: "std.user_ok std_demo_vtable"
  using std.user_ok_try [OF std.script_user_ok, of 3]
  by (simp add: std_demo_vtable_def std_vtable_def Let_def std_try_execute_one_def [abs_def])

lemma tb_demo_user_ok: "tb.user_ok tb_demo_vtable"
  using tb.user_ok_try [OF tb.script_user_ok, of 3]
  by (simp add: tb_demo_vtable_def tb_vtable_def Let_def tb_try_execute_one_def [abs_def])

section \<open>Consistent runtimes\<close>

text \<open>
  \<open>H\<close> lists the unfinished tasks, newest first: every slot of the pool is free or belongs to one of
  them, each is waiting, queued exactly once or running, its pending count is the number of its
  unfinished predecessors, and \<open>outstanding_\<close> is their number.
\<close>

definition std_ok :: "TaskHandle list \<Rightarrow> ('b, std_queue) rtb \<Rightarrow> bool" where
  "std_ok H rt \<longleftrightarrow> rt_inv sq_inv std_content any_caller H {#} 0 [] rt"

definition tb_ok :: "TaskHandle list \<Rightarrow> ('b, tb_state) rtb \<Rightarrow> bool" where
  "tb_ok H rt \<longleftrightarrow> rt_inv tb_inv tb_content tb_caller H {#} 0 [] rt"

text \<open>The tasks that are running in \<open>rt\<close> are running, and unfinished, in \<open>rt'\<close>.\<close>

definition still_running :: "TaskHandle list \<Rightarrow> ('b, 'd) rtb \<Rightarrow> TaskHandle list \<Rightarrow> ('b, 'd) rtb \<Rightarrow> bool" where
  "still_running H rt H' rt' \<longleftrightarrow>
     (\<forall>h \<in> set H. t_state (slot_of rt h) = Executing \<longrightarrow> h \<in> set H' \<and> t_state (slot_of rt' h) = Executing)"

lemma std_keeps: "std.keeps H {#} 0 rt rt' \<Longrightarrow> \<exists>H'. std_ok H' rt' \<and> still_running H rt H' rt'"
  by (auto simp: std.keeps_def std_ok_def still_running_def)

lemma tb_keeps: "tb.keeps H {#} 0 rt rt' \<Longrightarrow> \<exists>H'. tb_ok H' rt' \<and> still_running H rt H' rt'"
  by (auto simp: tb.keeps_def tb_ok_def still_running_def)

definition demo_std :: "(script, std_queue) rtb" where
  "demo_std = std_new (default_config\<lparr>task_capacity := 2\<rparr>) [0, 1] [Some 0, None]"

definition demo_tb_rt :: "(script, tb_state) rtb" where
  "demo_tb_rt = (case tb_runtime_new (default_config\<lparr>worker_count := 2, task_capacity := 4, deque_capacity := 2\<rparr>) 8 [0, 1] [Some 0, None] of
      None \<Rightarrow> undefined | Some rt \<Rightarrow> rt)"

definition demo_desc :: "script TaskDesc" where
  "demo_desc = make_desc (Some (Script [(Low, Script [] None)] (Some OtherException))) High"

lemma demo_desc_body [simp]: "dfunction demo_desc \<noteq> None"
  by (simp add: demo_desc_def make_desc_def)

lemma std_new_ok:
  assumes "length own = length homes" "\<forall>h \<in> set homes. h < kShardCount"
  shows "std_ok [] (std_new config homes own)"
proof -
  have "sq_inv sq_new" "std_content sq_new = {#}"
    by (simp_all add: sq_inv_def sq_new_def std_content_def kPriorityCount_def numeral_eq_Suc)
  then show ?thesis
    unfolding std_ok_def std_new_def using assms by (intro rtb_new_inv) (simp_all add: any_caller_def)
qed

lemma tb_runtime_new_ok:
  assumes "length own = length homes" "\<forall>h \<in> set homes. h < kShardCount"
    "resolve_worker_count logical config \<le> 2 ^ 31"
    "\<forall>c \<in> set own. case c of None \<Rightarrow> True | Some i \<Rightarrow> i < resolve_worker_count logical config"
  shows "\<exists>rt :: ('b, tb_state) rtb. tb_runtime_new config logical homes own = Some rt \<and> tb_ok [] rt \<and>
    length (tb_workers (rb_disp rt)) = unat (resolve_worker_count logical config) \<and>
    tb_mode (rb_disp rt) = scheduler config \<and> rb_own rt = own"
proof -
  let ?n = "resolve_worker_count logical config"
  have n: "0 < ?n" by (auto simp: resolve_worker_count_def word_gt_0)
  obtain d where d: "tb_new config ?n = Some d" using tb_new_total by blast
  note f = tb_new_inv [OF d n assms(3)]
  have "\<forall>c \<in> set own. tb_caller d c"
    using assms(4) f(5) by (auto simp: tb_caller_def word_less_nat_alt split: option.splits)
  then have "tb_ok [] (rtb_new config homes own d :: ('b, tb_state) rtb)"
    unfolding tb_ok_def using assms(1,2) f by (intro rtb_new_inv) simp_all
  then show ?thesis using d f by (simp add: tb_runtime_new_def rtb_new_def split: prod.split)
qed

lemma demo_std_ok: "std_ok [] demo_std" "thread_ok 0 demo_std" "thread_ok 1 demo_std"
proof -
  show "std_ok [] demo_std"
    unfolding demo_std_def by (rule std_new_ok) (simp_all add: kShardCount_def kCounterShards_def)
  show "thread_ok 0 demo_std" "thread_ok 1 demo_std"
    by (simp_all add: demo_std_def std_new_def rtb_new_def thread_ok_def split: prod.split)
qed

lemma demo_tb_ok:
  "tb_ok [] demo_tb_rt" "thread_ok 0 demo_tb_rt" "thread_ok 1 demo_tb_rt"
  "length (tb_workers (rb_disp demo_tb_rt)) = 2" "tb_mode (rb_disp demo_tb_rt) = WorkStealing"
  "rb_own demo_tb_rt = [Some 0, None]"
proof -
  let ?c = "default_config\<lparr>worker_count := 2, task_capacity := 4, deque_capacity := 2\<rparr>"
  have r: "resolve_worker_count 8 ?c = 2" "scheduler ?c = WorkStealing"
    by (simp_all add: resolve_worker_count_def default_config_def)
  obtain rt :: "(script, tb_state) rtb" where
    "tb_runtime_new ?c 8 [0, 1] [Some 0, None] = Some rt" "tb_ok [] rt" "length (tb_workers (rb_disp rt)) = 2"
    "tb_mode (rb_disp rt) = WorkStealing" "rb_own rt = [Some 0, None]"
    using tb_runtime_new_ok [of "[Some 0, None]" "[0, 1]" 8 ?c]
    unfolding r by (auto simp: kShardCount_def kCounterShards_def word_le_nat_alt word_less_nat_alt)
  then show "tb_ok [] demo_tb_rt" "thread_ok 0 demo_tb_rt" "thread_ok 1 demo_tb_rt"
    "length (tb_workers (rb_disp demo_tb_rt)) = 2" "tb_mode (rb_disp demo_tb_rt) = WorkStealing"
    "rb_own demo_tb_rt = [Some 0, None]"
    by (simp_all add: demo_tb_rt_def thread_ok_def)
qed

section \<open>A runtime with one unfinished task\<close>

definition demo_tb1 :: "(script, tb_state) rtb" where
  "demo_tb1 = fst (the (submit tb_demo_vtable 1 demo_desc demo_tb_rt))"

definition demo_h1 :: TaskHandle where
  "demo_h1 = snd (the (submit tb_demo_vtable 1 demo_desc demo_tb_rt))"

lemma demo_tb1_evaluated:
  "handle_valid demo_h1 \<and> tb_mode (rb_disp demo_tb1) = WorkStealing \<and> length (tb_workers (rb_disp demo_tb1)) = 2 \<and>
   t_state (slot_of demo_tb1 demo_h1) = Queued \<and> length (rb_own demo_tb1) = 2"
  by code_simp

lemma demo_tb1:
  "submit tb_demo_vtable 1 demo_desc demo_tb_rt = Some (demo_tb1, demo_h1)"
  "tb_ok [demo_h1] demo_tb1" "thread_ok 0 demo_tb1" "thread_ok 1 demo_tb1"
proof -
  obtain rt1 h1 where s: "submit tb_demo_vtable 1 demo_desc demo_tb_rt = Some (rt1, h1)"
    "handle_valid h1 \<longrightarrow> tb_ok [h1] rt1"
    using tb.submit_inv [OF tb_demo_user_ok _ demo_tb_ok(3) demo_desc_body] demo_tb_ok(1)
    unfolding tb_ok_def by blast
  then have "rt1 = demo_tb1" "h1 = demo_h1" by (simp_all add: demo_tb1_def demo_h1_def)
  then show "submit tb_demo_vtable 1 demo_desc demo_tb_rt = Some (demo_tb1, demo_h1)"
    "tb_ok [demo_h1] demo_tb1" "thread_ok 0 demo_tb1" "thread_ok 1 demo_tb1"
    using s demo_tb1_evaluated by (simp_all add: thread_ok_def)
qed

lemma demo_after_evaluated:
  "map_option (\<lambda>(rt, h). (handle_valid h, t_state (slot_of rt h)))
     (submit_after tb_demo_vtable 0 demo_desc [demo_h1, demo_h1] demo_tb1) = Some (True, Waiting)"
  by code_simp

section \<open>Properties\<close>













text \<open>
  C17. A worker thread is safe: one iteration of \<open>ThunderboltRuntime::worker_loop\<close> always returns,
  leaves the runtime consistent, and either stops (only when the runtime was shut down), goes on, or
  sleeps, the last only when no task is queued.
\<close>

theorem tb_worker_iteration_safe:
  assumes "tb.user_ok v" "tb_ok H rt" "thread_ok tid rt" "on_own_worker tid rt = Some i"
  shows "\<exists>spins' rt' s. tb_worker_iteration v i tid spins rt = Some (spins', rt', s) \<and>
    (\<exists>H'. tb_ok H' rt' \<and> still_running H rt H' rt') \<and> (s = LoopExit \<longleftrightarrow> \<not> tb_running (rb_disp rt)) \<and>
    (s = LoopBlocked \<longrightarrow> tb_content (rb_disp rt') = {#})"
proof (cases "tb_running (rb_disp rt)")
  case False
  have "still_running H rt H rt" by (simp add: still_running_def)
  then show ?thesis using False assms(2) by (auto simp: tb_worker_iteration_def)
next
  case run: True
  have inv: "tb.inv H {#} 0 [] rt" using assms(2) by (simp add: tb_ok_def)
  obtain d h where p: "tb_pick (on_own_worker tid rt) (rb_disp rt) = (d, h)" by force
  then have p': "tb_pick (Some i) (rb_disp rt) = (d, h)" using assms(4) by simp
  note st = tb.pick_step [OF inv assms(3) p]
  have c: "tb_caller (rb_disp rt) (Some i)" and di: "tb_inv (rb_disp rt)"
    using tb.thread_caller [OF inv assms(3)] assms(4) inv by (simp_all add: on_own_worker_def rt_inv_def)
  note t = tb_pick_took(1) [OF di c, unfolded p', simplified]
  show ?thesis
  proof (cases "handle_valid h")
    case True
    obtain rt' where r: "execute v tid h (rt\<lparr>rb_disp := d\<rparr>) = Some rt'" "tb.keeps H {#} 0 (rt\<lparr>rb_disp := d\<rparr>) rt'"
      using tb.execute_inv [OF assms(1) _ st(2), of H h "{#}" 0] st(1) True by auto
    have "tb.keeps H {#} 0 rt rt'" by (rule tb.keeps_from [OF r(2)]) simp_all
    then show ?thesis using tb_keeps run p' True r(1) by (auto simp: tb_worker_iteration_def)
  next
    case False
    then have i1: "tb.inv H {#} 0 [] (rt\<lparr>rb_disp := d\<rparr>)" using st(1) by simp
    have sr: "still_running H rt H (rt\<lparr>rb_disp := d'\<rparr>)" for d' by (simp add: still_running_def)
    show ?thesis
    proof (cases "spins + 1 < kSpinsBeforePark")
      case True
      then show ?thesis using run p' False i1 sr [of d] by (auto simp: tb_worker_iteration_def tb_ok_def)
    next
      case park: False
      obtain d' sleeps where k: "park_begin (unat i) d = (d', sleeps)" by force
      have i: "unat i < length (tb_workers d)" using c took_facts [OF t] by (simp add: tb_caller_def)
      have d: "tb_inv d" using t by (simp add: took_def)
      note e = park_begin_kept [OF d i k]
      have "tb.inv H {#} 0 [] (rt\<lparr>rb_disp := d, rb_disp := d'\<rparr>)"
        by (rule tb.inv_disp [OF i1]) (use e in \<open>simp_all add: tb_caller_def split: option.split\<close>)
      then have "tb_ok H (rt\<lparr>rb_disp := d'\<rparr>)" by (simp add: tb_ok_def)
      moreover have "sleeps \<Longrightarrow> tb_content d' = {#}"
        using park_begin_result(1) [OF k] any_work_iff [OF d] e(2) by simp
      ultimately show ?thesis using run p' False park k sr [of d']
        by (auto simp: tb_worker_iteration_def intro!: exI [of _ H])
    qed
  qed
qed

theorem tb_worker_iteration_safe_witness:
  "\<exists>spins' rt' s. tb_worker_iteration tb_demo_vtable 0 0 5 demo_tb1 = Some (spins', rt', s) \<and>
    (\<exists>H'. tb_ok H' rt')"
proof -
  have "on_own_worker 0 demo_tb1 = Some 0" by code_simp
  from tb_worker_iteration_safe [OF tb_demo_user_ok demo_tb1(2,3) this] show ?thesis by blast
qed

text \<open>
  C18. The same for \<open>StandardRuntime::worker_loop\<close>, which blocks exactly when nothing is queued.
\<close>

theorem std_worker_iteration_safe:
  assumes "std.user_ok v" "std_ok H rt" "thread_ok tid rt"
  shows "\<exists>rt' s. std_worker_iteration v running tid rt = Some (rt', s) \<and>
    (\<exists>H'. std_ok H' rt' \<and> still_running H rt H' rt') \<and> (s = LoopExit \<longleftrightarrow> \<not> running) \<and>
    (s = LoopBlocked \<longleftrightarrow> running \<and> std_content (rb_disp rt) = {#})"
proof -
  have inv: "std.inv H {#} 0 [] rt" using assms(2) by (simp add: std_ok_def)
  then have q: "sq_inv (rb_disp rt)" by (simp add: rt_inv_def)
  have e: "sq_queued_count (rb_disp rt) = 0 \<longleftrightarrow> std_content (rb_disp rt) = {#}"
    using q by (simp add: sq_inv_def std_content_def del: concat_eq_Nil_conv)
  have sr: "still_running H rt H rt" by (simp add: still_running_def)
  show ?thesis
  proof (cases "running \<and> sq_queued_count (rb_disp rt) \<noteq> 0")
    case False
    then show ?thesis using e sr assms(2) by (auto simp: std_worker_iteration_def)
  next
    case True
    obtain d h where p: "std_try_pop (rb_disp rt) = (d, h)" by force
    note st = std.pick_step [OF inv assms(3) p]
    have v: "handle_valid h" using std.pick_finds [of "rb_disp rt" None] q True e p by (simp add: any_caller_def)
    obtain rt' where r: "execute v tid h (rt\<lparr>rb_disp := d\<rparr>) = Some rt'" "std.keeps H {#} 0 (rt\<lparr>rb_disp := d\<rparr>) rt'"
      using std.execute_inv [OF assms(1) _ st(2), of H h "{#}" 0] st(1) v by auto
    have "std.keeps H {#} 0 rt rt'" by (rule std.keeps_from [OF r(2)]) simp_all
    then show ?thesis using std_keeps True e p v r(1)
      by (auto simp: std_worker_iteration_def std_try_pop_def)
  qed
qed

theorem std_worker_iteration_safe_witness:
  "std_worker_iteration std_demo_vtable True 0 demo_std = Some (demo_std, LoopBlocked) \<and> std_content (rb_disp demo_std) = {#}"
proof -
  have q: "sq_queued_count (rb_disp demo_std) = 0" by code_simp
  obtain rt' s where s: "std_worker_iteration std_demo_vtable True 0 demo_std = Some (rt', s)"
    "s = LoopBlocked \<longleftrightarrow> std_content (rb_disp demo_std) = {#}"
    using std_worker_iteration_safe [OF std_demo_user_ok demo_std_ok(1,2), of True] by blast
  then show ?thesis using q by (auto simp: std_worker_iteration_def)
qed

text \<open>One step of a worker thread \<open>wtid\<close> that runs beside a blocked thread.\<close>

definition tb_other_worker where
  "tb_other_worker call wtid r =
     (case tb_try_execute_one (bare_vtable tb_enqueue_ready call (\<lambda>r. r)) wtid r of
        None \<Rightarrow> r | Some x \<Rightarrow> fst x)"

text \<open>
  C3. \<open>wait_all\<close> returns, and only when everything is done: if no task is running and bodies do not
  submit tasks (they may throw), then \<open>wait_all\<close> of a worker, or of an external thread beside one
  worker that runs tasks, ends with no task left and nothing outstanding, whatever dependencies the
  tasks have; for \<open>ThunderboltRuntime\<close> in a stealing mode.
\<close>

theorem tb_wait_all_returns:
  assumes "\<forall>f tid i rt. fst (call f tid i rt) = rt" "tb_ok H rt" "idle H rt"
    "thread_ok tid rt" "thread_ok wtid rt" "on_own_worker wtid rt \<noteq> None" "tb_mode (rb_disp rt) \<noteq> Static"
  shows "\<exists>rt'. rt_wait_all (tb_vtable call (tb_other_worker call wtid)) tid rt = Some rt' \<and> tb_ok [] rt' \<and> rb_outstanding rt' = 0"
proof -
  have "\<exists>rt'. rt_wait_all (tb_vtable call (tb_other_worker call wtid)) tid rt = Some rt' \<and> tb.inv [] {#} 0 [] rt'"
  proof (rule tb.wait_all_finishes)
    show "v_try (tb_vtable call (tb_other_worker call wtid)) = try_execute tb_pick (bare_vtable tb_enqueue_ready call (tb_other_worker call wtid))"
      by (simp add: tb_vtable_def Let_def tb_try_execute_one_def [abs_def])
    show "v_others (tb_vtable call (tb_other_worker call wtid)) r = (case try_execute tb_pick
        (bare_vtable tb_enqueue_ready call (\<lambda>r. r)) wtid r of None \<Rightarrow> r | Some x \<Rightarrow> fst x)" for r
      by (simp add: tb_vtable_def Let_def tb_other_worker_def tb_try_execute_one_def bare_vtable_def)
  qed (use assms in \<open>simp_all add: silent_def bare_vtable_def tb_ok_def tb_finds_def\<close>)
  then show ?thesis using tb.outstanding_zero_iff unfolding tb_ok_def by blast
qed

theorem tb_wait_all_returns_witness:
  "\<exists>rt'. rt_wait_all (tb_vtable (\<lambda>f tid i rt. (rt, Some OtherException))
       (tb_other_worker (\<lambda>f tid i rt. (rt, Some OtherException)) 0)) 1 demo_tb1 = Some rt' \<and> tb_ok [] rt'"
proof -
  have "on_own_worker 0 demo_tb1 \<noteq> None" by code_simp
  moreover have "idle [demo_h1] demo_tb1" using demo_tb1_evaluated by (simp add: idle_def)
  ultimately show ?thesis
    using tb_wait_all_returns [of "\<lambda>f tid i rt. (rt, Some OtherException)" "[demo_h1]" demo_tb1 1 0]
      demo_tb1(2-4) demo_tb1_evaluated by auto
qed

lemma is_complete_world:
  assumes "rb_world rt' = rb_world rt" "rb_pid rt' = rb_pid rt"
  shows "is_complete_internal h rt' \<longleftrightarrow> is_complete_internal h rt"
proof -
  have "rt_get h rt' = rt_get h rt" "rt_slot i rt' = rt_slot i rt" for i
    by (simp_all add: rt_get_def rt_slot_def assms)
  then show ?thesis unfolding is_complete_internal_def by presburger
qed



text \<open>
  C11. \<open>complete\<close> notifies \<open>completion_cv_\<close> exactly when somebody may be waiting for it: a thread has
  registered for this task's slot, or waiters have overflowed the slots, or this was the last
  outstanding task and a thread is in \<open>wait_all\<close>. Other completions stay silent.
\<close>

theorem complete_notifies:
  assumes "complete v tid h rt = Some rt'"
  shows "rb_events rt' = rb_events rt @
    (if (rb_handle_waiters rt \<noteq> 0 \<and> (rb_overflow rt \<noteq> 0 \<or> hindex h \<in> set (rb_wait_slots rt))) \<or>
        (rb_outstanding rt' = 0 \<and> rb_all_waiters rt \<noteq> 0) then [NotifyCompletion] else [])"
proof -
  obtain i w where g: "rt_get h rt = Some i" and
    w: "release tid (rb_pid rt) h (rb_world (rt_upd i (\<lambda>t. t\<lparr>t_state := Completed\<rparr>)
         (rt_upd i (\<lambda>t. fst (take_successors t)) rt))) = Some w"
    using assms(1) by (auto simp: complete_def Let_def split: option.splits)
  let ?rt2 = "rt_upd i (\<lambda>t. t\<lparr>t_state := Completed\<rparr>) (rt_upd i (\<lambda>t. fst (take_successors t)) rt)\<lparr>rb_world := w\<rparr>"
  let ?rt3 = "fold (release_dependent v tid) (snd (take_successors (rt_slot i rt))) ?rt2"
  let ?rt4 = "?rt3\<lparr>rb_completed := sc_increment (thread_home tid ?rt3) (rb_completed ?rt3),
                   rb_outstanding := rb_outstanding ?rt3 - 1\<rparr>"
  have c: "rt' = (if wake_handle_waiters (hindex h) ?rt4 \<or> wake_all_waiters (rb_outstanding ?rt3 - 1) ?rt4
      then ?rt4\<lparr>rb_events := rb_events ?rt4 @ [NotifyCompletion]\<rparr> else ?rt4)"
    using assms(1) g w by (simp add: complete_def Let_def)
  have f: "rb_events ?rt4 = rb_events rt" "rb_handle_waiters ?rt4 = rb_handle_waiters rt"
    "rb_overflow ?rt4 = rb_overflow rt" "rb_wait_slots ?rt4 = rb_wait_slots rt" "rb_all_waiters ?rt4 = rb_all_waiters rt"
    using release_dependents_frame [of v tid "snd (take_successors (rt_slot i rt))" ?rt2] by (simp_all add: rt_upd_def)
  have h: "wake_handle_waiters (hindex h) ?rt4 \<longleftrightarrow>
      rb_handle_waiters rt \<noteq> 0 \<and> (rb_overflow rt \<noteq> 0 \<or> hindex h \<in> set (rb_wait_slots rt))"
    unfolding wake_handle_waiters_def find_some_iff f by blast
  have o: "rb_outstanding rt' = rb_outstanding ?rt3 - 1" using c by (simp split: if_splits)
  have a: "wake_all_waiters (rb_outstanding ?rt3 - 1) ?rt4 \<longleftrightarrow> rb_outstanding rt' = 0 \<and> rb_all_waiters rt \<noteq> 0"
    unfolding wake_all_waiters_def f o by blast
  have "rb_events rt' = rb_events ?rt4 @ (if wake_handle_waiters (hindex h) ?rt4 \<or>
      wake_all_waiters (rb_outstanding ?rt3 - 1) ?rt4 then [NotifyCompletion] else [])"
    using c by (simp split: if_splits)
  then show ?thesis unfolding h a f .
qed

definition demo_running :: "(script, tb_state) rtb" where
  "demo_running = (rt_upd (unat (hindex demo_h1)) (\<lambda>t. t\<lparr>t_state := Executing\<rparr>) demo_tb1)\<lparr>rb_all_waiters := 1\<rparr>"

theorem complete_notifies_witness:
  "\<exists>rt'. complete tb_demo_vtable 0 demo_h1 demo_running = Some rt' \<and>
     rb_events rt' = rb_events demo_running @ [NotifyCompletion]"
proof -
  have "map_option rb_outstanding (complete tb_demo_vtable 0 demo_h1 demo_running) = Some 0"
    "rb_all_waiters demo_running = 1" by code_simp+
  then show ?thesis using complete_notifies [of tb_demo_vtable 0 demo_h1 demo_running] by auto
qed

section \<open>The waiter slots\<close>

text \<open>
  Threads that enter and leave \<open>wait(handle)\<close>: \<open>ws\<close> lists the waiting threads, each with the task
  index it waits for and the result of its registration.
\<close>

datatype waiter_op = Enter u32 | Leave nat

fun waiter_step :: "waiter_op \<Rightarrow> ('b, 'd) rtb \<times> (u32 \<times> nat) list \<Rightarrow> ('b, 'd) rtb \<times> (u32 \<times> nat) list" where
  "waiter_step (Enter index) (rt, ws) =
     (case register_handle_waiter index rt of
        (rt', slot) \<Rightarrow> (rt'\<lparr>rb_handle_waiters := rb_handle_waiters rt' + 1\<rparr>, ws @ [(index, slot)]))"
| "waiter_step (Leave k) (rt, ws) =
     (if k < length ws
      then (unregister_handle_waiter (snd (ws ! k)) (rt\<lparr>rb_handle_waiters := rb_handle_waiters rt - 1\<rparr>),
            take k ws @ drop (Suc k) ws)
      else (rt, ws))"

definition waiters_ok :: "(u32 \<times> nat) list \<Rightarrow> ('b, 'd) rtb \<Rightarrow> bool" where
  "waiters_ok ws rt \<longleftrightarrow> length (rb_wait_slots rt) = kMaxHandleWaiterSlots \<and>
     rb_handle_waiters rt = of_nat (length ws) \<and>
     rb_overflow rt = of_nat (length (filter (\<lambda>(i, s). s = kMaxHandleWaiterSlots) ws)) \<and>
     (\<forall>(i, s) \<in> set ws. s \<le> kMaxHandleWaiterSlots \<and> i \<noteq> kNoWaitedIndex) \<and>
     (\<forall>s < kMaxHandleWaiterSlots. map fst (filter (\<lambda>(i, s'). s' = s) ws) =
        (if rb_wait_slots rt ! s = kNoWaitedIndex then [] else [rb_wait_slots rt ! s]))"

lemma enter_ok:
  assumes "waiters_ok ws rt" "index \<noteq> kNoWaitedIndex" "waiter_step (Enter index) (rt, ws) = (rt', ws')"
  shows "waiters_ok ws' rt'"
proof (cases "List.find (\<lambda>i. rb_wait_slots rt ! i = kNoWaitedIndex) [0..<kMaxHandleWaiterSlots]")
  case None
  then have "rt' = rt\<lparr>rb_overflow := rb_overflow rt + 1, rb_handle_waiters := rb_handle_waiters rt + 1\<rparr>"
    "ws' = ws @ [(index, kMaxHandleWaiterSlots)]" using assms(3) by (simp_all add: register_handle_waiter_def)
  then show ?thesis using assms(1,2) by (auto simp: waiters_ok_def)
next
  case (Some i)
  then have i: "i < kMaxHandleWaiterSlots" "rb_wait_slots rt ! i = kNoWaitedIndex" using find_Some_in [OF Some] by auto
  have "rt' = rt\<lparr>rb_wait_slots := (rb_wait_slots rt)[i := index], rb_handle_waiters := rb_handle_waiters rt + 1\<rparr>"
    "ws' = ws @ [(index, i)]" using assms(3) Some by (simp_all add: register_handle_waiter_def)
  then show ?thesis using assms(1,2) i by (auto simp: waiters_ok_def nth_list_update)
qed

lemma split_at: "k < length ws \<Longrightarrow> ws = take k ws @ ws ! k # drop (Suc k) ws"
  by (simp add: id_take_nth_drop)

lemma leave_ok:
  assumes ok: "waiters_ok ws rt" and s: "waiter_step (Leave k) (rt, ws) = (rt', ws')"
  shows "waiters_ok ws' rt'"
proof (cases "k < length ws")
  case False
  then show ?thesis using assms by simp
next
  case True
  define xs ys where "xs = take k ws" and "ys = drop (Suc k) ws"
  obtain i j where ij: "ws ! k = (i, j)" by force
  have ws: "ws = xs @ (i, j) # ys" using split_at [OF True] ij by (simp add: xs_def ys_def)
  have ws': "ws' = xs @ ys" using s True by (simp add: xs_def ys_def split: if_splits)
  have rt': "rt' = unregister_handle_waiter j (rt\<lparr>rb_handle_waiters := rb_handle_waiters rt - 1\<rparr>)"
    using s True ij by simp
  show ?thesis
  proof (cases "j < kMaxHandleWaiterSlots")
    case False
    then have "j = kMaxHandleWaiterSlots" using ok ws by (auto simp: waiters_ok_def)
    then show ?thesis using ok ws ws' rt' by (auto simp: waiters_ok_def unregister_handle_waiter_def)
  next
    case j: True
    have "map fst (filter (\<lambda>(i', s'). s' = j) ws) = [rb_wait_slots rt ! j] \<or> map fst (filter (\<lambda>(i', s'). s' = j) ws) = []"
      using ok j by (auto simp: waiters_ok_def)
    then have none: "filter (\<lambda>(i', s'). s' = j) xs = []" "filter (\<lambda>(i', s'). s' = j) ys = []"
      unfolding ws by (auto simp: append_eq_Cons_conv)
    show ?thesis using ok ws ws' rt' j none by (auto simp: waiters_ok_def unregister_handle_waiter_def nth_list_update)
  qed
qed

lemma waiters_run_ok:
  "waiters_ok ws rt \<Longrightarrow> \<forall>op \<in> set ops. op \<noteq> Enter kNoWaitedIndex \<Longrightarrow>
   waiters_ok (snd (fold waiter_step ops (rt, ws))) (fst (fold waiter_step ops (rt, ws)))"
proof (induction ops arbitrary: rt ws)
  case (Cons op ops)
  obtain rt' ws' where s: "waiter_step op (rt, ws) = (rt', ws')" by force
  have "waiters_ok ws' rt'"
  proof (cases op)
    case (Enter index)
    then show ?thesis using enter_ok [OF Cons.prems(1), of index] Cons.prems(2) s by simp
  next
    case (Leave k)
    then show ?thesis using leave_ok [OF Cons.prems(1)] s by simp
  qed
  then show ?case using Cons.IH [of ws' rt'] Cons.prems(2) s by simp
qed simp

text \<open>
  C10. No waiter is missed and none is woken in vain: after any sequence of threads entering and
  leaving \<open>wait(handle)\<close> (fewer than \<open>2 ^ 32\<close> at a time, in any order, more than the 32 slots
  included), a completion of the task with slot \<open>i\<close> notifies if some thread waits for \<open>i\<close>, and, while
  no waiter has overflowed the slots, only if some thread waits for \<open>i\<close>; when all have left, the
  slots and counters are as before.
\<close>

theorem waiters_never_missed:
  assumes "\<forall>op \<in> set ops. op \<noteq> Enter kNoWaitedIndex" "rb_handle_waiters rt = 0" "rb_overflow rt = 0"
    "rb_wait_slots rt = replicate kMaxHandleWaiterSlots kNoWaitedIndex"
    "fold waiter_step ops (rt, []) = (rt', ws)" "length ws < 2 ^ 32" "i \<noteq> kNoWaitedIndex"
  shows "(i \<in> fst ` set ws \<longrightarrow> wake_handle_waiters i rt') \<and>
    (rb_overflow rt' = 0 \<longrightarrow> wake_handle_waiters i rt' \<longrightarrow> i \<in> fst ` set ws) \<and>
    (ws = [] \<longrightarrow> rb_wait_slots rt' = rb_wait_slots rt \<and> rb_handle_waiters rt' = 0 \<and> rb_overflow rt' = 0)"
proof -
  have "waiters_ok [] rt" using assms(2-4) by (simp add: waiters_ok_def)
  then have ok: "waiters_ok ws rt'" using waiters_run_ok [of "[]" rt ops] assms(1,5) by simp
  have len: "unat (of_nat (length ws) :: u32) = length ws" using assms(6) by (simp add: unat_of_nat take_bit_nat_eq_self)
  have slot: "\<exists>s < kMaxHandleWaiterSlots. rb_wait_slots rt' ! s = i" if "(i, s) \<in> set ws" "s < kMaxHandleWaiterSlots" for s
  proof -
    have "i \<in> set (map fst (filter (\<lambda>(i', s'). s' = s) ws))" using that by force
    moreover have "map fst (filter (\<lambda>(i', s'). s' = s) ws) =
        (if rb_wait_slots rt' ! s = kNoWaitedIndex then [] else [rb_wait_slots rt' ! s])"
      using ok that(2) unfolding waiters_ok_def by blast
    ultimately have "rb_wait_slots rt' ! s = i" by (simp split: if_splits)
    then show ?thesis using that(2) by blast
  qed
  have "wake_handle_waiters i rt'" if i: "i \<in> fst ` set ws"
  proof -
    have nz: "rb_handle_waiters rt' \<noteq> 0"
    proof
      assume "rb_handle_waiters rt' = 0"
      then have "length ws = 0" using ok len by (simp add: waiters_ok_def)
      then show False using i by simp
    qed
    obtain s where s: "(i, s) \<in> set ws" using i by auto
    show ?thesis
    proof (cases "s < kMaxHandleWaiterSlots")
      case True
      then have "i \<in> set (rb_wait_slots rt')" using slot [OF s] ok by (auto simp: waiters_ok_def)
      then show ?thesis unfolding wake_handle_waiters_def find_some_iff using nz by blast
    next
      case False
      let ?ov = "filter (\<lambda>(i, s). s = kMaxHandleWaiterSlots) ws"
      have "s = kMaxHandleWaiterSlots" using False s ok by (auto simp: waiters_ok_def)
      then have "?ov \<noteq> []" using s by (auto simp: filter_empty_conv)
      moreover have "length ?ov < 2 ^ 32" using assms(6) length_filter_le [of _ ws] by (rule le_less_trans [rotated])
      then have "unat (of_nat (length ?ov) :: u32) = length ?ov" by (simp add: unat_of_nat take_bit_nat_eq_self)
      ultimately have "rb_overflow rt' \<noteq> 0" using ok by (auto simp: waiters_ok_def)
      then show ?thesis using nz by (simp add: wake_handle_waiters_def)
    qed
  qed
  moreover have "i \<in> fst ` set ws" if w: "rb_overflow rt' = 0" "wake_handle_waiters i rt'"
  proof -
    have "i \<in> set (rb_wait_slots rt')" using w unfolding wake_handle_waiters_def find_some_iff by blast
    then obtain s where s: "s < kMaxHandleWaiterSlots" "rb_wait_slots rt' ! s = i"
      using ok by (auto simp: waiters_ok_def in_set_conv_nth)
    then have "map fst (filter (\<lambda>(i', s'). s' = s) ws) = [i]" using ok assms(7) by (auto simp: waiters_ok_def)
    then have "i \<in> set (map fst (filter (\<lambda>(i', s'). s' = s) ws))" by simp
    then show ?thesis by auto
  qed
  moreover have "rb_wait_slots rt' = rb_wait_slots rt \<and> rb_handle_waiters rt' = 0 \<and> rb_overflow rt' = 0" if "ws = []"
  proof -
    have l: "length (rb_wait_slots rt') = kMaxHandleWaiterSlots" and
      n: "\<forall>s < kMaxHandleWaiterSlots. rb_wait_slots rt' ! s = kNoWaitedIndex"
      using ok that by (auto simp: waiters_ok_def split: if_splits)
    have "rb_wait_slots rt' = replicate kMaxHandleWaiterSlots kNoWaitedIndex"
      by (rule nth_equalityI) (use l n in simp_all)
    then show ?thesis using ok that assms(4) by (simp add: waiters_ok_def)
  qed
  ultimately show ?thesis by blast
qed

theorem waiters_never_missed_witness:
  "wake_handle_waiters 7 (fst (fold waiter_step [Enter 7, Enter 9, Leave 1] (demo_std, []))) \<and>
   \<not> wake_handle_waiters 9 (fst (fold waiter_step [Enter 7, Enter 9, Leave 1] (demo_std, [])))"
proof -
  let ?r = "fold waiter_step [Enter 7, Enter 9, Leave 1] (demo_std, [])"
  have e: "rb_handle_waiters demo_std = 0" "rb_overflow demo_std = 0"
    "rb_wait_slots demo_std = replicate kMaxHandleWaiterSlots kNoWaitedIndex"
    "map fst (snd ?r) = [7]" "rb_overflow (fst ?r) = 0" by code_simp+
  have n: "\<forall>op \<in> set [Enter 7, Enter 9, Leave 1]. op \<noteq> Enter kNoWaitedIndex" "(7 :: u32) \<noteq> kNoWaitedIndex"
    "(9 :: u32) \<noteq> kNoWaitedIndex" by (simp_all add: kNoWaitedIndex_def)
  obtain rt1 ws1 where p: "?r = (rt1, ws1)" by force
  have w1: "map fst ws1 = [7]" "rb_overflow rt1 = 0" using e(4,5) unfolding p by (simp_all only: fst_conv snd_conv)
  have ws: "fst ` set ws1 = {7}" using w1(1) by (metis list.set(1) list.set(2) list.set_map)
  have l: "length ws1 < 2 ^ 32" using arg_cong [OF w1(1), of length] by simp
  note a = waiters_never_missed [OF n(1) e(1-3) p l n(2)] and b = waiters_never_missed [OF n(1) e(1-3) p l n(3)]
  have "wake_handle_waiters 7 rt1" using a ws by blast
  moreover have "\<not> wake_handle_waiters 9 rt1" using b ws w1(2) by auto
  ultimately have "wake_handle_waiters 7 (fst ?r) \<and> \<not> wake_handle_waiters 9 (fst ?r)" by (simp only: p fst_conv simp_thms)
  then show ?thesis .
qed

end
