(* ===== verification/Parallel_For.thy ===== *)
theory Parallel_For
  imports Runtime_Progress
begin

text \<open>
  \<open>ITaskRuntime::parallel_for\<close> and the convenience layer of \<open>api/ITaskRuntime.hpp\<close>: a few tasks
  claim chunks of a range from one shared 64-bit cursor. The interleaving of the claims is an
  arbitrary schedule of the tasks.
\<close>

section \<open>The convenience calls\<close>

text \<open>
  \<open>submit(callable)\<close>: \<open>in_place\<close> is \<open>in_place_submit_\<close>. On the other path the callable is wrapped
  before the call, so that a constructor that throws does so before anything is counted.
\<close>

definition submit_callable ::
    "('b, 'd) vtable \<Rightarrow> bool \<Rightarrow> nat \<Rightarrow> exn + 'b \<Rightarrow> TaskPriority \<Rightarrow> ('b, 'd) rtb \<Rightarrow>
     (('b, 'd) rtb \<times> (exn + TaskHandle)) option" where
  "submit_callable v in_place tid construct priority rt =
     (if in_place then submit_emplace v tid construct priority rt
      else case construct of
        Inl e \<Rightarrow> Some (rt, Inl e)
      | Inr f \<Rightarrow> map_option (\<lambda>(rt', h). (rt', Inr h)) (submit v tid (make_desc (Some f) priority) rt))"

text \<open>The default of \<open>submit_emplace\<close>, for a runtime that does not override it, and the other two calls with dependencies.\<close>

definition submit_emplace_default ::
    "('b, 'd) vtable \<Rightarrow> nat \<Rightarrow> exn + 'b \<Rightarrow> TaskPriority \<Rightarrow> ('b, 'd) rtb \<Rightarrow> (('b, 'd) rtb \<times> (exn + TaskHandle)) option" where
  "submit_emplace_default v tid construct priority rt =
     (let desc = make_desc None priority in
      case construct of
        Inl e \<Rightarrow> Some (rt, Inl e)
      | Inr f \<Rightarrow> map_option (\<lambda>(rt', h). (rt', Inr h)) (submit v tid (desc\<lparr>dfunction := Some f\<rparr>) rt))"

definition submit_after_callable ::
    "('b, 'd) vtable \<Rightarrow> nat \<Rightarrow> TaskHandle list \<Rightarrow> exn + 'b \<Rightarrow> TaskPriority \<Rightarrow> ('b, 'd) rtb \<Rightarrow>
     (('b, 'd) rtb \<times> (exn + TaskHandle)) option" where
  "submit_after_callable v tid dependencies construct priority rt =
     (case construct of
        Inl e \<Rightarrow> Some (rt, Inl e)
      | Inr f \<Rightarrow> map_option (\<lambda>(rt', h). (rt', Inr h)) (submit_after v tid (make_desc (Some f) priority) dependencies rt))"

definition submit_after_vector ::
    "('b, 'd) vtable \<Rightarrow> nat \<Rightarrow> TaskHandle list \<Rightarrow> 'b TaskDesc \<Rightarrow> ('b, 'd) rtb \<Rightarrow> (('b, 'd) rtb \<times> TaskHandle) option" where
  "submit_after_vector v tid dependencies desc rt = submit_after v tid desc dependencies rt"

text \<open>The two paths of \<open>submit(callable)\<close> agree for a runtime that keeps the default.\<close>

lemma submit_callable_default:
  "submit_callable v False tid construct priority rt = submit_emplace_default v tid construct priority rt"
  "submit_after_callable v tid [] construct priority rt = submit_callable v False tid construct priority rt"
  by (simp_all add: submit_callable_def submit_emplace_default_def submit_after_callable_def submit_after_def make_desc_def
      split: sum.split)

section \<open>Claiming chunks\<close>

definition pf_batch_count :: "u64 \<Rightarrow> u64 \<Rightarrow> u64 \<Rightarrow> u64" where
  "pf_batch_count start stop grain = (stop - start + grain - 1) div grain"

definition pf_task_count :: "u64 \<Rightarrow> u64 \<Rightarrow> u64 \<Rightarrow> u32 \<Rightarrow> u64" where
  "pf_task_count start stop grain workers =
     (let worker_cap = (if workers = 0 then 1 else ucast workers);
          batch_count = pf_batch_count start stop grain
      in if batch_count < worker_cap then batch_count else worker_cap)"

text \<open>
  The state of the tasks: the cursor, the tasks that have left their loop, and the chunks that the
  body has been called with, in the order of the claims.
\<close>

record pf_state =
  pf_cursor :: u64
  pf_left :: "nat set"
  pf_calls :: "(nat \<times> u64 \<times> u64) list"

text \<open>One iteration of the loop of task \<open>t\<close>: claim the next chunk, and run the body on it or leave.\<close>

definition pf_claim :: "u64 \<Rightarrow> u64 \<Rightarrow> nat \<Rightarrow> pf_state \<Rightarrow> pf_state" where
  "pf_claim stop grain t s =
     (if t \<in> pf_left s then s
      else
        (let lo = pf_cursor s; s1 = s\<lparr>pf_cursor := lo + grain\<rparr> in
         if lo \<ge> stop then s1\<lparr>pf_left := insert t (pf_left s1)\<rparr>
         else (let hi = (if lo + grain < stop then lo + grain else stop)
               in s1\<lparr>pf_calls := pf_calls s1 @ [(t, lo, hi)]\<rparr>)))"

text \<open>
  The whole call, for a schedule of the tasks' iterations: \<open>None\<close> if a task the schedule names does
  not exist or the schedule ends before every task has left its loop (what \<open>wait\<close> waits for).
\<close>

definition parallel_for :: "u64 \<Rightarrow> u64 \<Rightarrow> u64 \<Rightarrow> u32 \<Rightarrow> nat list \<Rightarrow> (nat \<times> u64 \<times> u64) list option" where
  "parallel_for start stop grain workers schedule =
     (if start \<ge> stop then Some []
      else
        (let g = (if grain = 0 then 1 else grain);
             tasks = unat (pf_task_count start stop g workers);
             s = fold (pf_claim stop g) (filter (\<lambda>t. t < tasks) schedule)
                   \<lparr>pf_cursor = start, pf_left = {}, pf_calls = []\<rparr>
         in if {..<tasks} \<subseteq> pf_left s then Some (pf_calls s) else None))"

section \<open>Submitting and waiting for several tasks\<close>

text \<open>
  The loops of \<open>parallel_for\<close> (and of the benchmarks): one submission per body, then a wait per handle. An exception of a
  submission leaves the loop.
\<close>

fun submit_all ::
    "('b, 'd) vtable \<Rightarrow> bool \<Rightarrow> nat \<Rightarrow> 'b list \<Rightarrow> TaskPriority \<Rightarrow> ('b, 'd) rtb \<Rightarrow>
     (('b, 'd) rtb \<times> (exn + TaskHandle list)) option" where
  "submit_all v in_place tid [] priority rt = Some (rt, Inr [])"
| "submit_all v in_place tid (b # bodies) priority rt =
     (case submit_callable v in_place tid (Inr b) priority rt of
        None \<Rightarrow> None
      | Some (rt1, Inl e) \<Rightarrow> Some (rt1, Inl e)
      | Some (rt1, Inr h) \<Rightarrow>
          map_option (\<lambda>(rt2, r). (rt2, map_sum id ((#) h) r)) (submit_all v in_place tid bodies priority rt1))"

definition wait_each :: "('b, 'd) vtable \<Rightarrow> nat \<Rightarrow> TaskHandle list \<Rightarrow> ('b, 'd) rtb \<Rightarrow> ('b, 'd) rtb option" where
  "wait_each v tid handles rt = fold (\<lambda>h r. Option.bind r (rt_wait v tid h)) handles (Some rt)"

text \<open>
  The call as the calling thread makes it; \<open>body\<close> is the closure of the claiming loop and \<open>workers\<close> is \<open>worker_count()\<close>.
\<close>

definition parallel_for_call ::
    "('b, 'd) vtable \<Rightarrow> bool \<Rightarrow> nat \<Rightarrow> 'b \<Rightarrow> TaskPriority \<Rightarrow> u32 \<Rightarrow> u64 \<Rightarrow> u64 \<Rightarrow> u64 \<Rightarrow> ('b, 'd) rtb \<Rightarrow>
     (('b, 'd) rtb \<times> (exn + unit)) option" where
  "parallel_for_call v in_place tid body priority workers start stop grain rt =
     (if start \<ge> stop then Some (rt, Inr ())
      else
        (let g = (if grain = 0 then 1 else grain);
             task_count = unat (pf_task_count start stop g workers)
         in case submit_all v in_place tid (replicate task_count body) priority rt of
              None \<Rightarrow> None
            | Some (rt1, Inl e) \<Rightarrow> Some (rt1, Inl e)
            | Some (rt1, Inr handles) \<Rightarrow> map_option (\<lambda>rt2. (rt2, Inr ())) (wait_each v tid handles rt1)))"

lemma submit_all_handles: "submit_all v in_place tid bodies priority rt = Some (rt', Inr handles) \<Longrightarrow> length handles = length bodies"
proof (induction bodies arbitrary: rt handles)
  case (Cons b bodies)
  then obtain rt1 h r where "submit_all v in_place tid bodies priority rt1 = Some (rt', r)" "map_sum id ((#) h) r = Inr handles"
    by (auto split: option.splits sum.splits)
  then show ?case using Cons.IH by (cases r) auto
qed simp

text \<open>A wait that returns leaves what it waited for, whatever the runtime.\<close>

lemma help_loop_ends:
  assumes "help_loop v pred tid rt = Some rt'"
  shows "pred rt'"
proof (rule help_loop.raw_induct [where P = "\<lambda>_ pred _ _ rt'. pred rt'", OF _ assms])
qed (auto simp: bind_eq_Some_conv split: if_splits)

lemma block_until_ends:
  assumes "block_until v pred rt = Some rt'"
  shows "pred rt'"
proof (rule block_until.raw_induct [where P = "\<lambda>_ pred _ rt'. pred rt'", OF _ assms])
qed (auto simp: bind_eq_Some_conv split: if_splits)

lemma wait_all_ends: "rt_wait_all v tid rt = Some rt' \<Longrightarrow> rb_outstanding rt' = 0"
  by (auto simp: rt_wait_all_def split: if_splits dest: help_loop_ends block_until_ends)

lemma wait_each_append:
  "wait_each v tid (hs @ hs') rt = Option.bind (wait_each v tid hs rt) (wait_each v tid hs')"
proof -
  have none: "fold (\<lambda>h r. Option.bind r (rt_wait v tid h)) hs' None = None" for hs' by (induction hs') simp_all
  show ?thesis by (cases "wait_each v tid hs rt") (simp_all add: wait_each_def none)
qed

section \<open>The chunks partition the range\<close>

text \<open>
  Consecutive chunks from \<open>a\<close> to \<open>b\<close>, none empty and none larger than the grain.\<close>

fun chunks_from :: "nat \<Rightarrow> nat \<Rightarrow> nat \<Rightarrow> (nat \<times> u64 \<times> u64) list \<Rightarrow> bool" where
  "chunks_from g a b [] \<longleftrightarrow> a = b"
| "chunks_from g a b ((t, lo, hi) # cs) \<longleftrightarrow> unat lo = a \<and> a < unat hi \<and> unat hi \<le> a + g \<and> chunks_from g (unat hi) b cs"

lemma chunks_from_append:
  "chunks_from g a b cs \<Longrightarrow> unat lo = b \<Longrightarrow> b < unat hi \<Longrightarrow> unat hi \<le> b + g \<Longrightarrow>
   chunks_from g a (unat hi) (cs @ [(t, lo, hi)])"
  by (induction g a b cs rule: chunks_from.induct) auto

definition chunk_indices :: "nat \<times> u64 \<times> u64 \<Rightarrow> nat list" where
  "chunk_indices c = (case c of (t, lo, hi) \<Rightarrow> [unat lo..<unat hi])"

lemma chunks_from_indices: "chunks_from g a b cs \<Longrightarrow> a \<le> b \<and> concat (map chunk_indices cs) = [a..<b]"
proof (induction g a b cs rule: chunks_from.induct)
  case (2 g a b t lo hi cs)
  then have "unat hi \<le> b" "concat (map chunk_indices cs) = [unat hi..<b]" "unat lo = a" "a < unat hi" by auto
  moreover have "[a..<unat hi] @ [unat hi..<b] = [a..<b]"
    using calculation upt_add_eq_append [of a "unat hi" "b - unat hi"] by simp
  moreover have "chunk_indices (t, lo, hi) = [unat lo..<unat hi]" by (simp add: chunk_indices_def)
  ultimately show ?case by simp
qed simp

lemma chunks_from_small:
  "chunks_from g a b cs \<Longrightarrow> \<forall>(t, lo, hi) \<in> set cs. lo < hi \<and> unat hi - unat lo \<le> g"
  by (induction g a b cs rule: chunks_from.induct) (auto simp: word_less_nat_alt)

text \<open>
  The invariant of a run: \<open>k\<close> claims were made by tasks that left, so the cursor stands at most
  \<open>k\<close> grains behind the end.
\<close>

definition pf_inv :: "u64 \<Rightarrow> u64 \<Rightarrow> u64 \<Rightarrow> pf_state \<Rightarrow> bool" where
  "pf_inv start stop g s \<longleftrightarrow> finite (pf_left s) \<and> unat start \<le> unat (pf_cursor s) \<and>
     (if pf_left s = {} then unat (pf_cursor s) < unat stop + unat g else unat stop \<le> unat (pf_cursor s)) \<and>
     unat (pf_cursor s) < unat stop + unat g + card (pf_left s) * unat g \<and>
     chunks_from (unat g) (unat start) (min (unat (pf_cursor s)) (unat stop)) (pf_calls s)"

lemma pf_claim_inv:
  assumes inv: "pf_inv start stop g s" and g: "0 < g" and lt: "start < stop"
    and room: "unat stop + unat g + (card (pf_left s) + 1) * unat g \<le> 2 ^ 64"
  shows "pf_inv start stop g (pf_claim stop g t s)"
    "card (pf_left (pf_claim stop g t s)) \<le> card (pf_left s) + 1"
proof -
  let ?c = "pf_cursor s"
  have fin: "finite (pf_left s)" using inv by (simp add: pf_inv_def)
  have g0: "0 < unat g" using g by (simp add: word_less_nat_alt)
  have b: "unat ?c < unat stop + unat g + card (pf_left s) * unat g" using inv by (simp add: pf_inv_def)
  then have "unat ?c + unat g < 2 ^ 64" using room by (simp add: algebra_simps)
  then have n: "unat (?c + g) = unat ?c + unat g" by (simp add: unat_word_ariths)
  have "pf_inv start stop g (pf_claim stop g t s) \<and> card (pf_left (pf_claim stop g t s)) \<le> card (pf_left s) + 1"
  proof (cases "t \<in> pf_left s")
    case True
    then show ?thesis using inv by (simp add: pf_claim_def)
  next
    case t: False
    show ?thesis
    proof (cases "?c \<ge> stop")
      case True
      then have le: "unat stop \<le> unat ?c" by (simp add: word_le_nat_alt)
      have m: "min (unat ?c) (unat stop) = unat stop" "min (unat ?c + unat g) (unat stop) = unat stop"
        using le by simp_all
      have s': "pf_claim stop g t s = s\<lparr>pf_cursor := ?c + g, pf_left := insert t (pf_left s)\<rparr>"
        using t True by (simp add: pf_claim_def Let_def)
      show ?thesis using inv t b n fin le unfolding s' by (simp add: pf_inv_def m)
    next
      case False
      then have lo: "unat ?c < unat stop" by (simp add: word_le_nat_alt)
      then have none: "pf_left s = {}" using inv by (auto simp: pf_inv_def split: if_splits)
      have ch: "chunks_from (unat g) (unat start) (unat ?c) (pf_calls s)"
        using inv lo by (simp add: pf_inv_def min_def)
      define hi where "hi = (if ?c + g < stop then ?c + g else stop)"
      have hi: "unat hi = min (unat ?c + unat g) (unat stop)"
        using n by (auto simp: hi_def word_less_nat_alt min_def)
      have "chunks_from (unat g) (unat start) (unat hi) (pf_calls s @ [(t, ?c, hi)])"
        by (rule chunks_from_append [OF ch refl]) (use hi lo g0 in auto)
      moreover have "pf_claim stop g t s = s\<lparr>pf_cursor := ?c + g, pf_calls := pf_calls s @ [(t, ?c, hi)]\<rparr>"
        using t False by (simp add: pf_claim_def Let_def hi_def)
      ultimately show ?thesis using inv n none lo hi by (auto simp: pf_inv_def)
    qed
  qed
  then show "pf_inv start stop g (pf_claim stop g t s)"
    "card (pf_left (pf_claim stop g t s)) \<le> card (pf_left s) + 1" by simp_all
qed

text \<open>A task that has not left has claimed a chunk in each of its iterations.\<close>

lemma pf_run_inv:
  assumes g: "0 < g" and lt: "start < stop" and room: "unat stop + (tasks + 1) * unat g \<le> 2 ^ 64"
    and sched: "\<forall>t \<in> set schedule. t < tasks"
  defines "s0 \<equiv> \<lparr>pf_cursor = start, pf_left = {}, pf_calls = []\<rparr>"
  shows "let s = fold (pf_claim stop g) schedule s0 in
    pf_inv start stop g s \<and> pf_left s \<subseteq> {..<tasks} \<and> fst ` set (pf_calls s) \<subseteq> {..<tasks} \<and>
    (\<forall>t. t \<notin> pf_left s \<longrightarrow> unat start + count_list schedule t \<le> unat (pf_cursor s) \<and>
       count_list schedule t \<le> unat stop - unat start)"
  using sched
proof (induction schedule rule: rev_induct)
  case Nil
  show ?case using lt by (auto simp: s0_def pf_inv_def word_less_nat_alt Let_def)
next
  case (snoc x xs)
  let ?s = "fold (pf_claim stop g) xs s0" and ?s' = "fold (pf_claim stop g) (xs @ [x]) s0"
  have IH: "pf_inv start stop g ?s" "pf_left ?s \<subseteq> {..<tasks}" "fst ` set (pf_calls ?s) \<subseteq> {..<tasks}"
    "\<And>t. t \<notin> pf_left ?s \<Longrightarrow> unat start + count_list xs t \<le> unat (pf_cursor ?s) \<and>
       count_list xs t \<le> unat stop - unat start"
    using snoc by (simp_all add: Let_def)
  have x: "x < tasks" using snoc.prems by simp
  have s': "?s' = pf_claim stop g x ?s" by simp
  show ?case
  proof (cases "x \<in> pf_left ?s")
    case True
    then have "?s' = ?s" by (simp add: pf_claim_def)
    then show ?thesis using IH True by (auto simp: Let_def)
  next
    case out: False
    have "card (pf_left ?s) \<le> card ({..<tasks} - {x})" using IH(2) out by (intro card_mono) auto
    then have c: "card (pf_left ?s) + 1 \<le> tasks" using x by simp
    have "(card (pf_left ?s) + 1) * unat g \<le> tasks * unat g" by (rule mult_le_mono1 [OF c])
    then have r: "unat stop + unat g + (card (pf_left ?s) + 1) * unat g \<le> 2 ^ 64" using room by (simp add: algebra_simps)
    note i = pf_claim_inv(1) [OF IH(1) g lt r, of x]
    have "unat (pf_cursor ?s) < unat stop + unat g + card (pf_left ?s) * unat g" using IH(1) by (simp add: pf_inv_def)
    then have "unat (pf_cursor ?s) + unat g < 2 ^ 64" using r by (simp add: algebra_simps)
    then have n: "unat (pf_cursor ?s + g) = unat (pf_cursor ?s) + unat g" by (simp add: unat_word_ariths)
    have g0: "0 < unat g" using g by (simp add: word_less_nat_alt)
    have cu: "pf_cursor ?s' = pf_cursor ?s + g" using out by (simp add: s' pf_claim_def Let_def)
    have left: "pf_left ?s' = (if pf_cursor ?s \<ge> stop then insert x (pf_left ?s) else pf_left ?s)"
      using out by (simp add: s' pf_claim_def Let_def)
    have calls: "fst ` set (pf_calls ?s') \<subseteq> insert x (fst ` set (pf_calls ?s))"
      using out by (auto simp: s' pf_claim_def Let_def)
    have "unat start + count_list (xs @ [x]) t \<le> unat (pf_cursor ?s') \<and>
        count_list (xs @ [x]) t \<le> unat stop - unat start" if t: "t \<notin> pf_left ?s'" for t
    proof (cases "t = x")
      case True
      then have "unat (pf_cursor ?s) < unat stop" using left t by (auto simp: word_le_nat_alt not_le split: if_splits)
      moreover have "unat start + count_list xs x \<le> unat (pf_cursor ?s)" using IH(4) [OF out] by blast
      moreover have "count_list (xs @ [x]) t = Suc (count_list xs x)" "unat (pf_cursor ?s') = unat (pf_cursor ?s) + unat g"
        using True cu n by simp_all
      ultimately show ?thesis using g0 by linarith
    next
      case False
      have "t \<notin> pf_left ?s" using left t by (auto split: if_splits)
      then show ?thesis using IH(4) False cu n by fastforce
    qed
    moreover have "fst ` set (pf_calls ?s') \<subseteq> {..<tasks}" using calls IH(3) x by blast
    moreover have "pf_left ?s' \<subseteq> {..<tasks}" using left IH(2) x by simp
    ultimately show ?thesis using i by (simp add: Let_def s')
  qed
qed

lemma pf_task_count_bounds:
  assumes lt: "start < stop" and g: "0 < g" and room: "unat stop + unat g < 2 ^ 64"
  shows "0 < unat (pf_task_count start stop g workers)"
    "unat (pf_task_count start stop g workers) \<le> max 1 (unat workers)"
    "unat (pf_task_count start stop g workers) \<le> (unat stop - unat start + unat g - 1) div unat g"
proof -
  have g0: "0 < unat g" and l: "unat start < unat stop" using g lt by (simp_all add: word_less_nat_alt)
  have d: "unat (stop - start) = unat stop - unat start" using lt by (simp add: unat_sub word_le_nat_alt l order_less_imp_le)
  have "unat (stop - start + g) = unat stop - unat start + unat g"
  proof -
    have "unat (stop - start) + unat g < 2 ^ 64" using room l unfolding d by arith
    then show ?thesis using d by (simp add: unat_word_ariths)
  qed
  then have "unat (stop - start + g - 1) = unat stop - unat start + unat g - 1"
    using l g0 by (simp add: unat_sub word_le_nat_alt)
  then have b: "unat (pf_batch_count start stop g) = (unat stop - unat start + unat g - 1) div unat g"
    by (simp add: pf_batch_count_def unat_div)
  have b0: "0 < unat (pf_batch_count start stop g)"
    unfolding b using l g0 by (simp add: div_greater_zero_iff)
  have w: "unat (ucast workers :: u64) = unat workers" by (rule unat_widened)
  have w0: "workers \<noteq> 0 \<Longrightarrow> 0 < unat workers" by (simp add: unat_gt_0)
  have m: "unat (pf_task_count start stop g workers) =
      min (unat (pf_batch_count start stop g)) (if workers = 0 then 1 else unat workers)"
    by (auto simp: pf_task_count_def Let_def word_less_nat_alt w min_def)
  show "0 < unat (pf_task_count start stop g workers)" using m b0 w0 by simp
  show "unat (pf_task_count start stop g workers) \<le> max 1 (unat workers)" using m by auto
  show "unat (pf_task_count start stop g workers) \<le> (unat stop - unat start + unat g - 1) div unat g"
    using m b by simp
qed

section \<open>Properties\<close>

text \<open>What \<open>parallel_for\<close> hands to the body, for the clients of the call.\<close>

lemma parallel_for_covers:
  assumes "start < stop" "g = (if grain = 0 then 1 else grain)"
    "unat stop + (max 1 (unat workers) + 1) * unat g \<le> 2 ^ 64"
    "tasks = unat (pf_task_count start stop g workers)"
  shows "tasks \<le> max 1 (unat workers) \<and>
    (\<forall>calls. parallel_for start stop grain workers schedule = Some calls \<longrightarrow>
      concat (map chunk_indices calls) = [unat start..<unat stop] \<and>
      (\<forall>(t, lo, hi) \<in> set calls. t < tasks \<and> lo < hi \<and> unat hi - unat lo \<le> unat g)) \<and>
    ((\<forall>t < tasks. unat stop - unat start < count_list schedule t) \<longrightarrow>
      parallel_for start stop grain workers schedule \<noteq> None)"
proof -
  have g: "0 < g" using assms(2) by (auto simp: word_gt_0)
  then have g0: "0 < unat g" by (simp add: word_less_nat_alt)
  have "2 * unat g \<le> (max 1 (unat workers) + 1) * unat g" by (rule mult_le_mono1) simp
  then have room: "unat stop + unat g < 2 ^ 64" using assms(3) g0 by linarith
  note tc = pf_task_count_bounds [OF assms(1) g room, of workers, folded assms(4)]
  have "(tasks + 1) * unat g \<le> (max 1 (unat workers) + 1) * unat g" by (rule mult_le_mono1) (use tc(2) in simp)
  then have room': "unat stop + (tasks + 1) * unat g \<le> 2 ^ 64" using assms(3) by linarith
  let ?f = "filter (\<lambda>t. t < tasks) schedule"
  let ?s = "fold (pf_claim stop g) ?f \<lparr>pf_cursor = start, pf_left = {}, pf_calls = []\<rparr>"
  have run: "pf_inv start stop g ?s" "pf_left ?s \<subseteq> {..<tasks}" "fst ` set (pf_calls ?s) \<subseteq> {..<tasks}"
    "\<And>t. t \<notin> pf_left ?s \<Longrightarrow> count_list ?f t \<le> unat stop - unat start"
    using pf_run_inv [OF g assms(1) room', of ?f] by (simp_all add: Let_def)
  have p: "parallel_for start stop grain workers schedule = (if {..<tasks} \<subseteq> pf_left ?s then Some (pf_calls ?s) else None)"
  proof -
    have "\<not> start \<ge> stop" using assms(1) by simp
    then show ?thesis by (simp only: parallel_for_def Let_def if_False assms(4) assms(2))
  qed
  have "concat (map chunk_indices (pf_calls ?s)) = [unat start..<unat stop] \<and>
      (\<forall>(t, lo, hi) \<in> set (pf_calls ?s). t < tasks \<and> lo < hi \<and> unat hi - unat lo \<le> unat g)"
    if all: "{..<tasks} \<subseteq> pf_left ?s"
  proof -
    have ne: "pf_left ?s \<noteq> {}" using all tc(1) by auto
    have ch: "chunks_from (unat g) (unat start) (unat stop) (pf_calls ?s)"
      using run(1) ne by (simp add: pf_inv_def min_def split: if_splits)
    have "\<forall>(t, lo, hi) \<in> set (pf_calls ?s). lo < hi \<and> unat hi - unat lo \<le> unat g"
      using chunks_from_small [OF ch] by blast
    then show ?thesis using chunks_from_indices [OF ch] run(3) by fastforce
  qed
  moreover have "{..<tasks} \<subseteq> pf_left ?s" if many: "\<forall>t < tasks. unat stop - unat start < count_list schedule t"
  proof
    fix t
    assume "t \<in> {..<tasks}"
    then have "count_list ?f t = count_list schedule t" by (induction schedule) auto
    then show "t \<in> pf_left ?s" using run(4) [of t] many \<open>t \<in> {..<tasks}\<close> by fastforce
  qed
  ultimately show ?thesis using p tc(2) by auto
qed



lemma word_add_minus_one: "uint (x + g - 1 :: u64) = (uint x + uint g - 1) mod 2 ^ 64"
  by (simp add: uint_sub_lem uint_word_arith_bintrs uint_word_ariths take_bit_eq_mod mod_diff_left_eq)

lemma word_add_minus_one_wraps:
  fixes x g :: "u64"
  assumes "2 ^ 64 \<le> unat x + unat g - 1"
  shows "unat (x + g - 1) < unat g"
proof -
  have w: "unat w < 2 ^ 64" for w :: "u64" using unsigned_less [of w] by simp
  have i: "uint w = int (unat w)" for w :: "u64" by simp
  let ?s = "int (unat x) + int (unat g) - 1"
  have n: "2 ^ 64 \<le> int a + int b - 1" "int a + int b - 1 < 2 * 2 ^ 64" "int a + int b - 1 - 2 ^ 64 < int b"
    if "2 ^ 64 \<le> a + b - 1" "a < 2 ^ 64" "b < 2 ^ 64" for a b :: nat
    using that by simp_all
  note s = n [OF assms w w]
  have "?s mod 2 ^ 64 = (?s - 2 ^ 64) mod 2 ^ 64" by (simp only: minus_mod_self2)
  also have "\<dots> = ?s - 2 ^ 64" by (rule mod_pos_pos_trivial) (use s in linarith)+
  finally have "int (unat (x + g - 1)) < int (unat g)"
    using s(3) word_add_minus_one [of x g] unfolding i by (simp only:)
  then show ?thesis by (simp only: of_nat_less_iff)
qed
text \<open>
  C22. Without the bound the rounding \<open>count + grain - 1\<close> of \<open>parallel_for\<close> wraps: whenever it reaches
  \<open>2 ^ 64\<close>, no task is submitted, and the call returns at once without having called the body on any
  part of its range, although that range is not empty.
\<close>

theorem parallel_for_wraps:
  assumes "start < stop" "2 ^ 64 \<le> (unat stop - unat start) + unat grain - 1"
  shows "parallel_for start stop grain workers schedule = Some []"
proof -
  have "unat (stop - start) = unat stop - unat start" using assms(1) by (simp add: unat_sub less_imp_le)
  then have w: "unat (stop - start + grain - 1) < unat grain"
    using word_add_minus_one_wraps [of "stop - start" grain] assms(2) by simp
  then have "pf_batch_count start stop grain = 0" "grain \<noteq> 0"
    by (auto simp: pf_batch_count_def word_unat_eq_iff unat_div)
  then show ?thesis using assms(1) by (simp add: parallel_for_def pf_task_count_def Let_def word_less_nat_alt)
qed

theorem parallel_for_wraps_witness:
  "parallel_for 0 10 0xFFFFFFFFFFFFFFFF 4 [0, 1, 2, 3] = Some []"
  by (rule parallel_for_wraps) simp_all

end
