(* ===== verification/Float32.thy ===== *)
theory Float32
  imports TB_Prelude "HOL-Library.Log_Nat"
begin

text \<open>
  The \<open>float\<close> of the simulation: IEEE 754 binary32, held as its 32 bits, with the operations that the
  standard defines exactly (sum, difference, product, quotient, square root, \<open>fmod\<close>, comparison,
  conversion), each one the exact result rounded to nearest, ties to even. The build pins strict
  arithmetic (no contraction, no fast-math). Every NaN is represented by one quiet NaN. The
  functions that the C library is free to round (\<open>sin\<close>, \<open>cos\<close>, \<open>pow\<close>) are parameters.
\<close>

section \<open>Representation\<close>

type_synonym float32 = u32

definition f32_nan :: float32 where
  "f32_nan = 0x7FC00000"

definition f32_inf :: float32 where
  "f32_inf = 0x7F800000"

definition f32_negative :: "float32 \<Rightarrow> bool" where
  "f32_negative x \<longleftrightarrow> 0x80000000 \<le> x"

definition f32_abs :: "float32 \<Rightarrow> float32" where
  "f32_abs x = (if f32_negative x then x - 0x80000000 else x)"

definition f32_neg :: "float32 \<Rightarrow> float32" where
  "f32_neg x = x + 0x80000000"

definition f32_with_sign :: "bool \<Rightarrow> float32 \<Rightarrow> float32" where
  "f32_with_sign s x = (if s then x + 0x80000000 else x)"

definition f32_is_nan :: "float32 \<Rightarrow> bool" where
  "f32_is_nan x \<longleftrightarrow> f32_inf < f32_abs x"

definition f32_is_inf :: "float32 \<Rightarrow> bool" where
  "f32_is_inf x \<longleftrightarrow> f32_abs x = f32_inf"

text \<open>A finite float is \<open>mantissa * 2 ^ exponent\<close>, here with its sign and with an exponent above \<open>-150\<close>.\<close>

definition f32_exponent :: "float32 \<Rightarrow> int" where
  "f32_exponent x = (let e = uint (f32_abs x) div 2 ^ 23 in if e = 0 then -149 else e - 150)"

definition f32_mantissa :: "float32 \<Rightarrow> int" where
  "f32_mantissa x = (let a = uint (f32_abs x) in if a < 2 ^ 23 then a else 2 ^ 23 + a mod 2 ^ 23)"

definition f32_signed :: "float32 \<Rightarrow> int" where
  "f32_signed x = (if f32_negative x then - f32_mantissa x else f32_mantissa x)"

text \<open>The value of a finite float.\<close>

definition f32_value :: "float32 \<Rightarrow> rat" where
  "f32_value x = of_int (f32_signed x) * 2 powi f32_exponent x"

section \<open>Rounding\<close>

text \<open>
  The float nearest to \<open>m * 2 ^ e\<close>; \<open>sticky\<close> says that the exact value lies strictly between this and
  \<open>(m + 1) * 2 ^ e\<close>. The result is the exponent field above the mantissa, so that a carry out of the
  mantissa and the step from the subnormal numbers come out right.
\<close>

definition round_shift :: "int \<Rightarrow> nat \<Rightarrow> bool \<Rightarrow> int" where
  "round_shift m k sticky =
     (let q = m div 2 ^ k; r = m mod 2 ^ k
      in if k = 0 then m
         else if 2 ^ (k - 1) < r \<or> r = 2 ^ (k - 1) \<and> (sticky \<or> odd q) then q + 1 else q)"

definition f32_round :: "bool \<Rightarrow> int \<Rightarrow> int \<Rightarrow> bool \<Rightarrow> float32" where
  "f32_round s m e sticky =
     (let t = max (-149) (e + bitlen m - 24);
          q = (if t \<le> e then m * 2 ^ nat (e - t) else round_shift m (nat (t - e)) sticky);
          a = (if m = 0 then 0 else (t + 149) * 2 ^ 23 + q)
      in f32_with_sign s (if a < 255 * 2 ^ 23 then of_int a else f32_inf))"

section \<open>Arithmetic\<close>

definition f32_add :: "float32 \<Rightarrow> float32 \<Rightarrow> float32" where
  "f32_add x y =
     (if f32_is_nan x \<or> f32_is_nan y then f32_nan
      else if f32_is_inf x then (if f32_is_inf y \<and> x \<noteq> y then f32_nan else x)
      else if f32_is_inf y then y
      else
        (let e = min (f32_exponent x) (f32_exponent y);
             m = f32_signed x * 2 ^ nat (f32_exponent x - e) + f32_signed y * 2 ^ nat (f32_exponent y - e)
         in if m = 0 then f32_with_sign (f32_negative x \<and> f32_negative y) 0
            else f32_round (m < 0) \<bar>m\<bar> e False))"

definition f32_sub :: "float32 \<Rightarrow> float32 \<Rightarrow> float32" where
  "f32_sub x y = f32_add x (f32_neg y)"

definition f32_mul :: "float32 \<Rightarrow> float32 \<Rightarrow> float32" where
  "f32_mul x y =
     (let s = (f32_negative x \<noteq> f32_negative y) in
      if f32_is_nan x \<or> f32_is_nan y then f32_nan
      else if f32_is_inf x \<or> f32_is_inf y
           then (if f32_abs x = 0 \<or> f32_abs y = 0 then f32_nan else f32_with_sign s f32_inf)
      else f32_round s (f32_mantissa x * f32_mantissa y) (f32_exponent x + f32_exponent y) False)"

text \<open>The quotient of two non-negative integers, scaled by a power of two: at least 26 bits and whether there is more.\<close>

definition f32_quotient :: "bool \<Rightarrow> int \<Rightarrow> int \<Rightarrow> int \<Rightarrow> float32" where
  "f32_quotient s a b e =
     (let k = 26 + nat (bitlen b) in f32_round s (a * 2 ^ k div b) (e - int k) (a * 2 ^ k mod b \<noteq> 0))"

definition f32_div :: "float32 \<Rightarrow> float32 \<Rightarrow> float32" where
  "f32_div x y =
     (let s = (f32_negative x \<noteq> f32_negative y) in
      if f32_is_nan x \<or> f32_is_nan y then f32_nan
      else if f32_is_inf x then (if f32_is_inf y then f32_nan else f32_with_sign s f32_inf)
      else if f32_is_inf y then f32_with_sign s 0
      else if f32_abs y = 0 then (if f32_abs x = 0 then f32_nan else f32_with_sign s f32_inf)
      else f32_quotient s (f32_mantissa x) (f32_mantissa y) (f32_exponent x - f32_exponent y))"

text \<open>The integer square root, two bits at a time.\<close>

function isqrt :: "int \<Rightarrow> int" where
  "isqrt n =
     (if n \<le> 0 then 0
      else (let r = 2 * isqrt (n div 4) in if (r + 1) * (r + 1) \<le> n then r + 1 else r))"
  by auto

termination isqrt
  by (relation "measure nat") auto

declare isqrt.simps [simp del, code]

definition f32_sqrt :: "float32 \<Rightarrow> float32" where
  "f32_sqrt x =
     (if f32_is_nan x then f32_nan
      else if f32_abs x = 0 then x
      else if f32_negative x then f32_nan
      else if f32_is_inf x then x
      else
        (let e = f32_exponent x; m = (if even e then f32_mantissa x else 2 * f32_mantissa x);
             n = m * 2 ^ 54; r = isqrt n
         in f32_round False r (e div 2 - 27) (r * r \<noteq> n)))"

text \<open>\<open>std::fmod\<close>: the remainder of the division rounded towards zero, which is exact.\<close>

definition f32_fmod :: "float32 \<Rightarrow> float32 \<Rightarrow> float32" where
  "f32_fmod x y =
     (if f32_is_nan x \<or> f32_is_nan y \<or> f32_is_inf x \<or> f32_abs y = 0 then f32_nan
      else if f32_is_inf y then x
      else
        (let e = min (f32_exponent x) (f32_exponent y)
         in f32_round (f32_negative x)
              (f32_mantissa x * 2 ^ nat (f32_exponent x - e) mod (f32_mantissa y * 2 ^ nat (f32_exponent y - e)))
              e False))"

text \<open>Comparison: the bits of non-negative floats are in the order of their values.\<close>

definition f32_key :: "float32 \<Rightarrow> int" where
  "f32_key x = (if f32_negative x then - uint (f32_abs x) else uint x)"

definition f32_less :: "float32 \<Rightarrow> float32 \<Rightarrow> bool" where
  "f32_less x y \<longleftrightarrow> \<not> f32_is_nan x \<and> \<not> f32_is_nan y \<and> f32_key x < f32_key y"

definition f32_le :: "float32 \<Rightarrow> float32 \<Rightarrow> bool" where
  "f32_le x y \<longleftrightarrow> \<not> f32_is_nan x \<and> \<not> f32_is_nan y \<and> f32_key x \<le> f32_key y"

text \<open>Conversion of an unsigned integer, and a decimal literal \<open>n / d\<close>.\<close>

definition f32_of_int :: "int \<Rightarrow> float32" where
  "f32_of_int n = f32_round False n 0 False"

definition f32_lit :: "int \<Rightarrow> int \<Rightarrow> float32" where
  "f32_lit n d = f32_quotient False n d 0"

section \<open>Exact results\<close>

text \<open>The float with mantissa \<open>q\<close> (24 bits) and exponent \<open>t\<close>.\<close>

definition f32_pack :: "bool \<Rightarrow> int \<Rightarrow> int \<Rightarrow> float32" where
  "f32_pack s q t = f32_with_sign s (of_int ((t + 149) * 2 ^ 23 + q))"

lemma bitlen_24:
  assumes "2 ^ 23 \<le> q" "q < 2 ^ 24"
  shows "bitlen q = 24"
proof -
  have "0 < q" using assms(1) by simp
  then show ?thesis using assms
    by (simp add: bitlen_alt_def floor_log_eq_powr_iff powr_realpow del: power_numeral)
qed

lemma round_shift_multiple: "round_shift (q * 2 ^ k) k False = q"
  by (simp add: round_shift_def Let_def)

lemma uint_of_int_less: "0 \<le> x \<Longrightarrow> x < 2 ^ 32 \<Longrightarrow> uint (of_int x :: u32) = x"
  by (simp add: uint_word_of_int)

lemma pack_bound:
  assumes "(2 :: int) ^ 23 \<le> q" "q < 2 ^ 24" "-149 \<le> t" "t \<le> 104"
  shows "0 \<le> (t + 149) * 2 ^ 23 + q" "(t + 149) * 2 ^ 23 + q < 255 * 2 ^ 23"
  using assms by simp_all

lemma f32_round_shrink:
  assumes "2 ^ 23 \<le> q" "q < 2 ^ 24" "-149 \<le> t" "t \<le> 104" "t \<le> e" "q = m * 2 ^ nat (e - t)"
  shows "f32_round s m e False = f32_pack s q t"
proof -
  have q: "bitlen q = 24" "0 < q" using bitlen_24 [OF assms(1,2)] assms(1) by simp_all
  have m: "0 < m" using q(2) unfolding assms(6) by (simp add: zero_less_mult_iff)
  have "bitlen m + (e - t) = 24" using q(1) bitlen_pow2 [OF m, of "nat (e - t)"] assms(5,6) by simp
  then have t: "max (- 149) (e + bitlen m - 24) = t" using assms(3) by linarith
  show ?thesis using m pack_bound(2) [OF assms(1-4)] assms(5)
    unfolding f32_round_def Let_def t f32_pack_def assms(6) [symmetric] by simp
qed

lemma f32_round_grow:
  assumes "2 ^ 23 \<le> q" "q < 2 ^ 24" "-149 \<le> t" "t \<le> 104" "e \<le> t" "m = q * 2 ^ nat (t - e)"
  shows "f32_round s m e False = f32_pack s q t"
proof -
  have q: "bitlen q = 24" "0 < q" using bitlen_24 [OF assms(1,2)] assms(1) by simp_all
  have m: "0 < m" using q(2) unfolding assms(6) by simp
  have "bitlen m = 24 + (t - e)" using q(1) bitlen_pow2 [OF q(2), of "nat (t - e)"] assms(5,6) by simp
  then have t: "max (- 149) (e + bitlen m - 24) = t" using assms(3) by linarith
  have r: "(if t \<le> e then m * 2 ^ nat (e - t) else round_shift m (nat (t - e)) False) = q"
    using assms(5) by (auto simp: assms(6) round_shift_multiple)
  show ?thesis using m pack_bound(2) [OF assms(1-4)]
    unfolding f32_round_def Let_def t f32_pack_def r by simp
qed

lemma div_mod_offset:
  assumes "0 \<le> x" "x < m"
  shows "(x + m * c) div m = (c :: int)" "(x + m * c) mod m = x"
  using assms by (simp_all add: div_mult_self2 div_pos_pos_trivial mod_pos_pos_trivial)

lemma pack_fields:
  assumes "2 ^ 23 \<le> q" "q < 2 ^ 24" "-149 \<le> t" "t \<le> 104"
  shows "\<not> f32_negative (f32_pack False q t)" "f32_abs (f32_pack False q t) = f32_pack False q t"
    "f32_mantissa (f32_pack False q t) = q" "f32_exponent (f32_pack False q t) = t"
    "\<not> f32_is_nan (f32_pack False q t)" "\<not> f32_is_inf (f32_pack False q t)"
proof -
  note b = pack_bound [OF assms]
  have u: "uint (f32_pack False q t) = (t + 149) * 2 ^ 23 + q"
    unfolding f32_pack_def f32_with_sign_def if_False by (rule uint_of_int_less) (use b in simp_all)
  show n: "\<not> f32_negative (f32_pack False q t)"
    using b u by (simp add: f32_negative_def word_le_def)
  then show a: "f32_abs (f32_pack False q t) = f32_pack False q t" by (simp add: f32_abs_def)
  have d: "(t + 149) * 2 ^ 23 + q = (q - 2 ^ 23) + 2 ^ 23 * (t + 150)" by (simp add: algebra_simps)
  have q: "0 \<le> q - 2 ^ 23" "q - 2 ^ 23 < 2 ^ 23" using assms(1,2) by simp_all
  have e: "uint (f32_pack False q t) div 2 ^ 23 = t + 150" "uint (f32_pack False q t) mod 2 ^ 23 = q - 2 ^ 23"
    unfolding u d by (rule div_mod_offset [OF q])+
  have "\<not> uint (f32_pack False q t) < 2 ^ 23" using assms(1,3) unfolding u by (simp add: algebra_simps)
  then show "f32_mantissa (f32_pack False q t) = q" unfolding f32_mantissa_def a Let_def by (simp only: e if_False)
  have "t + 150 \<noteq> 0" using assms(3) by simp
  then show "f32_exponent (f32_pack False q t) = t" unfolding f32_exponent_def a Let_def by (simp only: e if_False)
  have "uint (f32_pack False q t) < uint f32_inf" using b(2) u by (simp add: f32_inf_def)
  then show "\<not> f32_is_nan (f32_pack False q t)" "\<not> f32_is_inf (f32_pack False q t)"
    by (auto simp: f32_is_nan_def f32_is_inf_def a word_less_def)
qed

lemma pack_value:
  assumes "2 ^ 23 \<le> q" "q < 2 ^ 24" "-149 \<le> t" "t \<le> 104"
  shows "f32_value (f32_pack False q t) = of_int q * 2 powi t"
  by (simp add: f32_value_def f32_signed_def pack_fields [OF assms])

text \<open>Every integer below \<open>2 ^ 24\<close> has a 24-bit mantissa.\<close>

lemma normalise_24:
  assumes "0 < (k :: int)" "k < 2 ^ 24"
  obtains n where "n \<le> 23" "2 ^ 23 \<le> k * 2 ^ n" "k * 2 ^ n < 2 ^ 24"
proof -
  let ?b = "nat (bitlen k)"
  have "bitlen k \<noteq> 0" using assms(1) by (simp add: bitlen_eq_zero_iff)
  then have b1: "1 \<le> ?b" using bitlen_nonneg [of k] by linarith
  have p: "2 ^ (?b - 1) \<le> k" "k < 2 ^ ?b"
    using bitlen_bounds [OF assms(1)] by (simp_all only: nat_diff_distrib' [OF bitlen_nonneg zero_le_one] nat_one_as_int)
  have "(2 :: int) ^ (?b - 1) < 2 ^ 24" using p(1) assms(2) by linarith
  then have b2: "?b \<le> 24" using power_less_imp_less_exp [of "2 :: int" "?b - 1" 24] by simp
  have "(2 :: int) ^ (?b - 1) * 2 ^ (24 - ?b) = 2 ^ 23" "(2 :: int) ^ ?b * 2 ^ (24 - ?b) = 2 ^ 24"
    using b1 b2 by (simp_all flip: power_add)
  moreover have "2 ^ (?b - 1) * 2 ^ (24 - ?b) \<le> k * 2 ^ (24 - ?b)" using p(1) by (intro mult_right_mono) simp_all
  moreover have "k * 2 ^ (24 - ?b) < 2 ^ ?b * 2 ^ (24 - ?b)" using p(2) by (intro mult_strict_right_mono) simp_all
  ultimately show ?thesis using that [of "24 - ?b"] b1 by linarith
qed

end
