(* ===== verification/Engine_World.thy ===== *)
theory Engine_World
  imports Float32
begin

text \<open>
  \<open>engine/core/Math.hpp\<close>, \<open>World.hpp\<close> and \<open>World.cpp\<close>: the arithmetic of the simulation, the arrays of
  its entities (one list per attribute) and the double-buffered world with its seeded start.
  Vectors are lists; their sizes, \<open>std::size_t\<close>, are natural numbers.
\<close>

section \<open>Math.hpp\<close>

record Vec3 =
  vec_x :: float32
  vec_y :: float32
  vec_z :: float32

definition vec_zero :: Vec3 where
  "vec_zero = \<lparr>vec_x = 0, vec_y = 0, vec_z = 0\<rparr>"

definition vec_add :: "Vec3 \<Rightarrow> Vec3 \<Rightarrow> Vec3" where
  "vec_add a b = \<lparr>vec_x = f32_add (vec_x a) (vec_x b), vec_y = f32_add (vec_y a) (vec_y b),
                  vec_z = f32_add (vec_z a) (vec_z b)\<rparr>"

definition vec_sub :: "Vec3 \<Rightarrow> Vec3 \<Rightarrow> Vec3" where
  "vec_sub a b = \<lparr>vec_x = f32_sub (vec_x a) (vec_x b), vec_y = f32_sub (vec_y a) (vec_y b),
                  vec_z = f32_sub (vec_z a) (vec_z b)\<rparr>"

definition vec_scale :: "Vec3 \<Rightarrow> float32 \<Rightarrow> Vec3" where
  "vec_scale v s = \<lparr>vec_x = f32_mul (vec_x v) s, vec_y = f32_mul (vec_y v) s, vec_z = f32_mul (vec_z v) s\<rparr>"

definition vec_dot :: "Vec3 \<Rightarrow> Vec3 \<Rightarrow> float32" where
  "vec_dot a b = f32_add (f32_add (f32_mul (vec_x a) (vec_x b)) (f32_mul (vec_y a) (vec_y b)))
                         (f32_mul (vec_z a) (vec_z b))"

definition vec_length_squared :: "Vec3 \<Rightarrow> float32" where
  "vec_length_squared v = vec_dot v v"

definition vec_length :: "Vec3 \<Rightarrow> float32" where
  "vec_length v = f32_sqrt (vec_length_squared v)"

definition normalized_or_zero :: "Vec3 \<Rightarrow> Vec3" where
  "normalized_or_zero v =
     (let len = vec_length v in
      if f32_le len (f32_lit 1 1000000) then vec_zero
      else (let inverse = f32_div (f32_lit 1 1) len in vec_scale v inverse))"

definition clampf :: "float32 \<Rightarrow> float32 \<Rightarrow> float32 \<Rightarrow> float32" where
  "clampf v low high = (if f32_less v low then low else (if f32_less high v then high else v))"

definition wrapf :: "float32 \<Rightarrow> float32 \<Rightarrow> float32" where
  "wrapf v limit =
     (let wrapped = f32_fmod v limit in if f32_less wrapped 0 then f32_add wrapped limit else wrapped)"

definition mix64 :: "u64 \<Rightarrow> u64" where
  "mix64 x =
     (let x = x + 0x9E3779B97F4A7C15;
          x = (x XOR drop_bit 30 x) * 0xBF58476D1CE4E5B9;
          x = (x XOR drop_bit 27 x) * 0x94D049BB133111EB
      in x XOR drop_bit 31 x)"

definition random_unit :: "u64 \<Rightarrow> u64 \<Rightarrow> u64 \<Rightarrow> float32" where
  "random_unit seed index stream =
     (let bits = mix64 (seed XOR mix64 (index XOR (stream * 0x2545F4914F6CDD1D)))
      in f32_mul (f32_of_int (uint (drop_bit 40 bits))) (f32_div (f32_lit 1 1) (f32_lit 16777216 1)))"

definition random_range :: "u64 \<Rightarrow> u64 \<Rightarrow> float32 \<Rightarrow> float32 \<Rightarrow> u64 \<Rightarrow> float32" where
  "random_range seed index low high stream =
     f32_add low (f32_mul (f32_sub high low) (random_unit seed index stream))"

section \<open>World.hpp\<close>

datatype SimLod = LodFull | LodReduced | LodSimple | LodDistant

record VehicleArrays =
  va_position :: "Vec3 list"
  va_velocity :: "Vec3 list"
  va_heading :: "float32 list"
  va_steer :: "float32 list"
  va_throttle :: "float32 list"
  va_engine_rpm :: "float32 list"
  va_wheel_load :: "float32 list"
  va_mass :: "float32 list"
  va_lod :: "SimLod list"
  va_lane :: "u32 list"

record NpcArrays =
  na_position :: "Vec3 list"
  na_velocity :: "Vec3 list"
  na_target :: "Vec3 list"
  na_speed :: "float32 list"
  na_behaviour :: "u32 list"
  na_lod :: "SimLod list"
  na_nearest_distance :: "float32 list"
  na_nearest_index :: "u32 list"

record AircraftArrays =
  aa_position :: "Vec3 list"
  aa_velocity :: "Vec3 list"
  aa_heading :: "float32 list"
  aa_pitch :: "float32 list"
  aa_throttle :: "float32 list"
  aa_altitude :: "float32 list"
  aa_air_density :: "float32 list"
  aa_lift :: "float32 list"
  aa_drag :: "float32 list"
  aa_thrust :: "float32 list"
  aa_mass :: "float32 list"

record WorldState =
  ws_vehicles :: VehicleArrays
  ws_npcs :: NpcArrays
  ws_aircraft :: AircraftArrays
  ws_player_position :: Vec3

definition vehicles_size :: "VehicleArrays \<Rightarrow> nat" where
  "vehicles_size a = length (va_position a)"

definition npcs_size :: "NpcArrays \<Rightarrow> nat" where
  "npcs_size a = length (na_position a)"

definition aircraft_size :: "AircraftArrays \<Rightarrow> nat" where
  "aircraft_size a = length (aa_position a)"

definition kWorldSize :: float32 where
  "kWorldSize = f32_lit 5000 1"

definition kFixedTimestep :: float32 where
  "kFixedTimestep = f32_div (f32_lit 1 1) (f32_lit 60 1)"

section \<open>World.cpp\<close>

text \<open>\<open>resize\<close> assigns every array; the arrays had no elements worth keeping.\<close>

definition vehicles_resized :: "nat \<Rightarrow> VehicleArrays" where
  "vehicles_resized n =
     \<lparr>va_position = replicate n vec_zero, va_velocity = replicate n vec_zero,
      va_heading = replicate n 0, va_steer = replicate n 0, va_throttle = replicate n 0,
      va_engine_rpm = replicate n 0, va_wheel_load = replicate n 0,
      va_mass = replicate n (f32_lit 1500 1), va_lod = replicate n LodFull,
      va_lane = replicate n 0\<rparr>"

definition npcs_resized :: "nat \<Rightarrow> NpcArrays" where
  "npcs_resized n =
     \<lparr>na_position = replicate n vec_zero, na_velocity = replicate n vec_zero,
      na_target = replicate n vec_zero, na_speed = replicate n 0,
      na_behaviour = replicate n 0, na_lod = replicate n LodFull,
      na_nearest_distance = replicate n 0, na_nearest_index = replicate n 0\<rparr>"

definition aircraft_resized :: "nat \<Rightarrow> AircraftArrays" where
  "aircraft_resized n =
     \<lparr>aa_position = replicate n vec_zero, aa_velocity = replicate n vec_zero,
      aa_heading = replicate n 0, aa_pitch = replicate n 0, aa_throttle = replicate n 0,
      aa_altitude = replicate n 0, aa_air_density = replicate n (f32_lit 1225 1000),
      aa_lift = replicate n 0, aa_drag = replicate n 0, aa_thrust = replicate n 0,
      aa_mass = replicate n (f32_lit 60000 1)\<rparr>"

definition world_resized :: "nat \<Rightarrow> nat \<Rightarrow> nat \<Rightarrow> WorldState" where
  "world_resized vehicle_count npc_count aircraft_count =
     \<lparr>ws_vehicles = vehicles_resized vehicle_count, ws_npcs = npcs_resized npc_count,
      ws_aircraft = aircraft_resized aircraft_count, ws_player_position = vec_zero\<rparr>"

text \<open>\<open>seed_initial_state\<close>: the three loops, one iteration each.\<close>

definition kTwoPi :: float32 where
  "kTwoPi = f32_lit 62831853 10000000"

definition seed_vehicle :: "u64 \<Rightarrow> nat \<Rightarrow> VehicleArrays \<Rightarrow> VehicleArrays" where
  "seed_vehicle seed i a =
     (let index = of_nat i;
          r = random_range seed index
      in a\<lparr>va_position := (va_position a)[i := \<lparr>vec_x = r 0 kWorldSize 1, vec_y = 0, vec_z = r 0 kWorldSize 2\<rparr>],
           va_heading := (va_heading a)[i := r 0 kTwoPi 3],
           va_throttle := (va_throttle a)[i := r (f32_lit 2 10) (f32_lit 1 1) 4],
           va_mass := (va_mass a)[i := r (f32_lit 900 1) (f32_lit 2600 1) 5],
           va_lane := (va_lane a)[i := ucast (index mod 4)],
           va_engine_rpm := (va_engine_rpm a)[i := f32_lit 800 1]\<rparr>)"

definition seed_npc :: "u64 \<Rightarrow> nat \<Rightarrow> NpcArrays \<Rightarrow> NpcArrays" where
  "seed_npc seed i a =
     (let index = of_nat i;
          r = random_range seed index
      in a\<lparr>na_position := (na_position a)[i := \<lparr>vec_x = r 0 kWorldSize 11, vec_y = 0, vec_z = r 0 kWorldSize 12\<rparr>],
           na_target := (na_target a)[i := \<lparr>vec_x = r 0 kWorldSize 13, vec_y = 0, vec_z = r 0 kWorldSize 14\<rparr>],
           na_speed := (na_speed a)[i := r (f32_lit 8 10) (f32_lit 22 10) 15],
           na_behaviour := (na_behaviour a)[i := ucast (index mod 3)]\<rparr>)"

definition seed_aircraft :: "u64 \<Rightarrow> nat \<Rightarrow> AircraftArrays \<Rightarrow> AircraftArrays" where
  "seed_aircraft seed i a =
     (let index = of_nat i;
          r = random_range seed index;
          position = \<lparr>vec_x = r 0 kWorldSize 21, vec_y = r (f32_lit 300 1) (f32_lit 9000 1) 22,
                      vec_z = r 0 kWorldSize 23\<rparr>
      in a\<lparr>aa_position := (aa_position a)[i := position],
           aa_altitude := (aa_altitude a)[i := vec_y position],
           aa_heading := (aa_heading a)[i := r 0 kTwoPi 24],
           aa_throttle := (aa_throttle a)[i := r (f32_lit 5 10) (f32_lit 1 1) 25],
           aa_mass := (aa_mass a)[i := r (f32_lit 1200 1) (f32_lit 250000 1) 26],
           aa_velocity := (aa_velocity a)[i := \<lparr>vec_x = r (f32_lit 60 1) (f32_lit 240 1) 27, vec_y = 0, vec_z = 0\<rparr>]\<rparr>)"

definition seed_initial_state :: "u64 \<Rightarrow> WorldState \<Rightarrow> WorldState" where
  "seed_initial_state seed st =
     st\<lparr>ws_vehicles := fold (seed_vehicle seed) [0..<vehicles_size (ws_vehicles st)] (ws_vehicles st),
        ws_npcs := fold (seed_npc seed) [0..<npcs_size (ws_npcs st)] (ws_npcs st),
        ws_aircraft := fold (seed_aircraft seed) [0..<aircraft_size (ws_aircraft st)] (ws_aircraft st),
        ws_player_position := \<lparr>vec_x = f32_mul kWorldSize (f32_lit 5 10), vec_y = 0,
                               vec_z = f32_mul kWorldSize (f32_lit 5 10)\<rparr>\<rparr>"

text \<open>
  The two buffers; \<open>w_swapped\<close> says which of them \<open>current_\<close> and \<open>next_\<close> point to. The constructor
  seeds the first one and copies it to the second.
\<close>

record World =
  w_buffer0 :: WorldState
  w_buffer1 :: WorldState
  w_swapped :: bool
  w_seed :: u64
  w_tick :: u64

definition world_new :: "nat \<Rightarrow> nat \<Rightarrow> nat \<Rightarrow> u64 \<Rightarrow> World" where
  "world_new vehicle_count npc_count aircraft_count seed =
     (let state = seed_initial_state seed (world_resized vehicle_count npc_count aircraft_count)
      in \<lparr>w_buffer0 = state, w_buffer1 = state, w_swapped = False, w_seed = seed, w_tick = 0\<rparr>)"

definition w_current :: "World \<Rightarrow> WorldState" where
  "w_current w = (if w_swapped w then w_buffer1 w else w_buffer0 w)"

definition w_next :: "World \<Rightarrow> WorldState" where
  "w_next w = (if w_swapped w then w_buffer0 w else w_buffer1 w)"

definition set_next :: "WorldState \<Rightarrow> World \<Rightarrow> World" where
  "set_next st w = (if w_swapped w then w\<lparr>w_buffer0 := st\<rparr> else w\<lparr>w_buffer1 := st\<rparr>)"

definition swap_buffers :: "World \<Rightarrow> World" where
  "swap_buffers w = w\<lparr>w_swapped := \<not> w_swapped w\<rparr>"

definition advance_tick :: "World \<Rightarrow> World" where
  "advance_tick w = w\<lparr>w_tick := w_tick w + 1\<rparr>"

section \<open>The random numbers\<close>

lemma power_of_two_24: "f32_div (f32_lit 1 1) (f32_lit 16777216 1) = f32_pack False (2 ^ 23) (-47)"
  by code_simp

lemma scaled_24:
  assumes "0 \<le> k" "k < 2 ^ 24"
  shows "f32_value (f32_mul (f32_of_int k) (f32_div (f32_lit 1 1) (f32_lit 16777216 1))) = of_int k / 2 ^ 24"
proof (cases "k = 0")
  case True
  have "f32_mul (f32_of_int 0) (f32_div (f32_lit 1 1) (f32_lit 16777216 1)) = 0" by code_simp
  moreover have "f32_signed 0 = 0" by code_simp
  ultimately show ?thesis using True by (simp add: f32_value_def)
next
  case False
  then have k: "0 < k" using assms(1) by simp
  obtain n where n: "n \<le> 23" "2 ^ 23 \<le> k * 2 ^ n" "k * 2 ^ n < 2 ^ 24" by (rule normalise_24 [OF k assms(2)])
  let ?q = "k * 2 ^ n"
  have of_int: "f32_of_int k = f32_pack False ?q (- int n)"
    unfolding f32_of_int_def by (rule f32_round_shrink) (use n in simp_all)
  have t: "-149 \<le> - int n" "- int n \<le> 104" "-149 \<le> - int n - 24" "- int n - 24 \<le> 104" using n(1) by simp_all
  note f = pack_fields [OF n(2,3) t(1,2)]
  have h: "(2 :: int) ^ 23 \<le> 2 ^ 23" "(2 :: int) ^ 23 < 2 ^ 24" "- 149 \<le> (-47 :: int)" "(-47 :: int) \<le> 104" by simp_all
  note g = pack_fields [OF h]
  have "f32_mul (f32_of_int k) (f32_div (f32_lit 1 1) (f32_lit 16777216 1)) =
      f32_round False (?q * 2 ^ 23) (- int n + - 47) False"
    unfolding f32_mul_def Let_def of_int power_of_two_24 by (simp only: f g) simp
  also have "\<dots> = f32_pack False ?q (- int n - 24)"
    by (rule f32_round_grow) (use n t in simp_all)
  finally have "f32_value (f32_mul (f32_of_int k) (f32_div (f32_lit 1 1) (f32_lit 16777216 1))) =
      of_int k * (2 ^ n * 2 powi (- int n - 24))"
    using pack_value [OF n(2,3) t(3,4)] by simp
  also have "(2 :: rat) ^ n * 2 powi (- int n - 24) = 1 / 2 ^ 24"
  proof -
    have "- int n - 24 = - int (n + 24)" by simp
    then show ?thesis by (simp only: power_int_minus power_int_of_nat) (simp add: power_add field_simps)
  qed
  finally show ?thesis by simp
qed

text \<open>
  \<open>random_unit\<close> is exact: the upper 24 bits of the mixed seed divided by \<open>2 ^ 24\<close>, without any
  rounding, hence in \<open>[0, 1)\<close>.
\<close>

theorem random_unit_exact:
  "let k = mix64 (seed XOR mix64 (index XOR (stream * 0x2545F4914F6CDD1D))) div 2 ^ 40
   in f32_value (random_unit seed index stream) = of_nat (unat k) / 2 ^ 24 \<and>
      0 \<le> f32_value (random_unit seed index stream) \<and> f32_value (random_unit seed index stream) < 1"
proof -
  let ?k = "mix64 (seed XOR mix64 (index XOR (stream * 0x2545F4914F6CDD1D))) div 2 ^ 40"
  have d: "drop_bit 40 w = w div 2 ^ 40" for w :: u64 by (simp add: drop_bit_eq_div)
  have "unat w < 2 ^ 64" for w :: u64 using unsigned_less [of w] by simp
  then have "unat w div 2 ^ 40 < 2 ^ 24" for w :: u64 by (simp add: less_mult_imp_div_less)
  then have "unat ?k < 2 ^ 24" by (simp add: unat_div)
  moreover have "uint w < 2 ^ 24" if "unat w < 2 ^ 24" for w :: u64
  proof -
    have "int (unat w) < int (2 ^ 24)" using that by (simp only: of_nat_less_iff)
    then show ?thesis by simp
  qed
  ultimately have k: "0 \<le> uint ?k" "uint ?k < 2 ^ 24" by simp_all
  have "f32_value (random_unit seed index stream) = of_int (uint ?k) / 2 ^ 24"
    unfolding random_unit_def Let_def d by (rule scaled_24 [OF k])
  moreover have "(of_int (uint ?k) :: rat) < of_int (2 ^ 24)" unfolding of_int_less_iff by (rule k)
  moreover have "(0 :: rat) \<le> of_int (uint ?k)" by (simp only: of_int_0_le_iff k(1))
  ultimately show ?thesis unfolding Let_def by (simp add: divide_less_eq)
qed

text \<open>
  \<open>wrapf\<close> is documented to wrap into \<open>[0, limit)\<close>. The smallest negative float is wrapped to the limit
  itself, since adding the limit rounds.
\<close>

lemma wrapf_reaches_limit: "wrapf 0x80000001 kWorldSize = kWorldSize"
  by code_simp

end
