(* ===== verification/Engine_Systems.thy ===== *)
theory Engine_Systems
  imports Engine_World
begin

text \<open>
  \<open>engine/core/Systems.hpp\<close> and \<open>Systems.cpp\<close>: the systems of the simulation. Each one is the body of its loop
  for one entity (\<open>..._at\<close>) and the loop over a range. \<open>inn\<close> is the previous frame, \<open>out\<close> the next.
\<close>

section \<open>Helpers\<close>

text \<open>What the C library may round as it likes.\<close>

record libm =
  l_sin :: "float32 \<Rightarrow> float32"
  l_cos :: "float32 \<Rightarrow> float32"
  l_pow :: "float32 \<Rightarrow> float32 \<Rightarrow> float32"

definition kBatchSize :: nat where
  "kBatchSize = 32"

definition batch_count_for :: "nat \<Rightarrow> nat" where
  "batch_count_for entity_count = (entity_count + kBatchSize - 1) div kBatchSize"

definition lod_for_distance :: "float32 \<Rightarrow> SimLod" where
  "lod_for_distance distance =
     (if f32_less distance (f32_lit 50 1) then LodFull
      else if f32_less distance (f32_lit 250 1) then LodReduced
      else if f32_less distance (f32_lit 1000 1) then LodSimple
      else LodDistant)"

fun substeps_for :: "SimLod \<Rightarrow> nat" where
  "substeps_for LodFull = 4"
| "substeps_for LodReduced = 2"
| "substeps_for LodSimple = 1"
| "substeps_for LodDistant = 1"

definition kPerceptionWindow :: nat where
  "kPerceptionWindow = 24"

section \<open>Level of detail\<close>

definition vehicle_lod_at :: "WorldState \<Rightarrow> nat \<Rightarrow> VehicleArrays \<Rightarrow> VehicleArrays" where
  "vehicle_lod_at inn i out =
     (let offset = vec_sub (va_position (ws_vehicles inn) ! i) (ws_player_position inn);
          distance = vec_length offset
      in out\<lparr>va_lod := (va_lod out)[i := lod_for_distance distance]\<rparr>)"

definition npc_lod_at :: "WorldState \<Rightarrow> nat \<Rightarrow> NpcArrays \<Rightarrow> NpcArrays" where
  "npc_lod_at inn i out =
     (let offset = vec_sub (na_position (ws_npcs inn) ! i) (ws_player_position inn);
          distance = vec_length offset
      in out\<lparr>na_lod := (na_lod out)[i := lod_for_distance distance]\<rparr>)"

section \<open>NPCs\<close>

text \<open>One neighbour of the perception window: the nearest squared distance and index so far.\<close>

definition perceive :: "NpcArrays \<Rightarrow> nat \<Rightarrow> nat \<Rightarrow> float32 \<times> u32 \<Rightarrow> float32 \<times> u32" where
  "perceive npcs i k best =
     (let j = (i + k) mod npcs_size npcs;
          offset = vec_sub (na_position npcs ! j) (na_position npcs ! i);
          distance_sq = vec_length_squared offset
      in if f32_less distance_sq (fst best) then (distance_sq, of_nat j) else best)"

definition npc_perception_at :: "WorldState \<Rightarrow> nat \<Rightarrow> NpcArrays \<Rightarrow> NpcArrays" where
  "npc_perception_at inn i out =
     (case fold (perceive (ws_npcs inn) i) [1..<kPerceptionWindow + 1] (f32_lit (10 ^ 30) 1, of_nat i) of
        (nearest_sq, nearest_index) \<Rightarrow>
          out\<lparr>na_nearest_distance := (na_nearest_distance out)[i := f32_sqrt nearest_sq],
              na_nearest_index := (na_nearest_index out)[i := nearest_index]\<rparr>)"

definition npc_decision_at :: "WorldState \<Rightarrow> nat \<Rightarrow> NpcArrays \<Rightarrow> NpcArrays" where
  "npc_decision_at inn i out =
     (let npcs = ws_npcs inn;
          nearest = na_nearest_distance out ! i;
          to_target = vec_sub (na_target npcs ! i) (na_position npcs ! i);
          heading = normalized_or_zero to_target;
          heading =
            (if f32_less nearest (f32_lit 3 1)
             then (let other = na_nearest_index out ! i;
                       away = normalized_or_zero (vec_sub (na_position npcs ! i) (na_position npcs ! unat other))
                   in normalized_or_zero (vec_add (vec_scale heading (f32_lit 4 10)) (vec_scale away (f32_lit 6 10))))
             else heading);
          speed = na_speed npcs ! i;
          speed = (if na_behaviour npcs ! i = 1 then f32_mul speed (f32_lit 135 100)
                   else if na_behaviour npcs ! i = 2 then f32_mul speed (f32_lit 7 10)
                   else speed);
          distance = vec_length to_target;
          speed = (if f32_less distance (f32_lit 5 1)
                   then f32_mul speed (clampf (f32_mul distance (f32_lit 2 10)) (f32_lit 1 10) (f32_lit 1 1))
                   else speed)
      in out\<lparr>na_velocity := (na_velocity out)[i := vec_scale heading speed],
             na_speed := (na_speed out)[i := na_speed npcs ! i]\<rparr>)"

definition npc_movement_at :: "WorldState \<Rightarrow> nat \<Rightarrow> NpcArrays \<Rightarrow> NpcArrays" where
  "npc_movement_at inn i out =
     (let npcs = ws_npcs inn;
          velocity = na_velocity out ! i;
          position = vec_add (na_position npcs ! i) (vec_scale velocity kFixedTimestep);
          position = position\<lparr>vec_x := wrapf (vec_x position) kWorldSize, vec_z := wrapf (vec_z position) kWorldSize\<rparr>;
          target = na_target npcs ! i;
          distance = vec_length (vec_sub target position);
          target =
            (if f32_less distance (f32_lit 2 1)
             then \<lparr>vec_x = wrapf (f32_add (f32_mul (vec_z target) (f32_lit 137 100)) (f32_lit 137 1)) kWorldSize,
                   vec_y = 0,
                   vec_z = wrapf (f32_add (f32_mul (vec_x target) (f32_lit 119 100)) (f32_lit 71 1)) kWorldSize\<rparr>
             else target)
      in out\<lparr>na_position := (na_position out)[i := position],
             na_target := (na_target out)[i := target],
             na_behaviour := (na_behaviour out)[i := na_behaviour npcs ! i]\<rparr>)"

section \<open>Vehicles\<close>

text \<open>The locals of the sub-step loop, and the wheel load it stores in every sub-step.\<close>

record vehicle_locals =
  vl_position :: Vec3
  vl_velocity :: Vec3
  vl_heading :: float32
  vl_rpm :: float32
  vl_wheel_load :: float32

definition vehicle_substep :: "libm \<Rightarrow> float32 \<Rightarrow> float32 \<Rightarrow> float32 \<Rightarrow> float32 \<Rightarrow> vehicle_locals \<Rightarrow> vehicle_locals" where
  "vehicle_substep lm steer mass throttle dt v =
     (let one = f32_lit 1 1;
          g = f32_lit 981 100;
          speed = vec_length (vl_velocity v);
          normalized_rpm = clampf (f32_div (vl_rpm v) (f32_lit 6500 1)) 0 (f32_lit 12 10);
          excess = f32_sub normalized_rpm (f32_lit 55 100);
          torque = f32_mul (f32_mul (f32_lit 320 1) throttle)
                     (f32_sub one (f32_mul (f32_mul excess excess) (f32_lit 22 10)));
          wheel_force = f32_div (f32_mul (clampf torque 0 (f32_lit 400 1)) (f32_lit 34 10)) (f32_lit 32 100);
          slip = clampf (f32_div wheel_force (f32_mul mass g)) (f32_neg one) one;
          grip_force = f32_mul (f32_mul (f32_mul slip mass) g) (f32_lit 95 100);
          drag = f32_mul (f32_mul (f32_mul (f32_mul (f32_mul (f32_lit 5 10) (f32_lit 1225 1000)) (f32_lit 31 100))
                   (f32_lit 22 10)) speed) speed;
          rolling = f32_mul (f32_mul (f32_lit 15 1000) mass) g;
          net_force = f32_sub (f32_sub grip_force drag) rolling;
          acceleration = f32_div net_force mass;
          heading = f32_add (vl_heading v) (f32_mul (f32_mul steer dt) (f32_lit 6 10));
          heading = wrapf heading kTwoPi;
          forward = \<lparr>vec_x = l_cos lm heading, vec_y = 0, vec_z = l_sin lm heading\<rparr>;
          velocity = vec_add (vl_velocity v) (vec_scale forward (f32_mul acceleration dt));
          velocity = vec_scale velocity (f32_lit 999 1000);
          position = vec_add (vl_position v) (vec_scale velocity dt);
          wheel_load = f32_add (f32_mul (f32_mul mass g) (f32_lit 25 100))
                         (f32_mul (f32_mul acceleration mass) (f32_lit 8 100));
          rpm = clampf (f32_mul (f32_div (f32_mul (f32_abs (vec_length velocity)) (f32_lit 34 10)) (f32_lit 32 100))
                   (f32_lit 9549 1000)) (f32_lit 800 1) (f32_lit 7200 1)
      in \<lparr>vl_position = position, vl_velocity = velocity, vl_heading = heading, vl_rpm = rpm,
          vl_wheel_load = wheel_load\<rparr>)"

definition vehicle_physics_at :: "libm \<Rightarrow> WorldState \<Rightarrow> nat \<Rightarrow> VehicleArrays \<Rightarrow> VehicleArrays" where
  "vehicle_physics_at lm inn i out =
     (let vehicles = ws_vehicles inn;
          steps = substeps_for (va_lod out ! i);
          mass = va_mass vehicles ! i;
          throttle = va_throttle vehicles ! i;
          dt = f32_div kFixedTimestep (f32_of_int (int steps));
          v = (vehicle_substep lm (va_steer vehicles ! i) mass throttle dt ^^ steps)
                \<lparr>vl_position = va_position vehicles ! i, vl_velocity = va_velocity vehicles ! i,
                 vl_heading = va_heading vehicles ! i, vl_rpm = va_engine_rpm vehicles ! i,
                 vl_wheel_load = va_wheel_load out ! i\<rparr>;
          position = vl_position v;
          position = position\<lparr>vec_x := wrapf (vec_x position) kWorldSize, vec_z := wrapf (vec_z position) kWorldSize\<rparr>;
          steer = clampf (f32_mul (l_sin lm (f32_add (f32_mul (vec_x position) (f32_lit 1 100))
                                                     (f32_of_int (uint (va_lane vehicles ! i))))) (f32_lit 25 100))
                    (f32_neg (f32_lit 5 10)) (f32_lit 5 10)
      in out\<lparr>va_wheel_load := (va_wheel_load out)[i := vl_wheel_load v],
             va_position := (va_position out)[i := position],
             va_velocity := (va_velocity out)[i := vl_velocity v],
             va_heading := (va_heading out)[i := vl_heading v],
             va_engine_rpm := (va_engine_rpm out)[i := vl_rpm v],
             va_throttle := (va_throttle out)[i := throttle],
             va_mass := (va_mass out)[i := mass],
             va_lane := (va_lane out)[i := va_lane vehicles ! i],
             va_steer := (va_steer out)[i := steer]\<rparr>)"

section \<open>Aircraft\<close>

definition aircraft_atmosphere_at :: "libm \<Rightarrow> WorldState \<Rightarrow> nat \<Rightarrow> AircraftArrays \<Rightarrow> AircraftArrays" where
  "aircraft_atmosphere_at lm inn i out =
     (let altitude = vec_y (aa_position (ws_aircraft inn) ! i);
          temperature = f32_sub (f32_lit 28815 100) (f32_mul (f32_lit 65 10000) altitude);
          ratio = clampf (f32_div temperature (f32_lit 28815 100)) (f32_lit 1 10) (f32_lit 15 10);
          density = f32_mul (f32_lit 1225 1000) (l_pow lm ratio (f32_lit 42561 10000))
      in out\<lparr>aa_air_density := (aa_air_density out)[i := density],
             aa_altitude := (aa_altitude out)[i := altitude]\<rparr>)"

definition aircraft_aerodynamics_at :: "WorldState \<Rightarrow> nat \<Rightarrow> AircraftArrays \<Rightarrow> AircraftArrays" where
  "aircraft_aerodynamics_at inn i out =
     (let aircraft = ws_aircraft inn;
          density = aa_air_density out ! i;
          speed = vec_length (aa_velocity aircraft ! i);
          wing_area = f32_add (f32_mul (f32_lit 6 10000) (aa_mass aircraft ! i)) (f32_lit 16 1);
          angle = aa_pitch aircraft ! i;
          lift_coeff = clampf (f32_add (f32_lit 2 10) (f32_mul (f32_lit 57 10) angle))
                         (f32_neg (f32_lit 16 10)) (f32_lit 16 10);
          drag_coeff = f32_add (f32_lit 21 1000)
                         (f32_div (f32_mul lift_coeff lift_coeff)
                            (f32_mul (f32_mul (f32_lit 31416 10000) (f32_lit 8 1)) (f32_lit 8 10)));
          dynamic_pressure = f32_mul (f32_mul (f32_mul (f32_lit 5 10) density) speed) speed
      in out\<lparr>aa_lift := (aa_lift out)[i := f32_mul (f32_mul dynamic_pressure wing_area) lift_coeff],
             aa_drag := (aa_drag out)[i := f32_mul (f32_mul dynamic_pressure wing_area) drag_coeff]\<rparr>)"

definition aircraft_propulsion_at :: "WorldState \<Rightarrow> nat \<Rightarrow> AircraftArrays \<Rightarrow> AircraftArrays" where
  "aircraft_propulsion_at inn i out =
     (let aircraft = ws_aircraft inn;
          density = aa_air_density out ! i;
          throttle = aa_throttle aircraft ! i;
          sea_level_thrust = f32_mul (aa_mass aircraft ! i) (f32_lit 30 100)
      in out\<lparr>aa_thrust := (aa_thrust out)[i := f32_mul (f32_mul sea_level_thrust throttle) (f32_div density (f32_lit 1225 1000))],
             aa_throttle := (aa_throttle out)[i := throttle]\<rparr>)"

definition aircraft_integrate_at :: "libm \<Rightarrow> WorldState \<Rightarrow> nat \<Rightarrow> AircraftArrays \<Rightarrow> AircraftArrays" where
  "aircraft_integrate_at lm inn i out =
     (let aircraft = ws_aircraft inn;
          mass = aa_mass aircraft ! i;
          lift = aa_lift out ! i;
          drag = aa_drag out ! i;
          thrust = aa_thrust out ! i;
          heading = aa_heading aircraft ! i;
          velocity = aa_velocity aircraft ! i;
          position = aa_position aircraft ! i;
          forward = \<lparr>vec_x = l_cos lm heading, vec_y = 0, vec_z = l_sin lm heading\<rparr>;
          along = f32_div (f32_sub thrust drag) mass;
          vertical = f32_div (f32_sub lift (f32_mul mass (f32_lit 981 100))) mass;
          velocity = vec_add velocity (vec_scale forward (f32_mul along kFixedTimestep));
          velocity = velocity\<lparr>vec_y := f32_add (vec_y velocity) (f32_mul vertical kFixedTimestep)\<rparr>;
          velocity = velocity\<lparr>vec_y := clampf (vec_y velocity) (f32_neg (f32_lit 60 1)) (f32_lit 60 1)\<rparr>;
          position = vec_add position (vec_scale velocity kFixedTimestep);
          position = position\<lparr>vec_y := clampf (vec_y position) (f32_lit 150 1) (f32_lit 12000 1)\<rparr>;
          position = position\<lparr>vec_x := wrapf (vec_x position) kWorldSize\<rparr>;
          position = position\<lparr>vec_z := wrapf (vec_z position) kWorldSize\<rparr>;
          heading = wrapf (f32_add heading (f32_mul (l_sin lm (f32_mul (vec_x position) (f32_lit 5 10000)))
                                                    (f32_lit 4 1000))) kTwoPi;
          pitch = clampf (f32_sub (aa_pitch aircraft ! i) (f32_mul vertical (f32_lit 6 10000)))
                    (f32_neg (f32_lit 28 100)) (f32_lit 28 100)
      in out\<lparr>aa_position := (aa_position out)[i := position],
             aa_velocity := (aa_velocity out)[i := velocity],
             aa_heading := (aa_heading out)[i := heading],
             aa_pitch := (aa_pitch out)[i := pitch],
             aa_mass := (aa_mass out)[i := mass]\<rparr>)"

section \<open>The systems over a range\<close>

definition update_vehicle_lod :: "WorldState \<Rightarrow> nat \<Rightarrow> nat \<Rightarrow> WorldState \<Rightarrow> WorldState" where
  "update_vehicle_lod inn b e out =
     out\<lparr>ws_vehicles := fold (vehicle_lod_at inn) [b..<e] (ws_vehicles out)\<rparr>"

definition update_vehicle_physics :: "libm \<Rightarrow> WorldState \<Rightarrow> nat \<Rightarrow> nat \<Rightarrow> WorldState \<Rightarrow> WorldState" where
  "update_vehicle_physics lm inn b e out =
     out\<lparr>ws_vehicles := fold (vehicle_physics_at lm inn) [b..<e] (ws_vehicles out)\<rparr>"

definition update_npc_lod :: "WorldState \<Rightarrow> nat \<Rightarrow> nat \<Rightarrow> WorldState \<Rightarrow> WorldState" where
  "update_npc_lod inn b e out = out\<lparr>ws_npcs := fold (npc_lod_at inn) [b..<e] (ws_npcs out)\<rparr>"

definition update_npc_perception :: "WorldState \<Rightarrow> nat \<Rightarrow> nat \<Rightarrow> WorldState \<Rightarrow> WorldState" where
  "update_npc_perception inn b e out =
     (if npcs_size (ws_npcs inn) = 0 then out
      else out\<lparr>ws_npcs := fold (npc_perception_at inn) [b..<e] (ws_npcs out)\<rparr>)"

definition update_npc_decision :: "WorldState \<Rightarrow> nat \<Rightarrow> nat \<Rightarrow> WorldState \<Rightarrow> WorldState" where
  "update_npc_decision inn b e out = out\<lparr>ws_npcs := fold (npc_decision_at inn) [b..<e] (ws_npcs out)\<rparr>"

definition update_npc_movement :: "WorldState \<Rightarrow> nat \<Rightarrow> nat \<Rightarrow> WorldState \<Rightarrow> WorldState" where
  "update_npc_movement inn b e out = out\<lparr>ws_npcs := fold (npc_movement_at inn) [b..<e] (ws_npcs out)\<rparr>"

definition update_aircraft_atmosphere :: "libm \<Rightarrow> WorldState \<Rightarrow> nat \<Rightarrow> nat \<Rightarrow> WorldState \<Rightarrow> WorldState" where
  "update_aircraft_atmosphere lm inn b e out =
     out\<lparr>ws_aircraft := fold (aircraft_atmosphere_at lm inn) [b..<e] (ws_aircraft out)\<rparr>"

definition update_aircraft_aerodynamics :: "WorldState \<Rightarrow> nat \<Rightarrow> nat \<Rightarrow> WorldState \<Rightarrow> WorldState" where
  "update_aircraft_aerodynamics inn b e out =
     out\<lparr>ws_aircraft := fold (aircraft_aerodynamics_at inn) [b..<e] (ws_aircraft out)\<rparr>"

definition update_aircraft_propulsion :: "WorldState \<Rightarrow> nat \<Rightarrow> nat \<Rightarrow> WorldState \<Rightarrow> WorldState" where
  "update_aircraft_propulsion inn b e out =
     out\<lparr>ws_aircraft := fold (aircraft_propulsion_at inn) [b..<e] (ws_aircraft out)\<rparr>"

definition update_aircraft_integrate :: "libm \<Rightarrow> WorldState \<Rightarrow> nat \<Rightarrow> nat \<Rightarrow> WorldState \<Rightarrow> WorldState" where
  "update_aircraft_integrate lm inn b e out =
     out\<lparr>ws_aircraft := fold (aircraft_integrate_at lm inn) [b..<e] (ws_aircraft out)\<rparr>"

text \<open>The fused chains.\<close>

definition update_vehicle_chain :: "libm \<Rightarrow> WorldState \<Rightarrow> nat \<Rightarrow> nat \<Rightarrow> WorldState \<Rightarrow> WorldState" where
  "update_vehicle_chain lm inn b e out = update_vehicle_physics lm inn b e (update_vehicle_lod inn b e out)"

definition update_npc_chain :: "WorldState \<Rightarrow> nat \<Rightarrow> nat \<Rightarrow> WorldState \<Rightarrow> WorldState" where
  "update_npc_chain inn b e out =
     update_npc_movement inn b e (update_npc_decision inn b e
       (update_npc_perception inn b e (update_npc_lod inn b e out)))"

definition update_aircraft_chain :: "libm \<Rightarrow> WorldState \<Rightarrow> nat \<Rightarrow> nat \<Rightarrow> WorldState \<Rightarrow> WorldState" where
  "update_aircraft_chain lm inn b e out =
     update_aircraft_integrate lm inn b e (update_aircraft_propulsion inn b e
       (update_aircraft_aerodynamics inn b e (update_aircraft_atmosphere lm inn b e out)))"

end
