(* ===== verification/Engine_Hash.thy ===== *)
theory Engine_Hash
  imports Engine_World
begin

text \<open>
  \<open>engine/core/StateHash.hpp\<close>: the bit-exact hash of the world state (FNV-1a, 64 bit), fed with the bytes
  of every field in index order, least significant byte first as on the machines it runs on, and its
  text form.
\<close>

section \<open>The hasher\<close>

definition fnv_offset :: u64 where
  "fnv_offset = 0xCBF29CE484222325"

definition fnv_step :: "u8 \<Rightarrow> u64 \<Rightarrow> u64" where
  "fnv_step b h = (h XOR ucast b) * 0x100000001B3"

definition feed_bytes :: "u8 list \<Rightarrow> u64 \<Rightarrow> u64" where
  "feed_bytes bs h = fold fnv_step bs h"

definition bytes_of_u32 :: "u32 \<Rightarrow> u8 list" where
  "bytes_of_u32 w = [ucast w, ucast (drop_bit 8 w), ucast (drop_bit 16 w), ucast (drop_bit 24 w)]"

definition feed_u32 :: "u32 \<Rightarrow> u64 \<Rightarrow> u64" where
  "feed_u32 v = feed_bytes (bytes_of_u32 v)"

text \<open>\<open>feed(float)\<close> feeds the bits of the float, and \<open>feed(SimLod)\<close> its number.\<close>

definition feed_float :: "float32 \<Rightarrow> u64 \<Rightarrow> u64" where
  "feed_float v h = (let bits = v in feed_bytes (bytes_of_u32 bits) h)"

definition feed_vec3 :: "Vec3 \<Rightarrow> u64 \<Rightarrow> u64" where
  "feed_vec3 v h = feed_float (vec_z v) (feed_float (vec_y v) (feed_float (vec_x v) h))"

fun lod_number :: "SimLod \<Rightarrow> u32" where
  "lod_number LodFull = 0"
| "lod_number LodReduced = 1"
| "lod_number LodSimple = 2"
| "lod_number LodDistant = 3"

definition feed_lod :: "SimLod \<Rightarrow> u64 \<Rightarrow> u64" where
  "feed_lod v = feed_u32 (lod_number v)"

definition feed_array :: "('a \<Rightarrow> u64 \<Rightarrow> u64) \<Rightarrow> 'a list \<Rightarrow> u64 \<Rightarrow> u64" where
  "feed_array feed vs h = fold feed vs h"

definition hash_vehicles :: "VehicleArrays \<Rightarrow> u64 \<Rightarrow> u64" where
  "hash_vehicles a =
     feed_array feed_u32 (va_lane a) \<circ> feed_array feed_lod (va_lod a) \<circ> feed_array feed_float (va_mass a) \<circ>
     feed_array feed_float (va_wheel_load a) \<circ> feed_array feed_float (va_engine_rpm a) \<circ>
     feed_array feed_float (va_throttle a) \<circ> feed_array feed_float (va_steer a) \<circ>
     feed_array feed_float (va_heading a) \<circ> feed_array feed_vec3 (va_velocity a) \<circ>
     feed_array feed_vec3 (va_position a)"

definition hash_npcs :: "NpcArrays \<Rightarrow> u64 \<Rightarrow> u64" where
  "hash_npcs a =
     feed_array feed_u32 (na_nearest_index a) \<circ> feed_array feed_float (na_nearest_distance a) \<circ>
     feed_array feed_lod (na_lod a) \<circ> feed_array feed_u32 (na_behaviour a) \<circ> feed_array feed_float (na_speed a) \<circ>
     feed_array feed_vec3 (na_target a) \<circ> feed_array feed_vec3 (na_velocity a) \<circ>
     feed_array feed_vec3 (na_position a)"

definition hash_aircraft :: "AircraftArrays \<Rightarrow> u64 \<Rightarrow> u64" where
  "hash_aircraft a =
     feed_array feed_float (aa_mass a) \<circ> feed_array feed_float (aa_thrust a) \<circ> feed_array feed_float (aa_drag a) \<circ>
     feed_array feed_float (aa_lift a) \<circ> feed_array feed_float (aa_air_density a) \<circ>
     feed_array feed_float (aa_altitude a) \<circ> feed_array feed_float (aa_throttle a) \<circ>
     feed_array feed_float (aa_pitch a) \<circ> feed_array feed_float (aa_heading a) \<circ>
     feed_array feed_vec3 (aa_velocity a) \<circ> feed_array feed_vec3 (aa_position a)"

definition hash_state :: "WorldState \<Rightarrow> u64" where
  "hash_state state =
     feed_vec3 (ws_player_position state)
       (hash_aircraft (ws_aircraft state) (hash_npcs (ws_npcs state) (hash_vehicles (ws_vehicles state) fnv_offset)))"

section \<open>Its text form\<close>

definition hex_digits :: string where
  "hex_digits = ''0123456789abcdef''"

text \<open>One iteration of the loop: the digit at position \<open>i\<close>, and the hash shifted.\<close>

definition put_digit :: "nat \<Rightarrow> string \<times> u64 \<Rightarrow> string \<times> u64" where
  "put_digit i s = (case s of (out, hash) \<Rightarrow> (out[i := hex_digits ! unat (hash AND 0xF)], drop_bit 4 hash))"

definition hash_to_string :: "u64 \<Rightarrow> string" where
  "hash_to_string hash = fst (fold put_digit (rev [0..<16]) (replicate 16 CHR ''0'', hash))"

section \<open>Every step is injective\<close>

lemma fnv_prime_inverse: "(0x100000001B3 :: u64) * 0xCE965057AFF6957B = 1"
  by simp

lemma fnv_step_inject_hash: "fnv_step b h = fnv_step b h' \<Longrightarrow> h = h'"
proof -
  assume "fnv_step b h = fnv_step b h'"
  then have "fnv_step b h * 0xCE965057AFF6957B = fnv_step b h' * 0xCE965057AFF6957B" by simp
  then have "h XOR ucast b = h' XOR ucast b"
    by (simp only: fnv_step_def mult.assoc fnv_prime_inverse mult_1_right)
  then show "h = h'" by (simp add: bit_eq_iff bit_xor_iff) blast
qed

lemma fnv_step_inject_byte: "fnv_step b h = fnv_step b' h \<Longrightarrow> b = b'"
proof -
  assume "fnv_step b h = fnv_step b' h"
  then have "fnv_step b h * 0xCE965057AFF6957B = fnv_step b' h * 0xCE965057AFF6957B" by simp
  then have "h XOR ucast b = h XOR ucast b'"
    by (simp only: fnv_step_def mult.assoc fnv_prime_inverse mult_1_right)
  then have "(ucast b :: u64) = ucast b'" by (simp add: bit_eq_iff bit_xor_iff) blast
  then have "(ucast (ucast b :: u64) :: u8) = ucast (ucast b' :: u64)" by simp
  then show "b = b'" by (simp add: ucast_up_ucast_id is_up)
qed

lemma feed_bytes_inject: "feed_bytes bs h = feed_bytes bs h' \<longleftrightarrow> h = h'"
  by (induction bs arbitrary: h h') (auto simp: feed_bytes_def dest: fnv_step_inject_hash)

lemma feed_bytes_one_byte:
  "b \<noteq> b' \<Longrightarrow> feed_bytes (xs @ b # ys) h \<noteq> feed_bytes (xs @ b' # ys) h"
  using feed_bytes_inject [of ys "fnv_step b (feed_bytes xs h)" "fnv_step b' (feed_bytes xs h)"]
  by (auto simp: feed_bytes_def dest: fnv_step_inject_byte)

lemma bytes_of_u32_inject: "bytes_of_u32 v = bytes_of_u32 w \<longleftrightarrow> v = w"
proof
  assume "bytes_of_u32 v = bytes_of_u32 w"
  then have e: "(ucast (drop_bit n v) :: u8) = ucast (drop_bit n w)" if "n \<in> {0, 8, 16, 24}" for n
    using that by (auto simp: bytes_of_u32_def)
  have b: "bit v (n + k) = bit w (n + k)" if "n \<in> {0, 8, 16, 24}" "k < 8" for n k
    using arg_cong [OF e [OF that(1)], of "\<lambda>x. bit x k"] that(2)
    by (simp add: bit_ucast_iff bit_drop_bit_eq add.commute)
  show "v = w"
  proof (rule bit_eqI)
    fix m
    show "bit v m = bit w m"
    proof (cases "m < 32")
      case True
      then have "8 * (m div 8) \<in> {0, 8, 16, 24}" by simp arith
      then show ?thesis using b [of "8 * (m div 8)" "m mod 8"] by simp
    next
      case False
      then show ?thesis by (simp add: bit_word.rep_eq  bit_imp_le_length)
    qed
  qed
qed simp

section \<open>What is hashed\<close>

text \<open>The bytes that \<open>hash_state\<close> feeds, field by field.\<close>

definition bytes_of_vec3 :: "Vec3 \<Rightarrow> u8 list" where
  "bytes_of_vec3 v = bytes_of_u32 (vec_x v) @ bytes_of_u32 (vec_y v) @ bytes_of_u32 (vec_z v)"

definition bytes_of_lod :: "SimLod \<Rightarrow> u8 list" where
  "bytes_of_lod v = bytes_of_u32 (lod_number v)"

definition array_bytes :: "('a \<Rightarrow> u8 list) \<Rightarrow> 'a list \<Rightarrow> u8 list" where
  "array_bytes enc vs = concat (map enc vs)"

definition vehicles_bytes :: "VehicleArrays \<Rightarrow> u8 list" where
  "vehicles_bytes a =
     array_bytes bytes_of_vec3 (va_position a) @ array_bytes bytes_of_vec3 (va_velocity a) @
     array_bytes bytes_of_u32 (va_heading a) @ array_bytes bytes_of_u32 (va_steer a) @
     array_bytes bytes_of_u32 (va_throttle a) @ array_bytes bytes_of_u32 (va_engine_rpm a) @
     array_bytes bytes_of_u32 (va_wheel_load a) @ array_bytes bytes_of_u32 (va_mass a) @
     array_bytes bytes_of_lod (va_lod a) @ array_bytes bytes_of_u32 (va_lane a)"

definition npcs_bytes :: "NpcArrays \<Rightarrow> u8 list" where
  "npcs_bytes a =
     array_bytes bytes_of_vec3 (na_position a) @ array_bytes bytes_of_vec3 (na_velocity a) @
     array_bytes bytes_of_vec3 (na_target a) @ array_bytes bytes_of_u32 (na_speed a) @
     array_bytes bytes_of_u32 (na_behaviour a) @ array_bytes bytes_of_lod (na_lod a) @
     array_bytes bytes_of_u32 (na_nearest_distance a) @ array_bytes bytes_of_u32 (na_nearest_index a)"

definition aircraft_bytes :: "AircraftArrays \<Rightarrow> u8 list" where
  "aircraft_bytes a =
     array_bytes bytes_of_vec3 (aa_position a) @ array_bytes bytes_of_vec3 (aa_velocity a) @
     array_bytes bytes_of_u32 (aa_heading a) @ array_bytes bytes_of_u32 (aa_pitch a) @
     array_bytes bytes_of_u32 (aa_throttle a) @ array_bytes bytes_of_u32 (aa_altitude a) @
     array_bytes bytes_of_u32 (aa_air_density a) @ array_bytes bytes_of_u32 (aa_lift a) @
     array_bytes bytes_of_u32 (aa_drag a) @ array_bytes bytes_of_u32 (aa_thrust a) @
     array_bytes bytes_of_u32 (aa_mass a)"

definition state_bytes :: "WorldState \<Rightarrow> u8 list" where
  "state_bytes st =
     vehicles_bytes (ws_vehicles st) @ npcs_bytes (ws_npcs st) @ aircraft_bytes (ws_aircraft st) @
     bytes_of_vec3 (ws_player_position st)"

lemma feed_bytes_append: "feed_bytes (xs @ ys) h = feed_bytes ys (feed_bytes xs h)"
  by (simp add: feed_bytes_def)

lemma feed_array_bytes: "(\<And>v h. feed v h = feed_bytes (enc v) h) \<Longrightarrow> feed_array feed vs h = feed_bytes (array_bytes enc vs) h"
  by (induction vs arbitrary: h) (simp_all add: feed_array_def array_bytes_def feed_bytes_append, simp add: feed_bytes_def)

lemma feed_elements:
  "feed_array feed_u32 ws = feed_bytes (array_bytes bytes_of_u32 ws)"
  "feed_array feed_float ws = feed_bytes (array_bytes bytes_of_u32 ws)"
  "feed_array feed_lod ls = feed_bytes (array_bytes bytes_of_lod ls)"
  "feed_array feed_vec3 vs = feed_bytes (array_bytes bytes_of_vec3 vs)"
  "feed_vec3 v = feed_bytes (bytes_of_vec3 v)"
  by (rule ext feed_array_bytes |
      simp add: feed_u32_def feed_float_def feed_lod_def bytes_of_lod_def feed_vec3_def bytes_of_vec3_def
        feed_bytes_append)+

lemma hash_state_bytes: "hash_state st = feed_bytes (state_bytes st) fnv_offset"
  by (simp add: hash_state_def hash_vehicles_def hash_npcs_def hash_aircraft_def feed_elements
    state_bytes_def vehicles_bytes_def npcs_bytes_def aircraft_bytes_def feed_bytes_append)

text \<open>Worlds with the same number of entities in every array.\<close>

definition same_shape :: "WorldState \<Rightarrow> WorldState \<Rightarrow> bool" where
  "same_shape st st' \<longleftrightarrow>
     (let a = ws_vehicles st; b = ws_vehicles st' in
        length (va_position a) = length (va_position b) \<and> length (va_velocity a) = length (va_velocity b) \<and>
        length (va_heading a) = length (va_heading b) \<and> length (va_steer a) = length (va_steer b) \<and>
        length (va_throttle a) = length (va_throttle b) \<and> length (va_engine_rpm a) = length (va_engine_rpm b) \<and>
        length (va_wheel_load a) = length (va_wheel_load b) \<and> length (va_mass a) = length (va_mass b) \<and>
        length (va_lod a) = length (va_lod b) \<and> length (va_lane a) = length (va_lane b)) \<and>
     (let a = ws_npcs st; b = ws_npcs st' in
        length (na_position a) = length (na_position b) \<and> length (na_velocity a) = length (na_velocity b) \<and>
        length (na_target a) = length (na_target b) \<and> length (na_speed a) = length (na_speed b) \<and>
        length (na_behaviour a) = length (na_behaviour b) \<and> length (na_lod a) = length (na_lod b) \<and>
        length (na_nearest_distance a) = length (na_nearest_distance b) \<and>
        length (na_nearest_index a) = length (na_nearest_index b)) \<and>
     (let a = ws_aircraft st; b = ws_aircraft st' in
        length (aa_position a) = length (aa_position b) \<and> length (aa_velocity a) = length (aa_velocity b) \<and>
        length (aa_heading a) = length (aa_heading b) \<and> length (aa_pitch a) = length (aa_pitch b) \<and>
        length (aa_throttle a) = length (aa_throttle b) \<and> length (aa_altitude a) = length (aa_altitude b) \<and>
        length (aa_air_density a) = length (aa_air_density b) \<and> length (aa_lift a) = length (aa_lift b) \<and>
        length (aa_drag a) = length (aa_drag b) \<and> length (aa_thrust a) = length (aa_thrust b) \<and>
        length (aa_mass a) = length (aa_mass b))"

lemma fixed_code_inject:
  assumes "\<And>v. length (enc v) = n" "\<And>v w. enc v = enc w \<Longrightarrow> v = w" "length vs = length ws"
  shows "array_bytes enc vs @ r = array_bytes enc ws @ r' \<longleftrightarrow> vs = ws \<and> r = r'"
  using assms(3)
proof (induction vs ws rule: list_induct2)
  case (Cons v vs w ws)
  then show ?case using assms(1,2) by (auto simp: array_bytes_def append_eq_append_conv)
qed (simp add: array_bytes_def)

lemma length_codes [simp]:
  "length (bytes_of_u32 w) = 4" "length (bytes_of_lod l) = 4" "length (bytes_of_vec3 v) = 12"
  by (simp_all add: bytes_of_u32_def bytes_of_lod_def bytes_of_vec3_def)

lemma bytes_of_vec3_inject: "bytes_of_vec3 v = bytes_of_vec3 w \<longleftrightarrow> v = w"
  by (auto simp: bytes_of_vec3_def append_eq_append_conv bytes_of_u32_inject)

lemma bytes_of_lod_inject: "bytes_of_lod v = bytes_of_lod w \<longleftrightarrow> v = w"
  by (cases v; cases w; simp add: bytes_of_lod_def bytes_of_u32_inject)

lemma array_inject:
  "length us = length us' \<Longrightarrow> array_bytes bytes_of_u32 us @ r = array_bytes bytes_of_u32 us' @ r' \<longleftrightarrow> us = us' \<and> r = r'"
  "length ls = length ls' \<Longrightarrow> array_bytes bytes_of_lod ls @ r = array_bytes bytes_of_lod ls' @ r' \<longleftrightarrow> ls = ls' \<and> r = r'"
  "length vs = length vs' \<Longrightarrow> array_bytes bytes_of_vec3 vs @ r = array_bytes bytes_of_vec3 vs' @ r' \<longleftrightarrow> vs = vs' \<and> r = r'"
  by (rule fixed_code_inject; simp add: bytes_of_u32_inject bytes_of_lod_inject bytes_of_vec3_inject)+

lemma array_inject_nil:
  "length us = length us' \<Longrightarrow> array_bytes bytes_of_u32 us = array_bytes bytes_of_u32 us' \<longleftrightarrow> us = us'"
  using array_inject(1) [of us us' "[]" "[]"] by simp

lemma state_bytes_inject:
  assumes "same_shape st st'"
  shows "state_bytes st = state_bytes st' \<longleftrightarrow> st = st'"
proof
  assume "state_bytes st = state_bytes st'"
  then have "ws_vehicles st = ws_vehicles st' \<and> ws_npcs st = ws_npcs st' \<and> ws_aircraft st = ws_aircraft st' \<and>
      ws_player_position st = ws_player_position st'"
    using assms unfolding same_shape_def state_bytes_def vehicles_bytes_def npcs_bytes_def aircraft_bytes_def Let_def
    by (simp add: array_inject array_inject_nil bytes_of_vec3_inject VehicleArrays.equality NpcArrays.equality AircraftArrays.equality)
  then show "st = st'" by simp
qed simp

section \<open>Reading the text back\<close>

definition hex_value :: "string \<Rightarrow> u64" where
  "hex_value s = fold (\<lambda>c v. 16 * v + of_nat (length (takeWhile (\<lambda>d. d \<noteq> c) hex_digits))) s 0"

lemma nibble_less: "unat ((h :: u64) AND 0xF) < 16"
proof -
  have "h AND 0xF = h AND mask 4" by (simp add: mask_eq_exp_minus_1)
  then have "unat (h AND 0xF) = unat h mod 16" by (simp add: unat_mod flip: take_bit_eq_mask) (simp add: take_bit_eq_mod unat_mod)
  then show ?thesis by simp
qed

lemma nibble_split: "16 * drop_bit 4 h + (h AND 0xF) = (h :: u64)"
proof -
  have "h AND 0xF = take_bit 4 h" by (simp add: mask_eq_exp_minus_1 take_bit_eq_mask)
  then show ?thesis using bits_ident [of 4 h] by (simp add: push_bit_eq_mult mult.commute)
qed

lemma digit_position: "n < 16 \<Longrightarrow> length (takeWhile (\<lambda>d. d \<noteq> hex_digits ! n) hex_digits) = n"
proof -
  have "list_all (\<lambda>n. length (takeWhile (\<lambda>d. d \<noteq> hex_digits ! n) hex_digits) = n) [0..<16]" by code_simp
  then show "n < 16 \<Longrightarrow> ?thesis" by (simp add: list_all_iff)
qed

text \<open>After the positions \<open>15, \<dots>, n\<close> the digits there are written, and the rest of the hash is left.\<close>

lemma put_digits:
  "n \<le> 16 \<Longrightarrow> fold put_digit (rev [n..<16]) (replicate 16 CHR ''0'', h) =
     (replicate n CHR ''0'' @ map (\<lambda>i. hex_digits ! unat (drop_bit (4 * (15 - i)) h AND 0xF)) [n..<16],
      drop_bit (4 * (16 - n)) h)"
proof (induction "16 - n" arbitrary: n)
  case (Suc m)
  then have n: "n < 16" by simp
  then have "4 + 4 * (15 - n) = 4 * (16 - n)" "16 - Suc n = 15 - n" by simp_all
  moreover have "replicate (Suc n) CHR ''0'' = replicate n CHR ''0'' @ [CHR ''0'']"
    by (simp add: replicate_append_same)
  ultimately show ?case using Suc(1) [of "Suc n"] Suc(2) n
    by (simp add: upt_conv_Cons [OF n] put_digit_def list_update_append del: replicate_Suc)
qed simp

lemma hash_to_string_digits:
  "hash_to_string h = map (\<lambda>i. hex_digits ! unat (drop_bit (4 * (15 - i)) h AND 0xF)) [0..<16]"
  using put_digits [of 0 h] by (simp add: hash_to_string_def)

lemma hex_value_prefix:
  "n \<le> 16 \<Longrightarrow> hex_value (map (\<lambda>i. hex_digits ! unat (drop_bit (4 * (15 - i)) h AND 0xF)) [0..<n]) = drop_bit (4 * (16 - n)) h"
proof (induction n)
  case (Suc n)
  then have e: "4 * (16 - n) = 4 * (15 - n) + 4" by simp
  have "16 * drop_bit (4 * (16 - n)) h + (drop_bit (4 * (15 - n)) h AND 0xF) = drop_bit (4 * (15 - n)) h"
    using nibble_split [of "drop_bit (4 * (15 - n)) h"] by (simp add: e add.commute)
  then show ?case using Suc
    by (simp add: hex_value_def digit_position nibble_less)
next
  case 0
  have "drop_bit 64 h = 0" by (rule bit_word_eqI) (auto simp: bit_drop_bit_eq dest: bit_imp_le_length)
  then show ?case by (simp add: hex_value_def)
qed

section \<open>Properties\<close>

text \<open>
  C35. The state hash sees every field of the world: it is the FNV-1a hash of bytes that determine the
  whole state (two worlds of the same size that differ in any element of any array, or in the player,
  have different bytes), and if a single byte of them differs the hashes are different.
\<close>

theorem hash_sees_every_field:
  assumes "same_shape st st'"
  shows "(state_bytes st = state_bytes st' \<longleftrightarrow> st = st') \<and>
    hash_state st = feed_bytes (state_bytes st) fnv_offset \<and>
    (\<forall>xs b b' ys. state_bytes st = xs @ b # ys \<and> state_bytes st' = xs @ b' # ys \<and> b \<noteq> b' \<longrightarrow>
      hash_state st \<noteq> hash_state st')"
  using state_bytes_inject [OF assms] by (auto simp: hash_state_bytes feed_bytes_one_byte)

theorem hash_sees_every_field_witness:
  "state_bytes (world_resized 1 0 0) \<noteq> state_bytes (world_resized 1 0 0\<lparr>ws_player_position := \<lparr>vec_x = 1, vec_y = 0, vec_z = 0\<rparr>\<rparr>)"
proof -
  have "same_shape (world_resized 1 0 0) (world_resized 1 0 0\<lparr>ws_player_position := \<lparr>vec_x = 1, vec_y = 0, vec_z = 0\<rparr>\<rparr>)"
    by (simp add: same_shape_def Let_def)
  from hash_sees_every_field [OF this] show ?thesis by (simp add: world_resized_def vec_zero_def)
qed

text \<open>
  The text of a hash can be read back: \<open>hash_to_string\<close> returns sixteen hexadecimal digits whose
  value, most significant digit first, is the hash.
\<close>

theorem hash_text_roundtrip:
  "length (hash_to_string h) = 16 \<and> set (hash_to_string h) \<subseteq> set hex_digits \<and> hex_value (hash_to_string h) = h"
proof -
  have "hex_digits ! unat (w AND 0xF) \<in> set hex_digits" for w :: u64
    by (rule nth_mem) (use nibble_less [of w] in \<open>simp add: hex_digits_def\<close>)
  then show ?thesis using hex_value_prefix [of 16 h] by (auto simp: hash_to_string_digits)
qed

end
