(* ===== verification/Engine_Frame.thy ===== *)
theory Engine_Frame
  imports Engine_Systems Engine_Hash
begin

text \<open>
  \<open>engine/core/Simulation.hpp\<close> and \<open>Simulation.cpp\<close>: one frame of the simulation, serially and on the task
  runtime, where a few tasks per chain claim batches of entities from a shared cursor. The tasks of
  the three chains run concurrently: a schedule says whose turn it is, and a turn is one claim or the
  body of one system for one entity (which reads the previous frame and the entity's own new
  elements, and writes only those). That the runtime runs every submitted task exactly once, and that
  \<open>wait\<close> returns only when a task is complete, are theorems about the runtimes.
\<close>

section \<open>Independent steps\<close>

text \<open>
  Steps with different keys commute. Then two sequences of steps that contain the same steps of every
  key, in the same order, have the same effect.
\<close>

locale independent_steps =
  fixes key :: "'s \<Rightarrow> 'k" and run :: "'s \<Rightarrow> 'w \<Rightarrow> 'w"
  assumes commute: "key a \<noteq> key b \<Longrightarrow> run a (run b w) = run b (run a w)"
begin

lemma run_over: "(\<forall>s \<in> set ss. key s \<noteq> key a) \<Longrightarrow> run a (fold run ss w) = fold run ss (run a w)"
proof (induction ss arbitrary: w)
  case (Cons s ss)
  then have "key a \<noteq> key s" by auto
  from commute [OF this, of w] show ?case using Cons by simp
qed simp

lemma fold_same_order:
  assumes "\<And>k. filter (\<lambda>s. key s = k) xs = filter (\<lambda>s. key s = k) ys"
  shows "fold run xs w = fold run ys w"
  using assms
proof (induction xs arbitrary: ys w)
  case Nil
  have "ys = []"
  proof (rule ccontr)
    assume "ys \<noteq> []"
    then show False using Nil [of "key (hd ys)"] by (cases ys) simp_all
  qed
  then show ?case by simp
next
  case (Cons x xs)
  have fx: "filter (\<lambda>s. key s = key x) ys = x # filter (\<lambda>s. key s = key x) xs"
    using Cons.prems [of "key x"] by simp
  then obtain us vs where ys: "ys = us @ x # vs" "\<forall>u \<in> set us. key u \<noteq> key x"
      "filter (\<lambda>s. key s = key x) xs = filter (\<lambda>s. key s = key x) vs"
    by (auto simp: filter_eq_Cons_iff)
  have rest: "filter (\<lambda>s. key s = k) xs = filter (\<lambda>s. key s = k) (us @ vs)" for k
  proof (cases "k = key x")
    case True
    then show ?thesis using ys(2,3) by (simp add: filter_empty_conv)
  next
    case False
    then show ?thesis using Cons.prems [of k] by (simp add: ys(1))
  qed
  have "fold run (x # xs) w = fold run (us @ vs) (run x w)" using Cons.IH [OF rest] by simp
  also have "\<dots> = fold run vs (run x (fold run us w))" using run_over [OF ys(2)] by simp
  finally show ?case by (simp add: ys(1))
qed

end

section \<open>The steps of a frame\<close>

datatype chain = VehicleChain | NpcChain | AircraftChain

datatype stage = VehicleLod | VehiclePhysics | NpcLod | NpcPerception | NpcDecision | NpcMovement |
  Atmosphere | Aerodynamics | Propulsion | Integrate

fun chain_stages :: "chain \<Rightarrow> stage list" where
  "chain_stages VehicleChain = [VehicleLod, VehiclePhysics]"
| "chain_stages NpcChain = [NpcLod, NpcPerception, NpcDecision, NpcMovement]"
| "chain_stages AircraftChain = [Atmosphere, Aerodynamics, Propulsion, Integrate]"

fun stage_chain :: "stage \<Rightarrow> chain" where
  "stage_chain VehicleLod = VehicleChain"
| "stage_chain VehiclePhysics = VehicleChain"
| "stage_chain NpcLod = NpcChain"
| "stage_chain NpcPerception = NpcChain"
| "stage_chain NpcDecision = NpcChain"
| "stage_chain NpcMovement = NpcChain"
| "stage_chain Atmosphere = AircraftChain"
| "stage_chain Aerodynamics = AircraftChain"
| "stage_chain Propulsion = AircraftChain"
| "stage_chain Integrate = AircraftChain"

text \<open>The body of a system for one entity, on the next frame.\<close>

fun run_stage :: "libm \<Rightarrow> WorldState \<Rightarrow> stage \<times> nat \<Rightarrow> WorldState \<Rightarrow> WorldState" where
  "run_stage lm inn (VehicleLod, i) out = out\<lparr>ws_vehicles := vehicle_lod_at inn i (ws_vehicles out)\<rparr>"
| "run_stage lm inn (VehiclePhysics, i) out = out\<lparr>ws_vehicles := vehicle_physics_at lm inn i (ws_vehicles out)\<rparr>"
| "run_stage lm inn (NpcLod, i) out = out\<lparr>ws_npcs := npc_lod_at inn i (ws_npcs out)\<rparr>"
| "run_stage lm inn (NpcPerception, i) out = out\<lparr>ws_npcs := npc_perception_at inn i (ws_npcs out)\<rparr>"
| "run_stage lm inn (NpcDecision, i) out = out\<lparr>ws_npcs := npc_decision_at inn i (ws_npcs out)\<rparr>"
| "run_stage lm inn (NpcMovement, i) out = out\<lparr>ws_npcs := npc_movement_at inn i (ws_npcs out)\<rparr>"
| "run_stage lm inn (Atmosphere, i) out = out\<lparr>ws_aircraft := aircraft_atmosphere_at lm inn i (ws_aircraft out)\<rparr>"
| "run_stage lm inn (Aerodynamics, i) out = out\<lparr>ws_aircraft := aircraft_aerodynamics_at inn i (ws_aircraft out)\<rparr>"
| "run_stage lm inn (Propulsion, i) out = out\<lparr>ws_aircraft := aircraft_propulsion_at inn i (ws_aircraft out)\<rparr>"
| "run_stage lm inn (Integrate, i) out = out\<lparr>ws_aircraft := aircraft_integrate_at lm inn i (ws_aircraft out)\<rparr>"

fun chain_size :: "chain \<Rightarrow> WorldState \<Rightarrow> nat" where
  "chain_size VehicleChain st = vehicles_size (ws_vehicles st)"
| "chain_size NpcChain st = npcs_size (ws_npcs st)"
| "chain_size AircraftChain st = aircraft_size (ws_aircraft st)"

text \<open>The bounds of batch \<open>b\<close>, and what the fused chain does to it: stage after stage, entity after entity.\<close>

definition batch_end :: "nat \<Rightarrow> nat \<Rightarrow> nat" where
  "batch_end entity_count b =
     (let begin = b * kBatchSize in if begin + kBatchSize < entity_count then begin + kBatchSize else entity_count)"

definition chain_program :: "chain \<Rightarrow> nat \<Rightarrow> nat \<Rightarrow> (stage \<times> nat) list" where
  "chain_program c b e = concat (map (\<lambda>st. map (Pair st) [b..<e]) (chain_stages c))"

definition batch_program :: "chain \<Rightarrow> nat \<Rightarrow> nat \<Rightarrow> (stage \<times> nat) list" where
  "batch_program c entity_count b = chain_program c (b * kBatchSize) (batch_end entity_count b)"

section \<open>The tasks of a frame\<close>

definition stage_claimants :: "u32 \<Rightarrow> nat \<Rightarrow> nat" where
  "stage_claimants workers entity_count =
     (if entity_count = 0 then 0
      else (let batches = batch_count_for entity_count;
                worker_cap = (if workers = 0 then 1 else unat workers)
            in if batches < worker_cap then batches else worker_cap))"

record frame_state =
  fr_cursor :: "chain \<Rightarrow> nat"
  fr_program :: "chain \<Rightarrow> nat \<Rightarrow> (stage \<times> nat) list"
  fr_left :: "(chain \<times> nat) set"
  fr_out :: WorldState

definition frame_start :: "WorldState \<Rightarrow> frame_state" where
  "frame_start out = \<lparr>fr_cursor = (\<lambda>_. 0), fr_program = (\<lambda>_ _. []), fr_left = {}, fr_out = out\<rparr>"

text \<open>One turn of claimant \<open>t\<close> of a chain: the next entity of its batch, the next batch, or leaving.\<close>

definition frame_step :: "libm \<Rightarrow> WorldState \<Rightarrow> chain \<times> nat \<Rightarrow> frame_state \<Rightarrow> frame_state" where
  "frame_step lm inn ct f =
     (case ct of (c, t) \<Rightarrow>
        if (c, t) \<in> fr_left f then f
        else case fr_program f c t of
          s # rest \<Rightarrow>
            f\<lparr>fr_out := run_stage lm inn s (fr_out f),
              fr_program := (fr_program f)(c := (fr_program f c)(t := rest))\<rparr>
        | [] \<Rightarrow>
            (let b = fr_cursor f c; f1 = f\<lparr>fr_cursor := (fr_cursor f)(c := b + 1)\<rparr>
             in if b \<ge> batch_count_for (chain_size c inn) then f1\<lparr>fr_left := insert (c, t) (fr_left f1)\<rparr>
                else f1\<lparr>fr_program := (fr_program f1)(c := (fr_program f1 c)(t := batch_program c (chain_size c inn) b))\<rparr>))"

section \<open>The simulation\<close>

record SceneSpec =
  scene_name :: string
  scene_vehicles :: nat
  scene_npcs :: nat
  scene_aircraft :: nat

definition kScenes :: "SceneSpec list" where
  "kScenes = map (\<lambda>(name, v, n, a). \<lparr>scene_name = name, scene_vehicles = v, scene_npcs = n, scene_aircraft = a\<rparr>)
     [(''100_npcs'', 0, 100, 0), (''500_npcs'', 0, 500, 0), (''1000_npcs'', 0, 1000, 0),
      (''50_vehicles'', 50, 0, 0), (''100_vehicles'', 100, 0, 0), (''250_vehicles'', 250, 0, 0),
      (''5_aircraft'', 0, 0, 5), (''20_aircraft'', 0, 0, 20),
      (''full_mixed'', 250, 1000, 20), (''stress'', 500, 2000, 40)]"

definition find_scene :: "string \<Rightarrow> SceneSpec option" where
  "find_scene name = List.find (\<lambda>scene. scene_name scene = name) kScenes"

record FrameStats =
  tasks_submitted :: u64
  stages :: u64

record Simulation =
  sim_scene :: SceneSpec
  sim_world :: World
  sim_last_frame :: FrameStats

definition simulation_new :: "SceneSpec \<Rightarrow> u64 \<Rightarrow> Simulation" where
  "simulation_new scene seed =
     \<lparr>sim_scene = scene, sim_world = world_new (scene_vehicles scene) (scene_npcs scene) (scene_aircraft scene) seed,
      sim_last_frame = \<lparr>tasks_submitted = 0, stages = 0\<rparr>\<rparr>"

definition finish_tick :: "Simulation \<Rightarrow> Simulation" where
  "finish_tick sim = sim\<lparr>sim_world := advance_tick (swap_buffers (sim_world sim))\<rparr>"

definition prepared_next :: "Simulation \<Rightarrow> WorldState" where
  "prepared_next sim = (w_next (sim_world sim))\<lparr>ws_player_position := ws_player_position (w_current (sim_world sim))\<rparr>"

text \<open>The tasks of one chain: its claimants and the barrier.\<close>

definition submitted_for :: "u32 \<Rightarrow> nat \<Rightarrow> u64" where
  "submitted_for workers entity_count =
     (if entity_count = 0 then 0 else of_nat (stage_claimants workers entity_count) + 1)"

text \<open>\<open>None\<close>: some claimant has not left its loop when the schedule ends, and the frame still waits.\<close>

definition tick :: "libm \<Rightarrow> u32 \<Rightarrow> (chain \<times> nat) list \<Rightarrow> Simulation \<Rightarrow> Simulation option" where
  "tick lm workers schedule sim =
     (let inn = w_current (sim_world sim);
          claimants = (\<lambda>c. stage_claimants workers (chain_size c inn));
          f = fold (frame_step lm inn) (filter (\<lambda>(c, t). t < claimants c) schedule) (frame_start (prepared_next sim));
          stats = \<lparr>tasks_submitted = submitted_for workers (chain_size VehicleChain inn) +
                     submitted_for workers (chain_size NpcChain inn) +
                     submitted_for workers (chain_size AircraftChain inn), stages = 3\<rparr>
      in if list_all (\<lambda>c. list_all (\<lambda>t. (c, t) \<in> fr_left f) [0..<claimants c]) [VehicleChain, NpcChain, AircraftChain]
         then Some (finish_tick (sim\<lparr>sim_world := set_next (fr_out f) (sim_world sim), sim_last_frame := stats\<rparr>))
         else None)"

definition run_batched :: "nat \<Rightarrow> (nat \<Rightarrow> nat \<Rightarrow> WorldState \<Rightarrow> WorldState) \<Rightarrow> WorldState \<Rightarrow> WorldState" where
  "run_batched entity_count body out =
     fold (\<lambda>b. body (b * kBatchSize) (batch_end entity_count b)) [0..<batch_count_for entity_count] out"

definition tick_serial :: "libm \<Rightarrow> Simulation \<Rightarrow> Simulation" where
  "tick_serial lm sim =
     (let inn = w_current (sim_world sim);
          out = run_batched (vehicles_size (ws_vehicles inn)) (update_vehicle_chain lm inn) (prepared_next sim);
          out = run_batched (npcs_size (ws_npcs inn)) (update_npc_chain inn) out;
          out = run_batched (aircraft_size (ws_aircraft inn)) (update_aircraft_chain lm inn) out
      in finish_tick (sim\<lparr>sim_world := set_next out (sim_world sim)\<rparr>))"

definition state_hash :: "Simulation \<Rightarrow> u64" where
  "state_hash sim = hash_state (w_current (sim_world sim))"

text \<open>A run of frames, each with its own worker count and schedule.\<close>

fun run_ticks :: "libm \<Rightarrow> (u32 \<times> (chain \<times> nat) list) list \<Rightarrow> Simulation \<Rightarrow> Simulation option" where
  "run_ticks lm [] sim = Some sim"
| "run_ticks lm ((workers, schedule) # frames) sim =
     Option.bind (tick lm workers schedule sim) (run_ticks lm frames)"

end
