(* ===== verification/Engine_Steps.thy ===== *)
theory Engine_Steps
  imports Engine_Frame
begin

text \<open>
  The steps of a frame: steps of different entities commute (the interface \<open>independent_steps\<close>), and a
  frame on the task runtime executes every step of every entity exactly once, in the order of its
  chain, under every schedule.
\<close>

section \<open>Steps of different entities commute\<close>

definition step_key :: "stage \<times> nat \<Rightarrow> chain \<times> nat" where
  "step_key s = (stage_chain (fst s), snd s)"

lemma vehicle_steps_commute:
  assumes "i \<noteq> j"
  shows "vehicle_lod_at inn i (vehicle_lod_at inn j a) = vehicle_lod_at inn j (vehicle_lod_at inn i a)"
    "vehicle_physics_at lm inn i (vehicle_lod_at inn j a) = vehicle_lod_at inn j (vehicle_physics_at lm inn i a)"
    "vehicle_physics_at lm inn i (vehicle_physics_at lm inn j a) = vehicle_physics_at lm inn j (vehicle_physics_at lm inn i a)"
  using assms by (simp_all add: vehicle_lod_at_def vehicle_physics_at_def Let_def list_update_swap)

lemmas npc_at_defs = npc_lod_at_def npc_perception_at_def npc_decision_at_def npc_movement_at_def Let_def

lemma npc_steps_commute:
  assumes "i \<noteq> j"
  shows "npc_lod_at inn i (npc_lod_at inn j a) = npc_lod_at inn j (npc_lod_at inn i a)"
    "npc_perception_at inn i (npc_lod_at inn j a) = npc_lod_at inn j (npc_perception_at inn i a)"
    "npc_decision_at inn i (npc_lod_at inn j a) = npc_lod_at inn j (npc_decision_at inn i a)"
    "npc_movement_at inn i (npc_lod_at inn j a) = npc_lod_at inn j (npc_movement_at inn i a)"
    "npc_perception_at inn i (npc_perception_at inn j a) = npc_perception_at inn j (npc_perception_at inn i a)"
    "npc_decision_at inn i (npc_perception_at inn j a) = npc_perception_at inn j (npc_decision_at inn i a)"
    "npc_movement_at inn i (npc_perception_at inn j a) = npc_perception_at inn j (npc_movement_at inn i a)"
    "npc_decision_at inn i (npc_decision_at inn j a) = npc_decision_at inn j (npc_decision_at inn i a)"
    "npc_movement_at inn i (npc_decision_at inn j a) = npc_decision_at inn j (npc_movement_at inn i a)"
    "npc_movement_at inn i (npc_movement_at inn j a) = npc_movement_at inn j (npc_movement_at inn i a)"
  using assms by (simp_all add: npc_at_defs list_update_swap split: prod.splits)

lemmas aircraft_at_defs = aircraft_atmosphere_at_def aircraft_aerodynamics_at_def aircraft_propulsion_at_def
  aircraft_integrate_at_def Let_def

lemma aircraft_steps_commute:
  assumes "i \<noteq> j"
  shows "aircraft_atmosphere_at lm inn i (aircraft_atmosphere_at lm inn j a) = aircraft_atmosphere_at lm inn j (aircraft_atmosphere_at lm inn i a)"
    "aircraft_aerodynamics_at inn i (aircraft_atmosphere_at lm inn j a) = aircraft_atmosphere_at lm inn j (aircraft_aerodynamics_at inn i a)"
    "aircraft_propulsion_at inn i (aircraft_atmosphere_at lm inn j a) = aircraft_atmosphere_at lm inn j (aircraft_propulsion_at inn i a)"
    "aircraft_integrate_at lm inn i (aircraft_atmosphere_at lm inn j a) = aircraft_atmosphere_at lm inn j (aircraft_integrate_at lm inn i a)"
    "aircraft_aerodynamics_at inn i (aircraft_aerodynamics_at inn j a) = aircraft_aerodynamics_at inn j (aircraft_aerodynamics_at inn i a)"
    "aircraft_propulsion_at inn i (aircraft_aerodynamics_at inn j a) = aircraft_aerodynamics_at inn j (aircraft_propulsion_at inn i a)"
    "aircraft_integrate_at lm inn i (aircraft_aerodynamics_at inn j a) = aircraft_aerodynamics_at inn j (aircraft_integrate_at lm inn i a)"
    "aircraft_propulsion_at inn i (aircraft_propulsion_at inn j a) = aircraft_propulsion_at inn j (aircraft_propulsion_at inn i a)"
    "aircraft_integrate_at lm inn i (aircraft_propulsion_at inn j a) = aircraft_propulsion_at inn j (aircraft_integrate_at lm inn i a)"
    "aircraft_integrate_at lm inn i (aircraft_integrate_at lm inn j a) = aircraft_integrate_at lm inn j (aircraft_integrate_at lm inn i a)"
  using assms by (simp_all add: aircraft_at_defs list_update_swap)

lemma run_stage_commute:
  assumes "step_key a \<noteq> step_key b"
  shows "run_stage lm inn a (run_stage lm inn b w) = run_stage lm inn b (run_stage lm inn a w)"
proof -
  obtain s i where a: "a = (s, i)" by (cases a)
  obtain s' j where b: "b = (s', j)" by (cases b)
  show ?thesis
  proof (cases "stage_chain s = stage_chain s'")
    case True
    then have "i \<noteq> j" "j \<noteq> i" using assms by (auto simp: a b step_key_def)
    with True show ?thesis unfolding a b
      by (cases s; cases s') (simp_all add: vehicle_steps_commute npc_steps_commute aircraft_steps_commute)
  next
    case False
    then show ?thesis unfolding a b by (cases s; cases s') simp_all
  qed
qed

interpretation frame: independent_steps step_key "run_stage lm inn"
  by unfold_locales (rule run_stage_commute)

section \<open>Which steps a batch consists of\<close>

abbreviation steps_at :: "chain \<Rightarrow> nat \<Rightarrow> (stage \<times> nat) list \<Rightarrow> (stage \<times> nat) list" where
  "steps_at c i ss \<equiv> filter (\<lambda>s. step_key s = (c, i)) ss"

definition all_stages :: "chain \<Rightarrow> nat \<Rightarrow> (stage \<times> nat) list" where
  "all_stages c i = map (\<lambda>st. (st, i)) (chain_stages c)"

lemma chain_stages_chain: "st \<in> set (chain_stages c) \<Longrightarrow> stage_chain st = c"
  by (cases c) auto

lemma filter_upt_eq: "filter (\<lambda>x. x = i) [b..<e] = (if b \<le> i \<and> i < e then [i] else [])"
  by (induction e) auto

lemma steps_at_program:
  "steps_at c' i (chain_program c b e) = (if c' = c \<and> b \<le> i \<and> i < e then all_stages c i else [])"
proof -
  have f: "steps_at c' i (map (Pair st) [b..<e]) = (if stage_chain st = c' \<and> b \<le> i \<and> i < e then [(st, i)] else [])" for st
    using filter_upt_eq [of i b e] by (cases "stage_chain st = c'") (simp_all add: filter_map o_def step_key_def)
  have "steps_at c' i (concat (map (\<lambda>st. map (Pair st) [b..<e]) ss)) =
      (if c' = c \<and> b \<le> i \<and> i < e then map (\<lambda>st. (st, i)) ss else [])"
    if "\<forall>st \<in> set ss. stage_chain st = c" for ss
    using that by (induction ss) (auto simp: f)
  then show ?thesis by (simp add: chain_program_def all_stages_def chain_stages_chain)
qed

lemma batch_end_min: "batch_end n b = min (b * kBatchSize + kBatchSize) n"
  by (simp add: batch_end_def Let_def)

lemma batch_holds: "b * kBatchSize \<le> i \<and> i < batch_end n b \<longleftrightarrow> i div kBatchSize = b \<and> i < n"
proof -
  have "b * kBatchSize \<le> i \<and> i < b * kBatchSize + kBatchSize \<longleftrightarrow> i div kBatchSize = b"
    unfolding kBatchSize_def by (intro iffI conjI; linarith)
  then show ?thesis by (auto simp: batch_end_min)
qed

lemma steps_at_batch:
  "steps_at c' i (batch_program c n b) = (if c' = c \<and> i div kBatchSize = b \<and> i < n then all_stages c i else [])"
  by (simp add: batch_program_def steps_at_program batch_holds)

lemma batch_in_range: "i < n \<Longrightarrow> i div kBatchSize < batch_count_for n"
  unfolding batch_count_for_def kBatchSize_def by linarith

lemma program_chain: "s \<in> set (batch_program c n b) \<Longrightarrow> stage_chain (fst s) = c"
  by (auto simp: batch_program_def chain_program_def chain_stages_chain)

lemma length_batch: "length (batch_program c n b) \<le> 128"
proof -
  have "length (chain_stages c) \<le> 4" by (cases c) simp_all
  moreover have "batch_end n b - b * kBatchSize \<le> 32" by (simp add: batch_end_min kBatchSize_def)
  ultimately have "length (chain_stages c) * (batch_end n b - b * kBatchSize) \<le> 4 * 32" by (rule mult_le_mono)
  then show ?thesis
    by (simp add: batch_program_def chain_program_def length_concat o_def sum_list_triv)
qed

section \<open>A frame executes every step exactly once\<close>

text \<open>
  \<open>tr\<close> is the sequence of the steps so far. The steps of an entity whose batch is claimed are in it or
  still in the program of one claimant, in order; those of the other entities are nowhere.
\<close>

definition entity_inv :: "WorldState \<Rightarrow> (stage \<times> nat) list \<Rightarrow> frame_state \<Rightarrow> chain \<Rightarrow> nat \<Rightarrow> bool" where
  "entity_inv inn tr f c i \<longleftrightarrow>
     (if i < chain_size c inn \<and> i div kBatchSize < fr_cursor f c
      then \<exists>t. steps_at c i tr @ steps_at c i (fr_program f c t) = all_stages c i \<and>
             (\<forall>t'. t' \<noteq> t \<longrightarrow> steps_at c i (fr_program f c t') = [])
      else steps_at c i tr = [] \<and> (\<forall>t. steps_at c i (fr_program f c t) = []))"

definition frame_inv :: "libm \<Rightarrow> WorldState \<Rightarrow> WorldState \<Rightarrow> (stage \<times> nat) list \<Rightarrow> frame_state \<Rightarrow> bool" where
  "frame_inv lm inn out tr f \<longleftrightarrow>
     fr_out f = fold (run_stage lm inn) tr out \<and>
     (\<forall>c i. entity_inv inn tr f c i) \<and>
     (\<forall>c t. \<forall>s \<in> set (fr_program f c t). stage_chain (fst s) = c) \<and>
     (\<forall>c t. (c, t) \<in> fr_left f \<longrightarrow> fr_program f c t = [] \<and> batch_count_for (chain_size c inn) \<le> fr_cursor f c)"

lemma frame_start_inv: "frame_inv lm inn out [] (frame_start out)"
  by (simp add: frame_inv_def entity_inv_def frame_start_def)

lemma entity_inv_same:
  assumes "entity_inv inn tr f c i" "steps_at c i tr' = steps_at c i tr"
    "\<And>t. steps_at c i (fr_program f' c t) = steps_at c i (fr_program f c t)"
    "i < chain_size c inn \<Longrightarrow> (i div kBatchSize < fr_cursor f' c) = (i div kBatchSize < fr_cursor f c)"
  shows "entity_inv inn tr' f' c i"
proof (cases "i < chain_size c inn")
  case True
  from assms(4) [OF this] show ?thesis using assms(1) unfolding entity_inv_def assms(2,3) by simp
next
  case False
  then show ?thesis using assms(1) unfolding entity_inv_def assms(2,3) by simp
qed

lemma run_step_inv:
  assumes "frame_inv lm inn out tr f" "fr_program f c t = s # rest"
    "f' = f\<lparr>fr_out := run_stage lm inn s (fr_out f), fr_program := (fr_program f)(c := (fr_program f c)(t := rest))\<rparr>"
  shows "frame_inv lm inn out (tr @ [s]) f'"
proof -
  have f: "fr_out f = fold (run_stage lm inn) tr out" "\<And>c i. entity_inv inn tr f c i"
      "\<And>c t s. s \<in> set (fr_program f c t) \<Longrightarrow> stage_chain (fst s) = c"
      "\<And>c t. (c, t) \<in> fr_left f \<Longrightarrow> fr_program f c t = [] \<and> batch_count_for (chain_size c inn) \<le> fr_cursor f c"
    using assms(1) by (auto simp: frame_inv_def)
  have c: "stage_chain (fst s) = c" by (rule f(3) [of s c t]) (simp add: assms(2))
  have p: "fr_program f' c' t' = (if c' = c \<and> t' = t then rest else fr_program f c' t')" for c' t'
    by (simp add: assms(3))
  have e: "entity_inv inn (tr @ [s]) f' c' i" for c' i
  proof (cases "(c', i) = step_key s")
    case True
    then have k: "c' = c" "step_key s = (c, i)" using c by (auto simp: step_key_def)
    have h: "steps_at c i (fr_program f c t) = s # steps_at c i rest" by (simp add: assms(2) k(2))
    then have claimed: "i < chain_size c inn \<and> i div kBatchSize < fr_cursor f c"
      using f(2) [of c i] unfolding entity_inv_def by (metis list.distinct(1))
    then obtain u where u: "steps_at c i tr @ steps_at c i (fr_program f c u) = all_stages c i"
        "\<And>t'. t' \<noteq> u \<Longrightarrow> steps_at c i (fr_program f c t') = []"
      using f(2) [of c i] unfolding entity_inv_def by auto
    have "u = t" using u(2) [of t] h by auto
    then have "steps_at c i (tr @ [s]) @ steps_at c i (fr_program f' c t) = all_stages c i"
        "\<And>t'. t' \<noteq> t \<Longrightarrow> steps_at c i (fr_program f' c t') = []"
      using u h by (simp_all add: p k(2))
    moreover have "fr_cursor f' = fr_cursor f" by (simp add: assms(3))
    ultimately show ?thesis unfolding k(1) entity_inv_def using claimed by auto
  next
    case False
    then have "step_key s \<noteq> (c', i)" by auto
    then show ?thesis
      by (intro entity_inv_same [OF f(2)]) (auto simp: p assms(2,3))
  qed
  show ?thesis unfolding frame_inv_def
  proof (intro conjI allI ballI impI)
    show "fr_out f' = fold (run_stage lm inn) (tr @ [s]) out" by (simp add: assms(3) f(1))
    show "stage_chain (fst s') = c'" if "s' \<in> set (fr_program f' c' t')" for c' t' s'
      using that f(3) [of s' c' t'] by (auto simp: p assms(2) split: if_splits)
    show "fr_program f' c' t' = []" "batch_count_for (chain_size c' inn) \<le> fr_cursor f' c'" if "(c', t') \<in> fr_left f'" for c' t'
      using that f(4) [of c' t'] by (auto simp: p assms(2,3))
  qed (rule e)
qed

lemma claim_inv:
  assumes "frame_inv lm inn out tr f" "fr_program f c t = []" "(c, t) \<notin> fr_left f"
    "b = fr_cursor f c" "b < batch_count_for (chain_size c inn)"
    "f' = f\<lparr>fr_cursor := (fr_cursor f)(c := b + 1),
            fr_program := (fr_program f)(c := (fr_program f c)(t := batch_program c (chain_size c inn) b))\<rparr>"
  shows "frame_inv lm inn out tr f'"
proof -
  have f: "fr_out f = fold (run_stage lm inn) tr out" "\<And>c i. entity_inv inn tr f c i"
      "\<And>c t s. s \<in> set (fr_program f c t) \<Longrightarrow> stage_chain (fst s) = c"
      "\<And>c t. (c, t) \<in> fr_left f \<Longrightarrow> fr_program f c t = [] \<and> batch_count_for (chain_size c inn) \<le> fr_cursor f c"
    using assms(1) by (auto simp: frame_inv_def)
  have p: "fr_program f' c' t' = (if c' = c \<and> t' = t then batch_program c (chain_size c inn) b else fr_program f c' t')" for c' t'
    by (simp add: assms(6))
  have e: "entity_inv inn tr f' c' i" for c' i
  proof (cases "c' = c \<and> i div kBatchSize = b \<and> i < chain_size c inn")
    case True
    then have k: "c' = c" "i div kBatchSize = b" "i < chain_size c inn" by simp_all
    have "steps_at c i tr = []" "steps_at c i (fr_program f c t') = []" for t'
      using f(2) [of c i] k by (auto simp: entity_inv_def assms(4))
    then show ?thesis unfolding entity_inv_def k(1)
      using k by (auto simp: p assms(6) steps_at_batch intro!: exI [of _ t])
  next
    case False
    then have "steps_at c' i (fr_program f' c' t') = steps_at c' i (fr_program f c' t')" for t'
      by (auto simp: p assms(2) steps_at_batch)
    moreover have "(i div kBatchSize < fr_cursor f' c') = (i div kBatchSize < fr_cursor f c')" if "i < chain_size c' inn"
      using False that by (auto simp: assms(4,6))
    ultimately show ?thesis by (intro entity_inv_same [OF f(2)]) simp_all
  qed
  show ?thesis unfolding frame_inv_def
  proof (intro conjI allI ballI impI)
    show "fr_out f' = fold (run_stage lm inn) tr out" by (simp add: assms(6) f(1))
    show "stage_chain (fst s') = c'" if "s' \<in> set (fr_program f' c' t')" for c' t' s'
      using that f(3) [of s' c' t'] program_chain by (auto simp: p split: if_splits)
    show "fr_program f' c' t' = []" "batch_count_for (chain_size c' inn) \<le> fr_cursor f' c'" if "(c', t') \<in> fr_left f'" for c' t'
      using that f(4) [of c' t'] assms(3-5) by (auto simp: p assms(6))
  qed (rule e)
qed

lemma leave_inv:
  assumes "frame_inv lm inn out tr f" "fr_program f c t = []"
    "batch_count_for (chain_size c inn) \<le> fr_cursor f c"
    "f' = f\<lparr>fr_cursor := (fr_cursor f)(c := fr_cursor f c + 1), fr_left := insert (c, t) (fr_left f)\<rparr>"
  shows "frame_inv lm inn out tr f'"
proof -
  have "entity_inv inn tr f' c' i" for c' i
  proof (rule entity_inv_same [of inn tr f c' i])
    show "entity_inv inn tr f c' i" using assms(1) by (simp add: frame_inv_def)
    show "(i div kBatchSize < fr_cursor f' c') = (i div kBatchSize < fr_cursor f c')" if "i < chain_size c' inn"
      using batch_in_range [OF that] assms(3) by (auto simp: assms(4))
  qed (simp_all add: assms(4))
  then show ?thesis using assms unfolding frame_inv_def by auto
qed

lemma frame_step_inv:
  assumes "frame_inv lm inn out tr f"
  shows "\<exists>tr'. frame_inv lm inn out tr' (frame_step lm inn ct f)"
proof -
  obtain c t where ct: "ct = (c, t)" by (cases ct)
  show ?thesis
  proof (cases "(c, t) \<in> fr_left f")
    case True
    then show ?thesis using assms by (auto simp: frame_step_def ct)
  next
    case False
    show ?thesis
    proof (cases "fr_program f c t")
      case (Cons s rest)
      then show ?thesis using run_step_inv [OF assms Cons refl] False by (auto simp: frame_step_def ct)
    next
      case Nil
      show ?thesis
      proof (cases "batch_count_for (chain_size c inn) \<le> fr_cursor f c")
        case True
        then show ?thesis using leave_inv [OF assms Nil True refl] Nil False by (auto simp: frame_step_def ct Let_def)
      next
        case le: False
        then show ?thesis using claim_inv [OF assms Nil False refl _ refl] Nil False
          by (auto simp: frame_step_def ct Let_def)
      qed
    qed
  qed
qed

lemma frame_run_inv: "frame_inv lm inn out tr f \<Longrightarrow> \<exists>tr'. frame_inv lm inn out tr' (fold (frame_step lm inn) cts f)"
proof (induction cts arbitrary: tr f)
  case (Cons ct cts)
  obtain tr' where "frame_inv lm inn out tr' (frame_step lm inn ct f)" using frame_step_inv [OF Cons.prems] by blast
  from Cons.IH [OF this] show ?case by simp
qed auto

end
