(* ===== verification/Engine_Determinism.thy ===== *)
theory Engine_Determinism
  imports Engine_Steps
begin

text \<open>
  The frame on the task runtime is the serial frame, bit for bit: both execute the same steps of every
  entity in the same order. A claimant needs at most 129 turns per batch (one claim and at most four
  stages of 32 entities) and one to leave.
\<close>

section \<open>The serial frame\<close>

definition serial_program :: "WorldState \<Rightarrow> chain \<Rightarrow> (stage \<times> nat) list" where
  "serial_program inn c = concat (map (batch_program c (chain_size c inn)) [0..<batch_count_for (chain_size c inn)])"

definition serial_steps :: "WorldState \<Rightarrow> (stage \<times> nat) list" where
  "serial_steps inn = serial_program inn VehicleChain @ serial_program inn NpcChain @ serial_program inn AircraftChain"

lemma steps_at_serial_program:
  "steps_at c' i (serial_program inn c) = (if c' = c \<and> i < chain_size c inn then all_stages c i else [])"
proof -
  have "steps_at c' i (concat (map (batch_program c n) [0..<m])) =
      (if c' = c \<and> i < n \<and> i div kBatchSize < m then all_stages c i else [])" for n m
    by (induction m) (auto simp: steps_at_batch less_Suc_eq)
  then show ?thesis using batch_in_range by (auto simp: serial_program_def)
qed

lemma steps_at_serial: "steps_at c i (serial_steps inn) = (if i < chain_size c inn then all_stages c i else [])"
  by (cases c) (simp_all add: serial_steps_def steps_at_serial_program)

lemma fold_stage_vehicles:
  assumes "\<And>i out. run_stage lm inn (st, i) out = out\<lparr>ws_vehicles := g i (ws_vehicles out)\<rparr>"
  shows "fold (run_stage lm inn) (map (Pair st) is) out = out\<lparr>ws_vehicles := fold g is (ws_vehicles out)\<rparr>"
  by (induction "is" arbitrary: out) (simp_all add: assms)

lemma fold_stage_npcs:
  assumes "\<And>i out. run_stage lm inn (st, i) out = out\<lparr>ws_npcs := g i (ws_npcs out)\<rparr>"
  shows "fold (run_stage lm inn) (map (Pair st) is) out = out\<lparr>ws_npcs := fold g is (ws_npcs out)\<rparr>"
  by (induction "is" arbitrary: out) (simp_all add: assms)

lemma fold_stage_aircraft:
  assumes "\<And>i out. run_stage lm inn (st, i) out = out\<lparr>ws_aircraft := g i (ws_aircraft out)\<rparr>"
  shows "fold (run_stage lm inn) (map (Pair st) is) out = out\<lparr>ws_aircraft := fold g is (ws_aircraft out)\<rparr>"
  by (induction "is" arbitrary: out) (simp_all add: assms)

text \<open>A fused chain is the program of its steps.\<close>

lemma chain_is_program:
  "update_vehicle_chain lm inn b e out = fold (run_stage lm inn) (chain_program VehicleChain b e) out"
  "0 < npcs_size (ws_npcs inn) \<Longrightarrow> update_npc_chain inn b e out = fold (run_stage lm inn) (chain_program NpcChain b e) out"
  "update_aircraft_chain lm inn b e out = fold (run_stage lm inn) (chain_program AircraftChain b e) out"
  by (simp_all add: chain_program_def fold_stage_vehicles fold_stage_npcs fold_stage_aircraft
      update_vehicle_chain_def update_vehicle_lod_def update_vehicle_physics_def
      update_npc_chain_def update_npc_lod_def update_npc_perception_def update_npc_decision_def update_npc_movement_def
      update_aircraft_chain_def update_aircraft_atmosphere_def update_aircraft_aerodynamics_def
      update_aircraft_propulsion_def update_aircraft_integrate_def)

lemma run_batched_program:
  assumes "\<And>b e out. body b e out = fold (run_stage lm inn) (chain_program c b e) out"
  shows "run_batched (chain_size c inn) body out = fold (run_stage lm inn) (serial_program inn c) out"
proof -
  have "fold (\<lambda>b. body (b * kBatchSize) (batch_end n b)) bs out = fold (run_stage lm inn) (concat (map (batch_program c n) bs)) out" for n bs
    by (induction bs arbitrary: out) (simp_all add: assms batch_program_def)
  then show ?thesis by (simp add: run_batched_def serial_program_def)
qed

lemma run_batched_none: "run_batched 0 body out = out"
  by (simp add: run_batched_def batch_count_for_def kBatchSize_def)

lemma serial_program_none: "chain_size c inn = 0 \<Longrightarrow> serial_program inn c = []"
  by (simp add: serial_program_def batch_count_for_def kBatchSize_def)

lemma tick_serial_steps:
  "tick_serial lm sim =
     finish_tick (sim\<lparr>sim_world := set_next
       (fold (run_stage lm (w_current (sim_world sim))) (serial_steps (w_current (sim_world sim))) (prepared_next sim))
       (sim_world sim)\<rparr>)"
proof -
  let ?inn = "w_current (sim_world sim)"
  have n: "run_batched (chain_size NpcChain ?inn) (update_npc_chain ?inn) out =
      fold (run_stage lm ?inn) (serial_program ?inn NpcChain) out" for out
  proof (cases "npcs_size (ws_npcs ?inn) = 0")
    case True
    then show ?thesis by (simp add: run_batched_none serial_program_none)
  next
    case False
    then show ?thesis by (intro run_batched_program chain_is_program) simp
  qed
  have "run_batched (chain_size VehicleChain ?inn) (update_vehicle_chain lm ?inn) out =
      fold (run_stage lm ?inn) (serial_program ?inn VehicleChain) out"
    "run_batched (chain_size AircraftChain ?inn) (update_aircraft_chain lm ?inn) out =
      fold (run_stage lm ?inn) (serial_program ?inn AircraftChain) out" for out
    by (rule run_batched_program, rule chain_is_program)+
  with n show ?thesis by (simp add: tick_serial_def Let_def serial_steps_def)
qed

section \<open>The parallel frame\<close>

lemma idle_program: "(\<forall>ct \<in> set cts. ct \<noteq> (c, t)) \<Longrightarrow>
    fr_program (fold (frame_step lm inn) cts f) c t = fr_program f c t"
proof (induction cts arbitrary: f)
  case (Cons ct cts)
  obtain c' t' where ct: "ct = (c', t')" by (cases ct)
  have "fr_program (frame_step lm inn ct f) c t = fr_program f c t"
    using Cons.prems by (auto simp: frame_step_def ct Let_def split: list.splits)
  then show ?case using Cons by simp
qed simp

lemma frame_complete:
  assumes "frame_inv lm inn out tr f"
    "\<And>t. t < stage_claimants w (chain_size c inn) \<Longrightarrow> (c, t) \<in> fr_left f"
    "\<And>t. \<not> t < stage_claimants w (chain_size c inn) \<Longrightarrow> fr_program f c t = []"
  shows "steps_at c i tr = (if i < chain_size c inn then all_stages c i else [])"
proof -
  have inv: "entity_inv inn tr f c i" "\<And>t. (c, t) \<in> fr_left f \<Longrightarrow>
      fr_program f c t = [] \<and> batch_count_for (chain_size c inn) \<le> fr_cursor f c"
    using assms(1) by (auto simp: frame_inv_def)
  have p: "fr_program f c t = []" for t using inv(2) assms(2,3) by blast
  have "i div kBatchSize < fr_cursor f c" if "i < chain_size c inn"
  proof -
    have "0 < batch_count_for (chain_size c inn)" using batch_in_range [OF that] by simp
    then have "0 < stage_claimants w (chain_size c inn)"
      using that by (auto simp: stage_claimants_def Let_def unat_gt_0)
    then have "batch_count_for (chain_size c inn) \<le> fr_cursor f c" using inv(2) assms(2) by blast
    then show ?thesis using batch_in_range [OF that] by simp
  qed
  then show ?thesis using inv(1) by (auto simp: entity_inv_def p)
qed

lemma tick_is_serial:
  assumes "tick lm workers schedule sim = Some sim'"
  shows "sim_world sim' = sim_world (tick_serial lm sim)"
proof -
  let ?inn = "w_current (sim_world sim)"
  let ?k = "\<lambda>c. stage_claimants workers (chain_size c ?inn)"
  let ?cts = "filter (\<lambda>(c, t). t < ?k c) schedule"
  let ?f = "fold (frame_step lm ?inn) ?cts (frame_start (prepared_next sim))"
  obtain tr where tr: "frame_inv lm ?inn (prepared_next sim) tr ?f"
    using frame_run_inv [OF frame_start_inv] by blast
  have all: "list_all (\<lambda>c. list_all (\<lambda>t. (c, t) \<in> fr_left ?f) [0..<?k c]) [VehicleChain, NpcChain, AircraftChain]"
    and s: "sim_world sim' = advance_tick (swap_buffers (set_next (fr_out ?f) (sim_world sim)))"
    using assms by (auto simp: tick_def Let_def finish_tick_def split: if_splits)
  have left: "(c, t) \<in> fr_left ?f" if "t < ?k c" for c t
    using all that by (cases c) (simp_all add: list_all_iff)
  have idle: "fr_program ?f c t = []" if "\<not> t < ?k c" for c t
  proof -
    have "\<forall>ct \<in> set ?cts. ct \<noteq> (c, t)" using that by auto
    from idle_program [OF this] show ?thesis by (simp add: frame_start_def)
  qed
  have "fold (run_stage lm ?inn) tr (prepared_next sim) = fold (run_stage lm ?inn) (serial_steps ?inn) (prepared_next sim)"
  proof (rule frame.fold_same_order)
    fix k :: "chain \<times> nat"
    obtain c i where k: "k = (c, i)" by (cases k)
    show "filter (\<lambda>s. step_key s = k) tr = filter (\<lambda>s. step_key s = k) (serial_steps ?inn)"
      unfolding k steps_at_serial by (rule frame_complete [OF tr left idle])
  qed
  moreover have "fr_out ?f = fold (run_stage lm ?inn) tr (prepared_next sim)" using tr by (simp add: frame_inv_def)
  ultimately show ?thesis unfolding s by (simp add: tick_serial_steps finish_tick_def)
qed

lemma tick_serial_world: "sim_world sim = sim_world sim' \<Longrightarrow> sim_world (tick_serial lm sim) = sim_world (tick_serial lm sim')"
  by (simp add: tick_serial_steps finish_tick_def prepared_next_def)

lemma run_ticks_serial:
  "run_ticks lm frames sim = Some sim' \<Longrightarrow> sim_world sim' = sim_world ((tick_serial lm ^^ length frames) sim)"
proof (induction frames arbitrary: sim)
  case (Cons fr frames)
  obtain workers schedule where fr: "fr = (workers, schedule)" by (cases fr)
  then obtain s1 where s1: "tick lm workers schedule sim = Some s1" "run_ticks lm frames s1 = Some sim'"
    using Cons.prems by (auto split: bind_splits)
  have e: "sim_world ((tick_serial lm ^^ n) s1) = sim_world ((tick_serial lm ^^ n) (tick_serial lm sim))" for n
    using tick_is_serial [OF s1(1)] by (induction n) (auto intro: tick_serial_world)
  show ?case using Cons.IH [OF s1(2)] e [of "length frames"] by (simp only: length_Cons funpow_Suc_right o_apply)
qed simp

section \<open>A frame ends\<close>

definition turn_budget :: "WorldState \<Rightarrow> frame_state \<Rightarrow> chain \<Rightarrow> nat \<Rightarrow> nat \<Rightarrow> bool" where
  "turn_budget inn f c t k \<longleftrightarrow> (c, t) \<in> fr_left f \<or>
     k + length (fr_program f c t) + 129 * (batch_count_for (chain_size c inn) - fr_cursor f c)
       \<le> 129 * batch_count_for (chain_size c inn)"

lemma turn_budget_own:
  assumes "turn_budget inn f c t k"
  shows "turn_budget inn (frame_step lm inn (c, t) f) c t (Suc k)"
proof (cases "(c, t) \<in> fr_left f")
  case True
  then show ?thesis by (simp add: turn_budget_def frame_step_def)
next
  case False
  then have b: "k + length (fr_program f c t) + 129 * (batch_count_for (chain_size c inn) - fr_cursor f c)
       \<le> 129 * batch_count_for (chain_size c inn)" using assms by (simp add: turn_budget_def)
  show ?thesis
  proof (cases "fr_program f c t")
    case (Cons s rest)
    then show ?thesis using b False by (simp add: turn_budget_def frame_step_def)
  next
    case Nil
    then show ?thesis using b False length_batch [of c "chain_size c inn" "fr_cursor f c"]
      by (auto simp: turn_budget_def frame_step_def Let_def)
  qed
qed

lemma turn_budget_other:
  assumes "turn_budget inn f c t k" "ct \<noteq> (c, t)"
  shows "turn_budget inn (frame_step lm inn ct f) c t k"
proof -
  obtain c' t' where ct: "ct = (c', t')" by (cases ct)
  show ?thesis using assms
    by (auto simp: ct turn_budget_def frame_step_def Let_def split: list.splits)
qed

lemma turn_budget_run:
  "turn_budget inn f c t k \<Longrightarrow> turn_budget inn (fold (frame_step lm inn) cts f) c t (k + count_list cts (c, t))"
proof (induction cts arbitrary: f k)
  case (Cons ct cts)
  show ?case
  proof (cases "ct = (c, t)")
    case True
    then show ?thesis using Cons.IH [OF turn_budget_own [OF Cons.prems]] by simp
  next
    case False
    then show ?thesis using Cons.IH [OF turn_budget_other [OF Cons.prems False]] by simp
  qed
qed simp

lemma count_list_filter: "P x \<Longrightarrow> count_list (filter P xs) x = count_list xs x"
  by (induction xs) auto

lemma tick_returns:
  assumes "\<And>c t. t < stage_claimants workers (chain_size c (w_current (sim_world sim))) \<Longrightarrow>
    129 * batch_count_for (chain_size c (w_current (sim_world sim))) < count_list schedule (c, t)"
  shows "tick lm workers schedule sim \<noteq> None"
proof -
  let ?inn = "w_current (sim_world sim)"
  let ?k = "\<lambda>c. stage_claimants workers (chain_size c ?inn)"
  let ?cts = "filter (\<lambda>(c, t). t < ?k c) schedule"
  let ?f = "fold (frame_step lm ?inn) ?cts (frame_start (prepared_next sim))"
  have "(c, t) \<in> fr_left ?f" if "t < ?k c" for c t
  proof -
    have "turn_budget ?inn (frame_start (prepared_next sim)) c t 0"
      by (simp add: turn_budget_def frame_start_def)
    from turn_budget_run [OF this, of lm ?cts] show ?thesis
      using assms [OF that] count_list_filter [of "\<lambda>(c, t). t < ?k c" "(c, t)" schedule] that
      by (auto simp: turn_budget_def)
  qed
  then show ?thesis by (simp add: tick_def Let_def list_all_iff)
qed

section \<open>Sizes\<close>

fun scene_count :: "SceneSpec \<Rightarrow> chain \<Rightarrow> nat" where
  "scene_count scene VehicleChain = scene_vehicles scene"
| "scene_count scene NpcChain = scene_npcs scene"
| "scene_count scene AircraftChain = scene_aircraft scene"

definition sized :: "SceneSpec \<Rightarrow> Simulation \<Rightarrow> bool" where
  "sized scene sim \<longleftrightarrow> (\<forall>c. chain_size c (w_buffer0 (sim_world sim)) = scene_count scene c \<and>
     chain_size c (w_buffer1 (sim_world sim)) = scene_count scene c)"

lemma run_stage_size: "chain_size c (run_stage lm inn s out) = chain_size c out"
proof -
  obtain st i where "s = (st, i)" by (cases s)
  then show ?thesis by (cases c; cases st)
    (simp_all add: vehicles_size_def npcs_size_def aircraft_size_def vehicle_lod_at_def vehicle_physics_at_def
      npc_at_defs aircraft_at_defs split: prod.splits)
qed

lemma run_stages_size: "chain_size c (fold (run_stage lm inn) ss out) = chain_size c out"
  by (induction ss arbitrary: out) (simp_all add: run_stage_size)

lemma fold_size: "(\<And>i a. size_of (g i a) = size_of a) \<Longrightarrow> size_of (fold g xs a) = size_of a"
  by (induction xs arbitrary: a) simp_all

lemma simulation_new_sized: "sized scene (simulation_new scene seed)"
proof -
  have "vehicles_size (fold (seed_vehicle seed) xs a) = vehicles_size a" for xs a
    by (rule fold_size) (simp add: vehicles_size_def seed_vehicle_def Let_def)
  moreover have "npcs_size (fold (seed_npc seed) xs a) = npcs_size a" for xs a
    by (rule fold_size) (simp add: npcs_size_def seed_npc_def Let_def)
  moreover have "aircraft_size (fold (seed_aircraft seed) xs a) = aircraft_size a" for xs a
    by (rule fold_size) (simp add: aircraft_size_def seed_aircraft_def Let_def)
  ultimately have "chain_size c (seed_initial_state seed (world_resized v n a)) = (case c of VehicleChain \<Rightarrow> v | NpcChain \<Rightarrow> n | AircraftChain \<Rightarrow> a)"
    for c v n a
    by (cases c) (simp_all add: seed_initial_state_def world_resized_def vehicles_resized_def npcs_resized_def
        aircraft_resized_def vehicles_size_def npcs_size_def aircraft_size_def)
  then show ?thesis unfolding sized_def by (intro allI, case_tac c) (simp_all add: simulation_new_def world_new_def Let_def)
qed

lemma chain_size_player: "chain_size c (out\<lparr>ws_player_position := p\<rparr>) = chain_size c out"
  by (cases c) simp_all

lemma tick_serial_sized: "sized scene sim \<Longrightarrow> sized scene (tick_serial lm sim)"
  by (cases "w_swapped (sim_world sim)")
    (auto simp: tick_serial_steps sized_def finish_tick_def swap_buffers_def advance_tick_def set_next_def
      run_stages_size prepared_next_def w_next_def chain_size_player)

lemma sized_current: "sized scene sim \<Longrightarrow> chain_size c (w_current (sim_world sim)) = scene_count scene c"
  by (simp add: sized_def w_current_def)

lemma sized_world: "sim_world sim = sim_world sim' \<Longrightarrow> sized scene sim = sized scene sim'"
  by (simp add: sized_def)

text \<open>A schedule that gives every claimant of a frame more turns than it can need.\<close>

definition fair_frame :: "SceneSpec \<Rightarrow> u32 \<times> (chain \<times> nat) list \<Rightarrow> bool" where
  "fair_frame scene fr \<longleftrightarrow>
     (\<forall>c t. t < stage_claimants (fst fr) (scene_count scene c) \<longrightarrow>
        129 * batch_count_for (scene_count scene c) < count_list (snd fr) (c, t))"

lemma run_ticks_return:
  "sized scene sim \<Longrightarrow> (\<forall>fr \<in> set frames. fair_frame scene fr) \<Longrightarrow> run_ticks lm frames sim \<noteq> None"
proof (induction frames arbitrary: sim)
  case (Cons fr frames)
  obtain workers schedule where fr: "fr = (workers, schedule)" by (cases fr)
  have "tick lm workers schedule sim \<noteq> None"
    by (rule tick_returns) (use Cons.prems in \<open>simp add: fr fair_frame_def sized_current\<close>)
  then obtain s1 where s1: "tick lm workers schedule sim = Some s1" by blast
  have "sized scene s1"
    using tick_serial_sized [OF Cons.prems(1)] sized_world [OF tick_is_serial [OF s1]] by simp
  then show ?case using Cons by (simp add: fr s1)
qed simp

section \<open>Properties\<close>

text \<open>
  C6. The simulation is deterministic: however many workers each frame is run on, and however the claims
  and the entity updates of the concurrent tasks are interleaved, a run of frames that returns leaves
  the world, its tick count and its hash bit for bit as the same number of serial ticks does; and it
  returns under every schedule that keeps running all the tasks.
\<close>

theorem frame_deterministic:
  "(\<forall>sim. run_ticks lm frames (simulation_new scene seed) = Some sim \<longrightarrow>
      sim_world sim = sim_world ((tick_serial lm ^^ length frames) (simulation_new scene seed)) \<and>
      state_hash sim = state_hash ((tick_serial lm ^^ length frames) (simulation_new scene seed))) \<and>
   ((\<forall>fr \<in> set frames. fair_frame scene fr) \<longrightarrow> run_ticks lm frames (simulation_new scene seed) \<noteq> None)"
  using run_ticks_serial run_ticks_return [OF simulation_new_sized] by (auto simp: state_hash_def)

lemma count_list_replicate: "count_list (replicate n x) x = n"
  by (induction n) simp_all

lemma count_list_concat_replicate: "count_list (concat (replicate n xs)) x = n * count_list xs x"
  by (induction n) simp_all

theorem frame_deterministic_witness:
  "\<exists>sim. run_ticks \<lparr>l_sin = id, l_cos = id, l_pow = (\<lambda>x _. x)\<rparr>
       [(2, concat (replicate 300 [(NpcChain, 0), (NpcChain, 1)])), (1, replicate 300 (NpcChain, 0))]
       (simulation_new \<lparr>scene_name = ''two batches'', scene_vehicles = 0, scene_npcs = 33, scene_aircraft = 0\<rparr> 42) = Some sim \<and>
     state_hash sim = state_hash ((tick_serial \<lparr>l_sin = id, l_cos = id, l_pow = (\<lambda>x _. x)\<rparr> ^^ 2)
       (simulation_new \<lparr>scene_name = ''two batches'', scene_vehicles = 0, scene_npcs = 33, scene_aircraft = 0\<rparr> 42))"
proof -
  let ?scene = "\<lparr>scene_name = ''two batches'', scene_vehicles = 0, scene_npcs = 33, scene_aircraft = 0\<rparr>"
  let ?lm = "\<lparr>l_sin = id, l_cos = id, l_pow = (\<lambda>x _. x)\<rparr> :: libm"
  let ?frames = "[(2, concat (replicate 300 [(NpcChain, 0), (NpcChain, 1)])), (1, replicate 300 (NpcChain, 0))] ::
    (u32 \<times> (chain \<times> nat) list) list"
  have b: "batch_count_for 33 = 2" by (simp add: batch_count_for_def kBatchSize_def)
  have two: "stage_claimants 2 33 = 2" and one: "stage_claimants 1 33 = 1" and none: "stage_claimants w 0 = 0" for w
    by (simp_all add: stage_claimants_def b)
  have "fair_frame ?scene (2, concat (replicate 300 [(NpcChain, 0), (NpcChain, 1)]))"
    unfolding fair_frame_def
  proof (intro allI)
    fix c t
    show "t < stage_claimants (fst (2, concat (replicate 300 [(NpcChain, 0), (NpcChain, 1)]))) (scene_count ?scene c) \<longrightarrow>
        129 * batch_count_for (scene_count ?scene c) < count_list (snd (2, concat (replicate 300 [(NpcChain, 0), (NpcChain, 1)]))) (c, t)"
      by (cases c) (auto simp: two none b count_list_concat_replicate less_2_cases_iff)
  qed
  moreover have "fair_frame ?scene (1, replicate 300 (NpcChain, 0))"
    unfolding fair_frame_def
  proof (intro allI)
    fix c t
    show "t < stage_claimants (fst (1, replicate 300 (NpcChain, 0 :: nat))) (scene_count ?scene c) \<longrightarrow>
        129 * batch_count_for (scene_count ?scene c) < count_list (snd (1 :: u32, replicate 300 (NpcChain, 0))) (c, t)"
      by (cases c) (auto simp: one none b count_list_replicate)
  qed
  ultimately have "\<forall>fr \<in> set ?frames. fair_frame ?scene fr" by simp
  then have "run_ticks ?lm ?frames (simulation_new ?scene 42) \<noteq> None"
    using conjunct2 [OF frame_deterministic [of ?lm ?frames ?scene 42]] by (rule mp [rotated])
  then obtain sim where sim: "run_ticks ?lm ?frames (simulation_new ?scene 42) = Some sim" by blast
  then have "state_hash sim = state_hash ((tick_serial ?lm ^^ length ?frames) (simulation_new ?scene 42))"
    by (rule frame_deterministic [of ?lm ?frames ?scene 42, THEN conjunct1, THEN spec, THEN mp, THEN conjunct2])
  moreover have "length [x, y] = 2" for x y :: "u32 \<times> (chain \<times> nat) list" by simp
  ultimately have "state_hash sim = state_hash ((tick_serial ?lm ^^ 2) (simulation_new ?scene 42))" by (simp only:)
  with sim show ?thesis by (intro exI conjI)
qed

end
