(* ===== verification/Task_Function.thy ===== *)
theory Task_Function
  imports Api_Types
begin

text \<open>
  \<open>api/TaskFunction.hpp\<close>: the move-only, type-erased callable with inline storage. What matters is the
  lifetime of the callable in the storage, which the class manages by hand: \<open>None\<close> is undefined
  behaviour (a destructor run on raw storage, a call through a null pointer) or a leak (an object
  constructed over a live one).
\<close>

section \<open>Storage\<close>

text \<open>Raw bytes, a live callable, or a live callable that has been moved out of.\<close>

datatype 'f cell = Raw | Live 'f | MovedOut 'f

record 'f task_function =
  tf_storage :: "'f cell"
  tf_invoke :: bool
  tf_manage :: bool

definition tf_new :: "'f task_function" where
  "tf_new = \<lparr>tf_storage = Raw, tf_invoke = False, tf_manage = False\<rparr>"

definition tf_valid :: "'f task_function \<Rightarrow> bool" where
  "tf_valid tf \<longleftrightarrow> tf_invoke tf"

text \<open>\<open>manage_impl\<close>, on the storage it is given: the destructor, and the move construction into \<open>other\<close>.\<close>

fun manage_destroy :: "'f cell \<Rightarrow> 'f cell option" where
  "manage_destroy Raw = None"
| "manage_destroy _ = Some Raw"

fun manage_move_to :: "'f cell \<Rightarrow> 'f cell \<Rightarrow> ('f cell \<times> 'f cell) option" where
  "manage_move_to (Live f) Raw = Some (MovedOut f, Live f)"
| "manage_move_to (MovedOut f) Raw = Some (MovedOut f, MovedOut f)"
| "manage_move_to _ _ = None"

section \<open>Operations\<close>

definition tf_reset :: "'f task_function \<Rightarrow> 'f task_function option" where
  "tf_reset tf =
     map_option (\<lambda>c. tf\<lparr>tf_storage := c, tf_invoke := False, tf_manage := False\<rparr>)
       (if tf_manage tf then manage_destroy (tf_storage tf) else Some (tf_storage tf))"

text \<open>\<open>init\<close>: the constructor of the callable may throw (\<open>None\<close> for the callable), before anything is set.\<close>

definition tf_init :: "'f option \<Rightarrow> 'f task_function \<Rightarrow> ('f task_function \<times> bool) option" where
  "tf_init construct tf =
     (if tf_storage tf \<noteq> Raw then None
      else case construct of
        None \<Rightarrow> Some (tf, False)
      | Some f \<Rightarrow> Some (tf\<lparr>tf_storage := Live f, tf_invoke := True, tf_manage := True\<rparr>, True))"

definition tf_emplace :: "'f option \<Rightarrow> 'f task_function \<Rightarrow> ('f task_function \<times> bool) option" where
  "tf_emplace construct tf = Option.bind (tf_reset tf) (tf_init construct)"

definition tf_move_from :: "'f task_function \<Rightarrow> 'f task_function \<Rightarrow> ('f task_function \<times> 'f task_function) option" where
  "tf_move_from other self =
     map_option
       (\<lambda>(theirs, mine).
          (other\<lparr>tf_storage := theirs, tf_invoke := False, tf_manage := False\<rparr>,
           self\<lparr>tf_storage := mine, tf_invoke := tf_invoke other, tf_manage := tf_manage other\<rparr>))
       (if tf_manage other
        then Option.bind (manage_move_to (tf_storage other) (tf_storage self))
               (\<lambda>(theirs, mine). map_option (\<lambda>theirs. (theirs, mine)) (manage_destroy theirs))
        else Some (tf_storage other, tf_storage self))"

text \<open>The call operator: precondition \<open>valid()\<close>.\<close>

definition tf_target :: "'f task_function \<Rightarrow> 'f option" where
  "tf_target tf =
     (if tf_invoke tf then (case tf_storage tf of Live f \<Rightarrow> Some f | _ \<Rightarrow> None) else None)"

section \<open>Programs over several objects\<close>

text \<open>The objects are named by numbers; an object that does not exist yet is \<open>tf_new\<close>.\<close>

datatype 'f tf_op = TfConstruct nat "'f option" | TfEmplace nat "'f option" | TfMoveConstruct nat nat |
  TfMoveAssign nat nat | TfReset nat | TfDestroy nat

definition tf_assign :: "nat \<Rightarrow> nat \<Rightarrow> (nat \<Rightarrow> 'f task_function) \<Rightarrow> (nat \<Rightarrow> 'f task_function) option" where
  "tf_assign i j s =
     (if i = j then Some s
      else Option.bind (tf_reset (s i)) (\<lambda>self.
        map_option (\<lambda>(other, self). s(i := self, j := other)) (tf_move_from (s j) self)))"

text \<open>A constructor needs an object whose lifetime has not begun, so the old one is destroyed first.\<close>

fun tf_step :: "'f tf_op \<Rightarrow> (nat \<Rightarrow> 'f task_function) \<Rightarrow> (nat \<Rightarrow> 'f task_function) option" where
  "tf_step (TfConstruct i construct) s =
     Option.bind (tf_reset (s i)) (\<lambda>_. map_option (\<lambda>(tf, _). s(i := tf)) (tf_init construct tf_new))"
| "tf_step (TfEmplace i construct) s = map_option (\<lambda>(tf, _). s(i := tf)) (tf_emplace construct (s i))"
| "tf_step (TfMoveConstruct i j) s =
     (if i = j then Some s
      else Option.bind (tf_reset (s i)) (\<lambda>_.
        map_option (\<lambda>(other, self). s(i := self, j := other)) (tf_move_from (s j) tf_new)))"
| "tf_step (TfMoveAssign i j) s = tf_assign i j s"
| "tf_step (TfReset i) s = map_option (\<lambda>tf. s(i := tf)) (tf_reset (s i))"
| "tf_step (TfDestroy i) s = map_option (\<lambda>_. s(i := tf_new)) (tf_reset (s i))"

fun tf_run :: "'f tf_op list \<Rightarrow> (nat \<Rightarrow> 'f task_function) \<Rightarrow> (nat \<Rightarrow> 'f task_function) option" where
  "tf_run [] s = Some s"
| "tf_run (op # ops) s = Option.bind (tf_step op s) (tf_run ops)"

section \<open>What the class promises\<close>

text \<open>Each object holds at most one callable; the operations move it around.\<close>

fun held_step :: "'f tf_op \<Rightarrow> (nat \<Rightarrow> 'f option) \<Rightarrow> nat \<Rightarrow> 'f option" where
  "held_step (TfConstruct i construct) h = h(i := construct)"
| "held_step (TfEmplace i construct) h = h(i := construct)"
| "held_step (TfMoveConstruct i j) h = (if i = j then h else h(i := h j, j := None))"
| "held_step (TfMoveAssign i j) h = (if i = j then h else h(i := h j, j := None))"
| "held_step (TfReset i) h = h(i := None)"
| "held_step (TfDestroy i) h = h(i := None)"

definition tf_holds :: "'f option \<Rightarrow> 'f task_function" where
  "tf_holds h = (case h of None \<Rightarrow> tf_new
     | Some f \<Rightarrow> \<lparr>tf_storage = Live f, tf_invoke = True, tf_manage = True\<rparr>)"

lemma tf_holds_new: "tf_holds None = tf_new"
  by (simp add: tf_holds_def)

lemma reset_holds: "tf_reset (tf_holds h) = Some tf_new"
  by (cases h) (simp_all add: tf_holds_def tf_reset_def tf_new_def)

lemma init_new: "tf_init construct tf_new = Some (tf_holds construct, construct \<noteq> None)"
  by (cases construct) (simp_all add: tf_init_def tf_holds_def tf_new_def)

lemma move_from_holds: "tf_move_from (tf_holds h) tf_new = Some (tf_new, tf_holds h)"
  by (cases h) (simp_all add: tf_move_from_def tf_holds_def tf_new_def)

lemma tf_step_refines: "tf_step op (\<lambda>i. tf_holds (h i)) = Some (\<lambda>i. tf_holds (held_step op h i))"
  by (cases op) (auto simp: tf_emplace_def tf_assign_def reset_holds init_new move_from_holds fun_eq_iff tf_holds_new)

lemma tf_run_refines:
  "tf_run ops (\<lambda>i. tf_holds (h i)) = Some (\<lambda>i. tf_holds (fold held_step ops h i))"
  by (induction ops arbitrary: h) (simp_all add: tf_step_refines)


end
