(* ===== verification/Cpu_Topology.thy ===== *)
theory Cpu_Topology
  imports Api_Types
begin

text \<open>
  \<open>cpu/topology/CpuTopology.hpp\<close> and \<open>.cpp\<close>, \<open>cpu/affinity/Affinity.hpp\<close> and \<open>.cpp\<close>: which logical processors
  share a physical core, and in which order the workers are pinned to them. What the operating system
  and the processor answer is an argument: the \<open>cpuid\<close> leaves, the directory and files of sysfs, the
  buffer of \<open>GetLogicalProcessorInformationEx\<close>, \<open>hardware_concurrency\<close> and the pinning call.
\<close>

section \<open>Data\<close>

record CoreInfo =
  logical_processors :: "u32 list"

definition is_smt :: "CoreInfo \<Rightarrow> bool" where
  "is_smt core \<longleftrightarrow> length (logical_processors core) > 1"

record CpuTopology =
  logical_processor_count :: u32
  physical_core_count :: u32
  package_count :: u32
  cores :: "CoreInfo list"
  brand :: string
  detected :: bool

definition topology_new :: CpuTopology where
  "topology_new = \<lparr>logical_processor_count = 0, physical_core_count = 0, package_count = 0, cores = [],
     brand = [], detected = False\<rparr>"

definition has_smt :: "CpuTopology \<Rightarrow> bool" where
  "has_smt t \<longleftrightarrow> detected t \<and> physical_core_count t > 0 \<and> logical_processor_count t > physical_core_count t"

section \<open>The brand string\<close>

text \<open>
  \<open>cpuid level\<close> is the four registers, \<open>EAX\<close> to \<open>EDX\<close>, each stored least significant byte first. The
  string ends at the first null byte; spaces and tabs are trimmed at its end, spaces at its start. When
  only spaces and tabs are left, \<open>npos - first + 1\<close> wraps to zero or to a count beyond the end.
\<close>

definition register_chars :: "u32 \<Rightarrow> string" where
  "register_chars w = map (\<lambda>i. char_of (unat (take_bit 8 (drop_bit (8 * i) w)))) [0..<4]"

definition leaf_chars :: "u32 \<times> u32 \<times> u32 \<times> u32 \<Rightarrow> string" where
  "leaf_chars r = (case r of (eax, ebx, ecx, edx) \<Rightarrow> concat (map register_chars [eax, ebx, ecx, edx]))"

definition trim_brand :: "string \<Rightarrow> string" where
  "trim_brand s =
     (let first = length (takeWhile (\<lambda>c. c = CHR '' '') s);
          kept = filter (\<lambda>i. s ! i \<noteq> CHR '' '' \<and> s ! i \<noteq> CHR 0x09) [0..<length s]
      in if first = length s then []
         else if kept = [] then (if first = 0 then [] else drop first s)
         else take (last kept + 1 - first) (drop first s))"

definition query_brand :: "(u32 \<Rightarrow> u32 \<times> u32 \<times> u32 \<times> u32) \<Rightarrow> string" where
  "query_brand cpuid =
     (if fst (cpuid 0x80000000) < 0x80000004 then []
      else trim_brand (takeWhile (\<lambda>c. c \<noteq> char_of (0 :: nat))
        (concat (map (\<lambda>leaf. leaf_chars (cpuid (0x80000002 + of_nat leaf))) [0..<3]))))"

section \<open>The Linux query\<close>

definition decimal_digit :: "nat \<Rightarrow> char" where
  "decimal_digit d = char_of (48 + d)"

fun show_nat :: "nat \<Rightarrow> string" where
  "show_nat n = (if n < 10 then [decimal_digit n] else show_nat (n div 10) @ [decimal_digit (n mod 10)])"

declare show_nat.simps [simp del, code]

definition is_digit :: "char \<Rightarrow> bool" where
  "is_digit c \<longleftrightarrow> 48 \<le> (of_char c :: nat) \<and> of_char c \<le> (57 :: nat)"

definition stoul :: "string \<Rightarrow> nat" where
  "stoul s = fold (\<lambda>c n. 10 * n + (of_char c - 48)) s 0"

text \<open>
  The names \<open>cpuN\<close> of the directory, as processor numbers in directory order (\<open>std::stoul\<close> and the cast to
  32 bits; a number of more than 64 bits, which no kernel reports, would throw).
\<close>

definition logical_id :: "string \<Rightarrow> u32 option" where
  "logical_id name =
     (if length name \<le> 3 \<or> take 3 name \<noteq> ''cpu'' then None
      else if list_all is_digit (drop 3 name) then Some (of_nat (stoul (drop 3 name))) else None)"

definition topology_base :: "u32 \<Rightarrow> string" where
  "topology_base logical = ''/sys/devices/system/cpu/cpu'' @ show_nat (unat logical) @ ''/topology/''"

text \<open>
  The loop over the processors. \<open>core_index\<close> maps (package, core) to a position of \<open>cores\<close>; a processor
  without readable topology files is passed over.
\<close>

record query_state =
  qs_core_index :: "u32 \<times> u32 \<Rightarrow> nat option"
  qs_packages :: "u32 list"
  qs_cores :: "CoreInfo list"

definition add_logical :: "(string \<Rightarrow> u32 option) \<Rightarrow> u32 \<Rightarrow> query_state \<Rightarrow> query_state" where
  "add_logical read_uint_file logical q =
     (case read_uint_file (topology_base logical @ ''physical_package_id'') of
        None \<Rightarrow> q
      | Some package_id \<Rightarrow>
          (case read_uint_file (topology_base logical @ ''core_id'') of
             None \<Rightarrow> q
           | Some core_id \<Rightarrow>
               (let q1 = q\<lparr>qs_packages := (if package_id \<in> set (qs_packages q) then qs_packages q
                                          else qs_packages q @ [package_id])\<rparr>
                in case qs_core_index q1 (package_id, core_id) of
                     None \<Rightarrow> q1\<lparr>qs_core_index := (qs_core_index q1)((package_id, core_id) \<mapsto> length (qs_cores q1)),
                                qs_cores := qs_cores q1 @ [\<lparr>logical_processors = [logical]\<rparr>]\<rparr>
                   | Some k \<Rightarrow> q1\<lparr>qs_cores := (qs_cores q1)[k := (qs_cores q1 ! k)
                                  \<lparr>logical_processors := logical_processors (qs_cores q1 ! k) @ [logical]\<rparr>]\<rparr>)))"

definition sort_cores :: "CoreInfo list \<Rightarrow> CoreInfo list" where
  "sort_cores cs =
     sort_key (\<lambda>c. hd (logical_processors c)) (map (\<lambda>c. c\<lparr>logical_processors := sort (logical_processors c)\<rparr>) cs)"

definition logical_total :: "CoreInfo list \<Rightarrow> u32" where
  "logical_total cs = fold (\<lambda>c n. n + of_nat (length (logical_processors c))) cs 0"

definition query_linux_topology ::
    "string list option \<Rightarrow> (string \<Rightarrow> u32 option) \<Rightarrow> CpuTopology \<Rightarrow> CpuTopology \<times> bool" where
  "query_linux_topology dir read_uint_file out =
     (case dir of
        None \<Rightarrow> (out, False)
      | Some names \<Rightarrow>
          (let logical_ids = List.map_filter logical_id names in
           if logical_ids = [] then (out, False)
           else
             (let q = fold (add_logical read_uint_file) logical_ids
                        \<lparr>qs_core_index = Map.empty, qs_packages = [], qs_cores = []\<rparr>
              in if qs_cores q = [] then (out, False)
                 else
                   (let sorted = sort_cores (qs_cores q);
                        packages = of_nat (length (qs_packages q))
                    in (out\<lparr>cores := sorted, physical_core_count := of_nat (length sorted),
                            logical_processor_count := logical_total sorted,
                            package_count := (if packages = 0 then 1 else packages)\<rparr>, True)))))"

section \<open>The Windows query\<close>

text \<open>The records of the buffer, each with its size; a size of zero ends the walk.\<close>

datatype relationship = RelationProcessorCore "(u32 \<times> u64) list" | RelationProcessorPackage | RelationOther

definition group_logicals :: "u32 \<times> u64 \<Rightarrow> u32 list" where
  "group_logicals g = (case g of (grp, bits) \<Rightarrow>
     map (\<lambda>b. grp * 64 + of_nat b) (filter (\<lambda>b. bit bits b) [0..<64]))"

definition add_record :: "relationship \<Rightarrow> CpuTopology \<Rightarrow> CpuTopology" where
  "add_record r out =
     (case r of
        RelationProcessorCore groups \<Rightarrow>
          (let core = \<lparr>logical_processors = concat (map group_logicals groups)\<rparr>
           in if logical_processors core \<noteq> [] then out\<lparr>cores := cores out @ [core]\<rparr> else out)
      | RelationProcessorPackage \<Rightarrow> out\<lparr>package_count := package_count out + 1\<rparr>
      | RelationOther \<Rightarrow> out)"

definition query_windows_topology :: "(nat \<times> relationship) list option \<Rightarrow> CpuTopology \<Rightarrow> CpuTopology \<times> bool" where
  "query_windows_topology buffer out =
     (case buffer of
        None \<Rightarrow> (out, False)
      | Some records \<Rightarrow>
          (let out1 = fold add_record (map snd (takeWhile (\<lambda>r. fst r \<noteq> 0) records)) out
           in if cores out1 = [] then (out1, False)
              else (out1\<lparr>physical_core_count := of_nat (length (cores out1)),
                         logical_processor_count := logical_total (cores out1),
                         package_count := (if package_count out1 = 0 then 1 else package_count out1)\<rparr>, True)))"

section \<open>Detection and report\<close>

datatype platform = Windows "(nat \<times> relationship) list option" | Linux "string list option" "string \<Rightarrow> u32 option" |
  OtherPlatform

definition detect :: "(u32 \<Rightarrow> u32 \<times> u32 \<times> u32 \<times> u32) \<Rightarrow> platform \<Rightarrow> u32 \<Rightarrow> CpuTopology" where
  "detect cpuid os hw =
     (let t0 = topology_new\<lparr>brand := query_brand cpuid\<rparr>;
          (t1, found) = (case os of
             Windows buffer \<Rightarrow> query_windows_topology buffer t0
           | Linux dir read_uint_file \<Rightarrow> query_linux_topology dir read_uint_file t0
           | OtherPlatform \<Rightarrow> (t0, False));
          t2 = t1\<lparr>detected := found\<rparr>
      in if \<not> detected t2
         then t2\<lparr>logical_processor_count := (if hw > 0 then hw else 1), physical_core_count := 0, package_count := 0\<rparr>
         else t2)"

definition describe_topology :: "CpuTopology \<Rightarrow> string" where
  "describe_topology t =
     (let nl = [CHR 0x0A];
          out = (if brand t \<noteq> [] then brand t @ nl else []);
          out = out @ ''logical processors: '' @ show_nat (unat (logical_processor_count t)) @ nl
      in if \<not> detected t \<or> physical_core_count t = 0
         then out @ ''physical cores: unknown (topology query unavailable)'' @ nl
         else out @ ''physical cores: '' @ show_nat (unat (physical_core_count t)) @ nl @
              ''packages: '' @ show_nat (unat (package_count t)) @ nl @
              (if has_smt t then ''SMT: yes'' @ nl else ''SMT: no'' @ nl))"

section \<open>Affinity\<close>

definition max_siblings :: "CoreInfo list \<Rightarrow> nat" where
  "max_siblings cs =
     fold (\<lambda>c m. if length (logical_processors c) > m then length (logical_processors c) else m) cs 0"

definition spread_round :: "CoreInfo list \<Rightarrow> nat \<Rightarrow> u32 list" where
  "spread_round cs sibling =
     concat (map (\<lambda>c. if sibling < length (logical_processors c) then [logical_processors c ! sibling] else []) cs)"

definition spread_order :: "CpuTopology \<Rightarrow> u32 list" where
  "spread_order t =
     (if \<not> detected t \<or> cores t = [] then []
      else concat (map (spread_round (cores t)) [0..<max_siblings (cores t)]))"

text \<open>\<open>pin\<close> asks the system to pin the calling thread, which the Windows branch refuses above 63.\<close>

definition apply_worker_affinity ::
    "bool \<Rightarrow> (u32 \<Rightarrow> bool) \<Rightarrow> CpuTopology \<Rightarrow> u32 \<Rightarrow> AffinityMode \<Rightarrow> bool" where
  "apply_worker_affinity windows pin t worker_index mode =
     (if mode = AffinityDisabled then False
      else
        (let order = spread_order t in
         if order = [] then False
         else
           (let logical = order ! (unat worker_index mod length order)
            in if windows \<and> logical \<ge> 64 then False else pin logical)))"

section \<open>The cores of the Linux query\<close>

definition readable :: "(string \<Rightarrow> u32 option) \<Rightarrow> u32 \<Rightarrow> bool" where
  "readable rd l \<longleftrightarrow> rd (topology_base l @ ''physical_package_id'') \<noteq> None \<and> rd (topology_base l @ ''core_id'') \<noteq> None"

definition core_key :: "(string \<Rightarrow> u32 option) \<Rightarrow> u32 \<Rightarrow> u32 \<times> u32" where
  "core_key rd l = (the (rd (topology_base l @ ''physical_package_id'')), the (rd (topology_base l @ ''core_id'')))"

text \<open>After the processors \<open>ids\<close>: one core per key, in the order of the keys' first processors.\<close>

definition query_inv :: "(string \<Rightarrow> u32 option) \<Rightarrow> u32 list \<Rightarrow> query_state \<Rightarrow> bool" where
  "query_inv rd ids q \<longleftrightarrow>
     (\<exists>ks. distinct ks \<and> set ks = core_key rd ` set ids \<and>
        (\<forall>k. qs_core_index q k = map_of (zip ks [0..<length ks]) k) \<and>
        qs_cores q = map (\<lambda>k. \<lparr>logical_processors = filter (\<lambda>i. core_key rd i = k) ids\<rparr>) ks) \<and>
     distinct (qs_packages q) \<and> set (qs_packages q) = fst ` core_key rd ` set ids"

lemma map_of_zip_nth:
  "distinct ks \<Longrightarrow> j < length ks \<Longrightarrow> map_of (zip ks [0..<length ks]) (ks ! j) = Some j"
  by (simp add: map_of_zip_nth)

lemma map_of_zip_snoc:
  "x \<notin> set ks \<Longrightarrow> map_of (zip (ks @ [x]) [0..<length (ks @ [x])]) k =
     (if k = x then Some (length ks) else map_of (zip ks [0..<length ks]) k)"
proof -
  assume x: "x \<notin> set ks"
  have none: "y \<notin> set ks \<Longrightarrow> map_of (zip ks [0..<length ks]) y = None" for y by (simp add: map_of_zip_is_None)
  show ?thesis using x by (auto simp: map_add_def none split: option.splits)
qed

lemma add_logical_unreadable: "\<not> readable rd l \<Longrightarrow> add_logical rd l q = q"
  by (auto simp: readable_def add_logical_def split: option.splits)

lemma add_logical_readable:
  assumes "readable rd l" "query_inv rd ids q"
  shows "query_inv rd (ids @ [l]) (add_logical rd l q)"
proof -
  let ?k = "core_key rd l"
  obtain ks where ks: "distinct ks" "set ks = core_key rd ` set ids"
      "\<And>k. qs_core_index q k = map_of (zip ks [0..<length ks]) k"
      "qs_cores q = map (\<lambda>k. \<lparr>logical_processors = filter (\<lambda>i. core_key rd i = k) ids\<rparr>) ks"
    and pk: "distinct (qs_packages q)" "set (qs_packages q) = fst ` core_key rd ` set ids"
    using assms(2) by (auto simp: query_inv_def)
  obtain p c where pc: "rd (topology_base l @ ''physical_package_id'') = Some p" "rd (topology_base l @ ''core_id'') = Some c"
    using assms(1) by (auto simp: readable_def)
  have key: "?k = (p, c)" by (simp add: core_key_def pc)
  have packages: "distinct (qs_packages (add_logical rd l q))"
      "set (qs_packages (add_logical rd l q)) = fst ` core_key rd ` set (ids @ [l])"
    using pk by (auto simp: add_logical_def pc key Let_def split: option.splits)
  show ?thesis
  proof (cases "?k \<in> set ks")
    case False
    then have none: "qs_core_index q (p, c) = None" using ks(3) by (simp add: key map_of_zip_is_None)
    have new: "filter (\<lambda>i. core_key rd i = ?k) ids = []" using False by (auto simp: ks(2) filter_empty_conv) (metis imageI)
    have "qs_cores (add_logical rd l q) =
        map (\<lambda>k. \<lparr>logical_processors = filter (\<lambda>i. core_key rd i = k) (ids @ [l])\<rparr>) (ks @ [?k])"
      using False none new by (auto simp: add_logical_def pc Let_def ks(4) simp flip: key intro!: map_cong)
    moreover have "qs_core_index (add_logical rd l q) k = map_of (zip (ks @ [?k]) [0..<length (ks @ [?k])]) k" for k
      unfolding map_of_zip_snoc [OF False] using none
      by (simp add: add_logical_def pc Let_def ks(4) key) (simp add: ks(3))
    ultimately show ?thesis unfolding query_inv_def using packages ks(1,2) False
      by (intro conjI exI [of _ "ks @ [?k]"]) auto
  next
    case True
    then obtain j where j: "j < length ks" "ks ! j = ?k" by (auto simp: in_set_conv_nth)
    then have some: "qs_core_index q (p, c) = Some j"
      using map_of_zip_nth [OF ks(1) j(1)] ks(3) by (simp add: key)
    have "qs_cores (add_logical rd l q) = map (\<lambda>k. \<lparr>logical_processors = filter (\<lambda>i. core_key rd i = k) (ids @ [l])\<rparr>) ks"
    proof -
      have "qs_cores (add_logical rd l q) =
          (qs_cores q)[j := (qs_cores q ! j)\<lparr>logical_processors := logical_processors (qs_cores q ! j) @ [l]\<rparr>]"
        using some by (simp add: add_logical_def pc Let_def)
      moreover have at: "?k = ks ! i \<longleftrightarrow> i = j" if "i < length ks" for i
        using ks(1) j that by (metis nth_eq_iff_index_eq)
      ultimately have "qs_cores (add_logical rd l q) ! i = \<lparr>logical_processors = filter (\<lambda>n. core_key rd n = ks ! i) (ids @ [l])\<rparr>"
        if "i < length ks" for i
        using that at [OF that] j by (cases "i = j") (simp_all add: ks(4))
      moreover have "length (qs_cores (add_logical rd l q)) = length ks" using some by (simp add: add_logical_def pc Let_def ks(4))
      ultimately show ?thesis by (intro nth_equalityI) simp_all
    qed
    moreover have "qs_core_index (add_logical rd l q) = qs_core_index q"
      using some by (simp add: add_logical_def pc Let_def)
    ultimately show ?thesis unfolding query_inv_def using packages ks(1,2,3) True
      by (intro conjI exI [of _ ks]) auto
  qed
qed

lemma query_fold:
  "query_inv rd ids q \<Longrightarrow> query_inv rd (ids @ filter (readable rd) ls) (fold (add_logical rd) ls q)"
proof (induction ls arbitrary: ids q)
  case (Cons l ls)
  show ?case
  proof (cases "readable rd l")
    case True
    from Cons.IH [OF add_logical_readable [OF True Cons.prems]] show ?thesis using True by simp
  next
    case False
    from Cons.IH [OF Cons.prems] show ?thesis using False by (simp add: add_logical_unreadable)
  qed
qed simp

lemma mset_by_key: "distinct ks \<Longrightarrow> key ` set ids \<subseteq> set ks \<Longrightarrow> mset (concat (map (\<lambda>k. filter (\<lambda>i. key i = k) ids) ks)) = mset ids"
proof (induction ids)
  case Nil
  then show ?case by (induction ks) auto
next
  case (Cons i ids)
  then obtain us vs where ks: "ks = us @ key i # vs" "key i \<notin> set us" "key i \<notin> set vs"
    by (metis distinct.simps(2) distinct_append image_subset_iff in_set_conv_decomp_first list.set_intros(1))
  then have u: "map (\<lambda>k. filter (\<lambda>j. key j = k) (i # ids)) us = map (\<lambda>k. filter (\<lambda>j. key j = k) ids) us"
    and v: "map (\<lambda>k. filter (\<lambda>j. key j = k) (i # ids)) vs = map (\<lambda>k. filter (\<lambda>j. key j = k) ids) vs" by auto
  have "mset (concat (map (\<lambda>k. filter (\<lambda>j. key j = k) ids) ks)) = mset ids" using Cons by auto
  then show ?case unfolding ks(1) map_append list.map(2) concat_append concat.simps mset_append u v by simp
qed

lemma sorted_cores:
  "mset (concat (map logical_processors (sort_cores cs))) = mset (concat (map logical_processors cs))"
  "sorted (map (\<lambda>c. hd (logical_processors c)) (sort_cores cs))"
  "set (sort_cores cs) = (\<lambda>c. c\<lparr>logical_processors := sort (logical_processors c)\<rparr>) ` set cs"
  "length (sort_cores cs) = length cs"
proof -
  have "mset (map logical_processors (sort_cores cs)) = mset (map (\<lambda>c. sort (logical_processors c)) cs)"
    by (simp add: sort_cores_def multiset.map_comp comp_def)
  then have "mset (concat (map logical_processors (sort_cores cs))) = mset (concat (map (\<lambda>c. sort (logical_processors c)) cs))"
  proof -
    have m: "mset (concat xss) = sum_mset (image_mset mset (mset xss))" for xss :: "u32 list list"
      by (induction xss) simp_all
    assume "mset (map logical_processors (sort_cores cs)) = mset (map (\<lambda>c. sort (logical_processors c)) cs)"
    then show ?thesis by (simp only: m)
  qed
  also have "\<dots> = mset (concat (map logical_processors cs))" by (induction cs) simp_all
  finally show "mset (concat (map logical_processors (sort_cores cs))) = mset (concat (map logical_processors cs))" .
qed (simp_all add: sort_cores_def)

lemma logical_total_length: "logical_total cs = of_nat (length (concat (map logical_processors cs)))"
proof -
  have "fold (\<lambda>c n. n + of_nat (length (logical_processors c))) cs n = n + of_nat (length (concat (map logical_processors cs)))"
    for n :: u32
    by (induction cs arbitrary: n) simp_all
  then show ?thesis by (simp add: logical_total_def)
qed

section \<open>The order of the workers\<close>

lemma max_siblings_bound: "c \<in> set cs \<Longrightarrow> length (logical_processors c) \<le> max_siblings cs"
proof -
  have "m \<le> fold (\<lambda>c m. if length (logical_processors c) > m then length (logical_processors c) else m) cs m \<and>
      (\<forall>c \<in> set cs. length (logical_processors c) \<le>
        fold (\<lambda>c m. if length (logical_processors c) > m then length (logical_processors c) else m) cs m)" for m
    by (induction cs arbitrary: m) (auto, (meson le_trans less_imp_le_nat not_less)+)
  then show "c \<in> set cs \<Longrightarrow> ?thesis" by (auto simp: max_siblings_def)
qed

lemma concat_rounds: "length xs \<le> m \<Longrightarrow> concat (map (\<lambda>s. if s < length xs then [xs ! s] else []) [0..<m]) = xs"
proof (induction m arbitrary: xs)
  case (Suc m)
  show ?case
  proof (cases "length xs \<le> m")
    case True
    then show ?thesis using Suc.IH by simp
  next
    case False
    then have l: "length xs = Suc m" using Suc.prems by simp
    then obtain ys y where xs: "xs = ys @ [y]" by (metis length_Suc_conv_rev)
    then have n: "length ys = m" using l by simp
    have "map (\<lambda>s. if s < length xs then [xs ! s] else []) [0..<m] = map (\<lambda>s. if s < length ys then [ys ! s] else []) [0..<m]"
      by (auto simp: xs n nth_append)
    then have "concat (map (\<lambda>s. if s < length xs then [xs ! s] else []) [0..<m]) = ys"
      using Suc.IH [of ys] n by (simp only: le_refl)
    moreover have "(if m < length xs then [xs ! m] else []) = [y]" using l by (simp add: xs n nth_append)
    moreover have "[0..<Suc m] = [0..<m] @ [m]" by simp
    ultimately show ?thesis by (simp only: map_append concat_append list.map concat.simps xs append_Nil2)
  qed
qed simp

lemma mset_concat_two: "mset (concat (map (\<lambda>s. f s @ g s) xs)) = mset (concat (map f xs)) + mset (concat (map g xs))"
  by (induction xs) simp_all

lemma mset_rounds:
  "(\<forall>c \<in> set cs. length (logical_processors c) \<le> m) \<Longrightarrow>
   mset (concat (map (spread_round cs) [0..<m])) = mset (concat (map logical_processors cs))"
proof (induction cs)
  case Nil
  then show ?case by (simp add: spread_round_def [abs_def])
next
  case (Cons c cs)
  have "spread_round (c # cs) = (\<lambda>s. (if s < length (logical_processors c) then [logical_processors c ! s] else []) @ spread_round cs s)"
    by (simp add: spread_round_def fun_eq_iff)
  then show ?case using Cons concat_rounds [of "logical_processors c" m] by (simp add: mset_concat_two)
qed

lemma first_round: "(\<forall>c \<in> set cs. logical_processors c \<noteq> []) \<Longrightarrow> spread_round cs 0 = map (\<lambda>c. hd (logical_processors c)) cs"
  by (induction cs) (simp_all add: spread_round_def hd_conv_nth)

section \<open>Properties\<close>

text \<open>
  C38. The Linux query groups the processors correctly: the processors with readable topology files,
  and only those, appear, each once; two of them are on the same core exactly when their package and
  core numbers agree; the processors of a core and the cores are in ascending order; and the counts
  are those of the processors, the cores and the packages.
\<close>

theorem linux_topology_correct:
  assumes "query_linux_topology (Some names) rd t = (t', True)"
    "ids = filter (readable rd) (List.map_filter logical_id names)"
  shows "mset (concat (map logical_processors (cores t'))) = mset ids \<and>
    (\<forall>c \<in> set (cores t'). logical_processors c \<noteq> [] \<and> sorted (logical_processors c) \<and>
      (\<forall>i \<in> set (logical_processors c). \<forall>j \<in> set ids.
        j \<in> set (logical_processors c) \<longleftrightarrow> core_key rd j = core_key rd i)) \<and>
    sorted (map (\<lambda>c. hd (logical_processors c)) (cores t')) \<and>
    length (cores t') = card (core_key rd ` set ids) \<and>
    logical_processor_count t' = of_nat (length ids) \<and> physical_core_count t' = of_nat (length (cores t')) \<and>
    (card (fst ` core_key rd ` set ids) < 2 ^ 32 \<longrightarrow> package_count t' = of_nat (card (fst ` core_key rd ` set ids)))"
proof -
  let ?q = "fold (add_logical rd) (List.map_filter logical_id names) \<lparr>qs_core_index = Map.empty, qs_packages = [], qs_cores = []\<rparr>"
  have "query_inv rd [] \<lparr>qs_core_index = Map.empty, qs_packages = [], qs_cores = []\<rparr>"
    by (simp add: query_inv_def)
  from query_fold [OF this] have "query_inv rd ids ?q" by (simp add: assms(2))
  then obtain ks where ks: "distinct ks" "set ks = core_key rd ` set ids"
      "qs_cores ?q = map (\<lambda>k. \<lparr>logical_processors = filter (\<lambda>i. core_key rd i = k) ids\<rparr>) ks"
    and pk: "distinct (qs_packages ?q)" "set (qs_packages ?q) = fst ` core_key rd ` set ids"
    by (auto simp: query_inv_def)
  have t: "cores t' = sort_cores (qs_cores ?q)" "physical_core_count t' = of_nat (length (cores t'))"
      "logical_processor_count t' = logical_total (cores t')" "qs_cores ?q \<noteq> []"
      "package_count t' = (if (of_nat (length (qs_packages ?q)) :: u32) = 0 then 1 else of_nat (length (qs_packages ?q)))"
    using assms(1) by (auto simp: query_linux_topology_def Let_def split: if_splits)
  have m: "mset (concat (map logical_processors (cores t'))) = mset ids"
    unfolding t(1) sorted_cores(1) ks(3) using mset_by_key [OF ks(1), of "core_key rd" ids] ks(2) by (simp add: comp_def)
  have "ids \<noteq> []" using t(4) ks(2,3) by auto
  have one: "logical_processors c \<noteq> [] \<and> sorted (logical_processors c) \<and>
      (\<forall>i \<in> set (logical_processors c). \<forall>j \<in> set ids. j \<in> set (logical_processors c) \<longleftrightarrow> core_key rd j = core_key rd i)"
    if "c \<in> set (cores t')" for c
  proof -
    have "c \<in> (\<lambda>k. \<lparr>logical_processors = sort (filter (\<lambda>i. core_key rd i = k) ids)\<rparr>) ` core_key rd ` set ids"
      using that by (auto simp: t(1) sorted_cores(3) ks(3) ks(2) image_image)
    then obtain k where k: "k \<in> core_key rd ` set ids" "c = \<lparr>logical_processors = sort (filter (\<lambda>i. core_key rd i = k) ids)\<rparr>"
      by (rule imageE)
    then have "filter (\<lambda>i. core_key rd i = k) ids \<noteq> []" by (auto simp: filter_empty_conv)
    then have "length (sort (filter (\<lambda>i. core_key rd i = k) ids)) \<noteq> 0" by simp
    then show ?thesis using k(2) by (auto simp del: length_sort)
  qed
  have "length (cores t') = card (core_key rd ` set ids)"
    using ks distinct_card [OF ks(1)] by (simp add: t(1) sorted_cores(4))
  moreover have "package_count t' = of_nat (card (fst ` core_key rd ` set ids))"
    if "card (fst ` core_key rd ` set ids) < 2 ^ 32"
  proof -
    have n: "length (qs_packages ?q) = card (fst ` core_key rd ` set ids)" using distinct_card [OF pk(1)] pk(2) by simp
    have "0 < card (fst ` core_key rd ` set ids)" using \<open>ids \<noteq> []\<close> by (simp add: card_gt_0_iff)
    from nat_dvd_not_less [OF this that] have "(of_nat (length (qs_packages ?q)) :: u32) \<noteq> 0"
      by (simp add: n word_of_nat_eq_0_iff)
    then show ?thesis by (simp add: t(5) n)
  qed
  moreover have "logical_processor_count t' = of_nat (length ids)"
    unfolding t(3) logical_total_length using m by (metis size_mset)
  ultimately show ?thesis using m one t(2) sorted_cores(2) by (simp add: t(1))
qed

theorem linux_topology_correct_witness:
  "mset (concat (map logical_processors (cores (fst
     (query_linux_topology (Some [''cpu1'', ''cpufreq'', ''cpu0'']) (\<lambda>_. Some 0) topology_new))))) = {#0, 1#}"
proof -
  let ?names = "[''cpu1'', ''cpufreq'', ''cpu0'']"
  let ?r = "query_linux_topology (Some ?names) (\<lambda>_. Some 0) topology_new"
  have "snd ?r = True" by code_simp
  then have r: "?r = (fst ?r, True)" by (simp add: prod_eq_iff)
  have ids: "[1, 0] = filter (readable (\<lambda>_. Some 0)) (List.map_filter logical_id ?names)" by code_simp
  from conjunct1 [OF linux_topology_correct [OF r ids]] show ?thesis by simp
qed

text \<open>
  C39. The pinning order uses every logical processor exactly once, and the first workers get one
  physical core each: hyperthreads are shared only when every core has a worker.
\<close>

theorem spread_order_correct:
  assumes "detected t" "\<forall>c \<in> set (cores t). logical_processors c \<noteq> []"
  shows "mset (spread_order t) = mset (concat (map logical_processors (cores t))) \<and>
    take (length (cores t)) (spread_order t) = map (\<lambda>c. hd (logical_processors c)) (cores t)"
proof (cases "cores t = []")
  case True
  then show ?thesis by (simp add: spread_order_def)
next
  case False
  let ?m = "max_siblings (cores t)"
  have o: "spread_order t = concat (map (spread_round (cores t)) [0..<?m])" using assms(1) False by (simp add: spread_order_def)
  have "hd (cores t) \<in> set (cores t)" using False by simp
  then have "0 < length (logical_processors (hd (cores t)))" "length (logical_processors (hd (cores t))) \<le> ?m"
    using assms(2) max_siblings_bound by blast+
  then have "0 < ?m" by linarith
  then have "spread_order t = spread_round (cores t) 0 @ concat (map (spread_round (cores t)) [1..<?m])"
    unfolding o by (simp add: upt_conv_Cons)
  then have "take (length (cores t)) (spread_order t) = map (\<lambda>c. hd (logical_processors c)) (cores t)"
    by (simp add: first_round [OF assms(2)])
  moreover have "mset (spread_order t) = mset (concat (map logical_processors (cores t)))"
    unfolding o by (rule mset_rounds) (use max_siblings_bound in blast)
  ultimately show ?thesis by simp
qed

theorem spread_order_correct_witness:
  "take 2 (spread_order (topology_new\<lparr>detected := True, cores := [\<lparr>logical_processors = [0, 1]\<rparr>, \<lparr>logical_processors = [2, 3]\<rparr>]\<rparr>)) = [0, 2]"
  using spread_order_correct [of "topology_new\<lparr>detected := True, cores := [\<lparr>logical_processors = [0, 1]\<rparr>, \<lparr>logical_processors = [2, 3]\<rparr>]\<rparr>"]
  by (simp add: numeral_2_eq_2)

end
