(* ===== verification/Float64.thy ===== *)
theory Float64
  imports Float32
begin

text \<open>
  The \<open>double\<close> of the benchmark harness: IEEE 754 binary64 over its bits, with the operations the harness
  uses, in the same way as \<open>Float32\<close>.
\<close>

type_synonym float64 = u64

definition f64_nan :: float64 where
  "f64_nan = 0x7FF8000000000000"

definition f64_inf :: float64 where
  "f64_inf = 0x7FF0000000000000"

definition f64_negative :: "float64 \<Rightarrow> bool" where
  "f64_negative x \<longleftrightarrow> 0x8000000000000000 \<le> x"

definition f64_abs :: "float64 \<Rightarrow> float64" where
  "f64_abs x = (if f64_negative x then x - 0x8000000000000000 else x)"

definition f64_neg :: "float64 \<Rightarrow> float64" where
  "f64_neg x = x + 0x8000000000000000"

definition f64_with_sign :: "bool \<Rightarrow> float64 \<Rightarrow> float64" where
  "f64_with_sign s x = (if s then x + 0x8000000000000000 else x)"

definition f64_is_nan :: "float64 \<Rightarrow> bool" where
  "f64_is_nan x \<longleftrightarrow> f64_inf < f64_abs x"

definition f64_is_inf :: "float64 \<Rightarrow> bool" where
  "f64_is_inf x \<longleftrightarrow> f64_abs x = f64_inf"

definition f64_exponent :: "float64 \<Rightarrow> int" where
  "f64_exponent x = (let e = uint (f64_abs x) div 2 ^ 52 in if e = 0 then -1074 else e - 1075)"

definition f64_mantissa :: "float64 \<Rightarrow> int" where
  "f64_mantissa x = (let a = uint (f64_abs x) in if a < 2 ^ 52 then a else 2 ^ 52 + a mod 2 ^ 52)"

definition f64_signed :: "float64 \<Rightarrow> int" where
  "f64_signed x = (if f64_negative x then - f64_mantissa x else f64_mantissa x)"

definition f64_round :: "bool \<Rightarrow> int \<Rightarrow> int \<Rightarrow> bool \<Rightarrow> float64" where
  "f64_round s m e sticky =
     (let t = max (-1074) (e + bitlen m - 53);
          q = (if t \<le> e then m * 2 ^ nat (e - t) else round_shift m (nat (t - e)) sticky);
          a = (if m = 0 then 0 else (t + 1074) * 2 ^ 52 + q)
      in f64_with_sign s (if a < 2047 * 2 ^ 52 then of_int a else f64_inf))"

definition f64_add :: "float64 \<Rightarrow> float64 \<Rightarrow> float64" where
  "f64_add x y =
     (if f64_is_nan x \<or> f64_is_nan y then f64_nan
      else if f64_is_inf x then (if f64_is_inf y \<and> x \<noteq> y then f64_nan else x)
      else if f64_is_inf y then y
      else
        (let e = min (f64_exponent x) (f64_exponent y);
             m = f64_signed x * 2 ^ nat (f64_exponent x - e) + f64_signed y * 2 ^ nat (f64_exponent y - e)
         in if m = 0 then f64_with_sign (f64_negative x \<and> f64_negative y) 0
            else f64_round (m < 0) \<bar>m\<bar> e False))"

definition f64_sub :: "float64 \<Rightarrow> float64 \<Rightarrow> float64" where
  "f64_sub x y = f64_add x (f64_neg y)"

definition f64_mul :: "float64 \<Rightarrow> float64 \<Rightarrow> float64" where
  "f64_mul x y =
     (let s = (f64_negative x \<noteq> f64_negative y) in
      if f64_is_nan x \<or> f64_is_nan y then f64_nan
      else if f64_is_inf x \<or> f64_is_inf y
           then (if f64_abs x = 0 \<or> f64_abs y = 0 then f64_nan else f64_with_sign s f64_inf)
      else f64_round s (f64_mantissa x * f64_mantissa y) (f64_exponent x + f64_exponent y) False)"

definition f64_quotient :: "bool \<Rightarrow> int \<Rightarrow> int \<Rightarrow> int \<Rightarrow> float64" where
  "f64_quotient s a b e =
     (let k = 55 + nat (bitlen b) in f64_round s (a * 2 ^ k div b) (e - int k) (a * 2 ^ k mod b \<noteq> 0))"

definition f64_div :: "float64 \<Rightarrow> float64 \<Rightarrow> float64" where
  "f64_div x y =
     (let s = (f64_negative x \<noteq> f64_negative y) in
      if f64_is_nan x \<or> f64_is_nan y then f64_nan
      else if f64_is_inf x then (if f64_is_inf y then f64_nan else f64_with_sign s f64_inf)
      else if f64_is_inf y then f64_with_sign s 0
      else if f64_abs y = 0 then (if f64_abs x = 0 then f64_nan else f64_with_sign s f64_inf)
      else f64_quotient s (f64_mantissa x) (f64_mantissa y) (f64_exponent x - f64_exponent y))"

definition f64_key :: "float64 \<Rightarrow> int" where
  "f64_key x = (if f64_negative x then - uint (f64_abs x) else uint x)"

definition f64_less :: "float64 \<Rightarrow> float64 \<Rightarrow> bool" where
  "f64_less x y \<longleftrightarrow> \<not> f64_is_nan x \<and> \<not> f64_is_nan y \<and> f64_key x < f64_key y"

definition f64_le :: "float64 \<Rightarrow> float64 \<Rightarrow> bool" where
  "f64_le x y \<longleftrightarrow> \<not> f64_is_nan x \<and> \<not> f64_is_nan y \<and> f64_key x \<le> f64_key y"

definition f64_of_int :: "int \<Rightarrow> float64" where
  "f64_of_int n = f64_round False n 0 False"

definition f64_lit :: "int \<Rightarrow> int \<Rightarrow> float64" where
  "f64_lit n d = f64_quotient False n d 0"

text \<open>\<open>std::floor\<close> and \<open>std::ceil\<close> of a non-negative finite double, converted to an integer.\<close>

definition f64_floor :: "float64 \<Rightarrow> int" where
  "f64_floor x =
     (if f64_exponent x \<ge> 0 then f64_mantissa x * 2 ^ nat (f64_exponent x)
      else f64_mantissa x div 2 ^ nat (- f64_exponent x))"

definition f64_ceil :: "float64 \<Rightarrow> int" where
  "f64_ceil x =
     (if f64_exponent x \<ge> 0 then f64_mantissa x * 2 ^ nat (f64_exponent x)
      else (f64_mantissa x + 2 ^ nat (- f64_exponent x) - 1) div 2 ^ nat (- f64_exponent x))"

end
