(* ===== verification/Bench_Decimal.thy ===== *)
theory Bench_Decimal
  imports Float64 Cpu_Topology
begin

text \<open>
  What the benchmark programs use of the C++ stream output of numbers: integers in decimal, and doubles with
  \<open>precision(17)\<close> in the default format, which is \<open>printf\<close>'s \<open>%.17g\<close>, correctly rounded.
\<close>

function show_natural :: "int \<Rightarrow> string" where
  "show_natural n =
     (if n < 10 then [decimal_digit (nat n)] else show_natural (n div 10) @ [decimal_digit (nat (n mod 10))])"
  by auto
termination by (relation "measure nat") auto

declare show_natural.simps [simp del]

definition show_u64 :: "u64 \<Rightarrow> string" where
  "show_u64 w = show_natural (uint w)"

definition show_i64 :: "int \<Rightarrow> string" where
  "show_i64 n = (if n < 0 then CHR ''-'' # show_natural (- n) else show_natural n)"

text \<open>The exponent \<open>x\<close> with \<open>10\<^sup>x \<le> num / den < 10\<^sup>x\<^sup>+\<^sup>1\<close>, for positive numbers.\<close>

definition decimal_exponent :: "int \<Rightarrow> int \<Rightarrow> int" where
  "decimal_exponent num den =
     (if den \<le> num then int (length (show_natural (num div den))) - 1
      else (let c = (den + num - 1) div num in - int (length (show_natural (c - 1)))))"

text \<open>The quotient rounded to the nearest integer, ties to even.\<close>

definition div_nearest :: "int \<Rightarrow> int \<Rightarrow> int" where
  "div_nearest num den =
     (let q = num div den; r = num mod den
      in if 2 * r < den \<or> (2 * r = den \<and> even q) then q else q + 1)"

text \<open>The 17 significant digits and the decimal exponent.\<close>

definition significant :: "int \<Rightarrow> int \<Rightarrow> int \<times> int" where
  "significant num den =
     (let x = decimal_exponent num den;
          d = (if x \<le> 16 then div_nearest (num * 10 ^ nat (16 - x)) den else div_nearest num (den * 10 ^ nat (x - 16)))
      in if d = 10 ^ 17 then (10 ^ 16, x + 1) else (d, x))"

definition strip_zeros :: "string \<Rightarrow> string" where
  "strip_zeros s = rev (dropWhile (\<lambda>c. c = CHR ''0'') (rev s))"

definition with_fraction :: "string \<Rightarrow> string \<Rightarrow> string" where
  "with_fraction whole part = (if strip_zeros part = [] then whole else whole @ CHR ''.'' # strip_zeros part)"

definition show_exponent :: "int \<Rightarrow> string" where
  "show_exponent x =
     CHR ''e'' # (if x < 0 then CHR ''-'' else CHR ''+'') #
       (if \<bar>x\<bar> < 10 then CHR ''0'' # show_natural \<bar>x\<bar> else show_natural \<bar>x\<bar>)"

definition format_general :: "int \<times> int \<Rightarrow> string" where
  "format_general dx =
     (case dx of (d, x) \<Rightarrow>
        (let digits = show_natural d in
         if x < -4 \<or> 17 \<le> x then with_fraction (take 1 digits) (drop 1 digits) @ show_exponent x
         else if 0 \<le> x then with_fraction (take (nat (x + 1)) digits) (drop (nat (x + 1)) digits)
         else with_fraction ''0'' (replicate (nat (- x - 1)) CHR ''0'' @ digits)))"

definition show_double :: "float64 \<Rightarrow> string" where
  "show_double v =
     (if f64_negative v then ''-'' else []) @
     (if f64_is_nan v then ''nan''
      else if f64_is_inf v then ''inf''
      else if f64_abs v = 0 then ''0''
      else
        (let m = f64_mantissa v; e = f64_exponent v
         in format_general (if 0 \<le> e then significant (m * 2 ^ nat e) 1 else significant m (2 ^ nat (- e)))))"

end
