(* ===== verification/Bench_Json.thy ===== *)
theory Bench_Json
  imports Bench_Decimal
begin

text \<open>
  \<open>benchmarks/harness/Json.hpp\<close>: the JSON writer as the state it keeps, the text written so far and the stack
  of open containers (its back is the head of the list). Beside it the reference: JSON documents as trees and a
  parser of JSON text; the main lemma is that parsing what the writer wrote gives the document back.
\<close>

section \<open>The writer\<close>

record State =
  any_written :: bool
  is_array :: bool

record JsonWriter =
  jw_out :: string
  jw_stack :: "State list"

definition json_writer_new :: JsonWriter where
  "json_writer_new = \<lparr>jw_out = [], jw_stack = []\<rparr>"

definition put :: "string \<Rightarrow> JsonWriter \<Rightarrow> JsonWriter" where
  "put s w = w\<lparr>jw_out := jw_out w @ s\<rparr>"

definition newline_indent :: "JsonWriter \<Rightarrow> JsonWriter" where
  "newline_indent w = put (concat (replicate (length (jw_stack w)) ''  '')) (put [CHR 0x0A] w)"

definition separate :: "JsonWriter \<Rightarrow> JsonWriter" where
  "separate w =
     (case jw_stack w of
        [] \<Rightarrow> w
      | cur # below \<Rightarrow>
          (let w1 = (if any_written cur then put '','' w else w)
           in newline_indent (w1\<lparr>jw_stack := cur\<lparr>any_written := True\<rparr> # below\<rparr>)))"

definition hex_char :: "nat \<Rightarrow> char" where
  "hex_char n = ''0123456789abcdef'' ! n"

definition escape_char :: "char \<Rightarrow> string" where
  "escape_char c =
     (if c = CHR 0x22 then [CHR 0x5C, CHR 0x22]
      else if c = CHR 0x5C then [CHR 0x5C, CHR 0x5C]
      else if c = CHR 0x0A then [CHR 0x5C, CHR ''n'']
      else if c = CHR 0x0D then [CHR 0x5C, CHR ''r'']
      else if c = CHR 0x09 then [CHR 0x5C, CHR ''t'']
      else if (of_char c :: nat) < 0x20
      then CHR 0x5C # ''u00'' @ [hex_char (of_char c div 16 mod 16), hex_char (of_char c mod 16)]
      else [c])"

definition string_text :: "string \<Rightarrow> string" where
  "string_text s = CHR 0x22 # concat (map escape_char s) @ [CHR 0x22]"

definition write_string :: "string \<Rightarrow> JsonWriter \<Rightarrow> JsonWriter" where
  "write_string s = put (string_text s)"

definition write_double :: "float64 \<Rightarrow> JsonWriter \<Rightarrow> JsonWriter" where
  "write_double v = put (show_double v)"

definition write_key :: "string \<Rightarrow> JsonWriter \<Rightarrow> JsonWriter" where
  "write_key key w = put '': '' (write_string key (separate w))"

definition push_state :: "bool \<Rightarrow> JsonWriter \<Rightarrow> JsonWriter" where
  "push_state arr w = w\<lparr>jw_stack := \<lparr>any_written = False, is_array = arr\<rparr> # jw_stack w\<rparr>"

definition begin_object :: "JsonWriter \<Rightarrow> JsonWriter" where
  "begin_object w = push_state False (put ''{'' (separate w))"

definition begin_object_key :: "string \<Rightarrow> JsonWriter \<Rightarrow> JsonWriter" where
  "begin_object_key key w = push_state False (put ''{'' (write_key key w))"

definition begin_array :: "string \<Rightarrow> JsonWriter \<Rightarrow> JsonWriter" where
  "begin_array key w = push_state True (put ''['' (write_key key w))"

definition end_container :: "string \<Rightarrow> JsonWriter \<Rightarrow> JsonWriter" where
  "end_container close w =
     (let had_entries = (jw_stack w \<noteq> [] \<and> any_written (hd (jw_stack w)));
          w1 = w\<lparr>jw_stack := tl (jw_stack w)\<rparr>
      in put close (if had_entries then newline_indent w1 else w1))"

definition end_object :: "JsonWriter \<Rightarrow> JsonWriter" where
  "end_object = end_container ''}''"

definition end_array :: "JsonWriter \<Rightarrow> JsonWriter" where
  "end_array = end_container '']''"

definition field_string :: "string \<Rightarrow> string \<Rightarrow> JsonWriter \<Rightarrow> JsonWriter" where
  "field_string key v w = write_string v (write_key key w)"

definition bool_text :: "bool \<Rightarrow> string" where
  "bool_text v = (if v then ''true'' else ''false'')"

definition field_bool :: "string \<Rightarrow> bool \<Rightarrow> JsonWriter \<Rightarrow> JsonWriter" where
  "field_bool key v w = put (bool_text v) (write_key key w)"

definition field_u64 :: "string \<Rightarrow> u64 \<Rightarrow> JsonWriter \<Rightarrow> JsonWriter" where
  "field_u64 key v w = put (show_u64 v) (write_key key w)"

definition field_i64 :: "string \<Rightarrow> int \<Rightarrow> JsonWriter \<Rightarrow> JsonWriter" where
  "field_i64 key v w = put (show_i64 v) (write_key key w)"

definition field_double :: "string \<Rightarrow> float64 \<Rightarrow> JsonWriter \<Rightarrow> JsonWriter" where
  "field_double key v w = write_double v (write_key key w)"

definition value_double :: "float64 \<Rightarrow> JsonWriter \<Rightarrow> JsonWriter" where
  "value_double v w = write_double v (separate w)"

definition value_u64 :: "u64 \<Rightarrow> JsonWriter \<Rightarrow> JsonWriter" where
  "value_u64 v w = put (show_u64 v) (separate w)"

section \<open>JSON documents, and the calls that write one\<close>

text \<open>A number is kept as its text.\<close>

datatype json = JObject "(string \<times> json) list" | JArray "json list" | JString string | JBool bool | JNumber string

fun write_member :: "string \<Rightarrow> json \<Rightarrow> JsonWriter \<Rightarrow> JsonWriter"
  and write_members :: "(string \<times> json) list \<Rightarrow> JsonWriter \<Rightarrow> JsonWriter"
  and write_element :: "json \<Rightarrow> JsonWriter \<Rightarrow> JsonWriter"
  and write_elements :: "json list \<Rightarrow> JsonWriter \<Rightarrow> JsonWriter" where
  "write_member key (JObject ms) w = end_object (write_members ms (begin_object_key key w))"
| "write_member key (JArray vs) w = end_array (write_elements vs (begin_array key w))"
| "write_member key (JString s) w = field_string key s w"
| "write_member key (JBool b) w = field_bool key b w"
| "write_member key (JNumber s) w = put s (write_key key w)"
| "write_members [] w = w"
| "write_members ((key, v) # ms) w = write_members ms (write_member key v w)"
| "write_element (JObject ms) w = end_object (write_members ms (begin_object w))"
| "write_element (JNumber s) w = put s (separate w)"
| "write_element (JArray vs) w = w"
| "write_element (JString s) w = w"
| "write_element (JBool b) w = w"
| "write_elements [] w = w"
| "write_elements (v # vs) w = write_elements vs (write_element v w)"

section \<open>A parser of JSON text\<close>

definition is_ws :: "char \<Rightarrow> bool" where
  "is_ws c \<longleftrightarrow> c \<in> {CHR '' '', CHR 0x0A, CHR 0x0D, CHR 0x09}"

definition skip :: "string \<Rightarrow> string" where
  "skip = dropWhile is_ws"

definition hex_digit_value :: "char \<Rightarrow> nat option" where
  "hex_digit_value c = List.find (\<lambda>n. hex_char n = c) [0..<16]"

definition unescape :: "char \<Rightarrow> char option" where
  "unescape e = map_of [(CHR 0x22, CHR 0x22), (CHR 0x5C, CHR 0x5C), (CHR ''/'', CHR ''/''), (CHR ''b'', CHR 0x08),
     (CHR ''f'', CHR 0x0C), (CHR ''n'', CHR 0x0A), (CHR ''r'', CHR 0x0D), (CHR ''t'', CHR 0x09)] e"

text \<open>After the opening quote. A code point above \<open>0xFF\<close> is no \<open>char\<close>.\<close>

fun parse_string :: "string \<Rightarrow> (string \<times> string) option" where
  "parse_string [] = None"
| "parse_string (c # s) =
     (if c = CHR 0x22 then Some ([], s)
      else if c = CHR 0x5C then
        (case s of
           e # h1 # h2 # h3 # h4 # s' \<Rightarrow>
             if e = CHR ''u'' then
               (case (hex_digit_value h3, hex_digit_value h4) of
                  (Some a, Some b) \<Rightarrow>
                    if h1 = CHR ''0'' \<and> h2 = CHR ''0''
                    then map_option (\<lambda>(t, r). (char_of (16 * a + b) # t, r)) (parse_string s') else None
                | _ \<Rightarrow> None)
             else (case unescape e of None \<Rightarrow> None
                   | Some d \<Rightarrow> map_option (\<lambda>(t, r). (d # t, r)) (parse_string (h1 # h2 # h3 # h4 # s')))
         | e # s' \<Rightarrow> (case unescape e of None \<Rightarrow> None | Some d \<Rightarrow> map_option (\<lambda>(t, r). (d # t, r)) (parse_string s'))
         | [] \<Rightarrow> None)
      else if (of_char c :: nat) < 0x20 then None
      else map_option (\<lambda>(t, r). (c # t, r)) (parse_string s))"

definition is_number_char :: "char \<Rightarrow> bool" where
  "is_number_char c \<longleftrightarrow> is_digit c \<or> c \<in> {CHR ''-'', CHR ''+'', CHR ''.'', CHR ''e'', CHR ''E''}"

text \<open>The grammar of numbers: sign, integer part without a leading zero, fraction, exponent.\<close>

definition digits1 :: "string \<Rightarrow> bool" where
  "digits1 s \<longleftrightarrow> s \<noteq> [] \<and> list_all is_digit s"

definition json_exponent :: "string \<Rightarrow> bool" where
  "json_exponent s =
     (case s of [] \<Rightarrow> True
      | c # r \<Rightarrow> (c = CHR ''e'' \<or> c = CHR ''E'') \<and>
          (case r of [] \<Rightarrow> False | d # t \<Rightarrow> if d = CHR ''+'' \<or> d = CHR ''-'' then digits1 t else digits1 r))"

definition json_fraction :: "string \<Rightarrow> bool" where
  "json_fraction s =
     (case s of [] \<Rightarrow> True
      | c # r \<Rightarrow> if c = CHR ''.'' then takeWhile is_digit r \<noteq> [] \<and> json_exponent (dropWhile is_digit r) else json_exponent s)"

definition json_unsigned :: "string \<Rightarrow> bool" where
  "json_unsigned s \<longleftrightarrow>
     takeWhile is_digit s \<noteq> [] \<and> (hd s = CHR ''0'' \<longrightarrow> length (takeWhile is_digit s) = 1) \<and>
     json_fraction (dropWhile is_digit s)"

definition json_number :: "string \<Rightarrow> bool" where
  "json_number s \<longleftrightarrow> (case s of [] \<Rightarrow> False | c # r \<Rightarrow> if c = CHR ''-'' then json_unsigned r else json_unsigned s)"

definition parse_number :: "string \<Rightarrow> (json \<times> string) option" where
  "parse_number s =
     (let token = takeWhile is_number_char s
      in if json_number token then Some (JNumber token, dropWhile is_number_char s) else None)"

text \<open>The fuel bounds the nesting and the number of entries; the length of the text is enough.\<close>

fun parse_value :: "nat \<Rightarrow> string \<Rightarrow> (json \<times> string) option"
  and parse_members :: "nat \<Rightarrow> string \<Rightarrow> ((string \<times> json) list \<times> string) option"
  and parse_elements :: "nat \<Rightarrow> string \<Rightarrow> (json list \<times> string) option" where
  "parse_value 0 s = None"
| "parse_value (Suc n) s =
     (case skip s of
        [] \<Rightarrow> None
      | c # r \<Rightarrow>
          if c = CHR ''{'' then
            (if skip r \<noteq> [] \<and> hd (skip r) = CHR ''}'' then Some (JObject [], tl (skip r))
             else map_option (\<lambda>(ms, t). (JObject ms, t)) (parse_members n r))
          else if c = CHR ''['' then
            (if skip r \<noteq> [] \<and> hd (skip r) = CHR '']'' then Some (JArray [], tl (skip r))
             else map_option (\<lambda>(vs, t). (JArray vs, t)) (parse_elements n r))
          else if c = CHR 0x22 then map_option (\<lambda>(k, t). (JString k, t)) (parse_string r)
          else if take 4 (c # r) = ''true'' then Some (JBool True, drop 4 (c # r))
          else if take 5 (c # r) = ''false'' then Some (JBool False, drop 5 (c # r))
          else parse_number (c # r))"
| "parse_members 0 s = None"
| "parse_members (Suc n) s =
     (case skip s of
        [] \<Rightarrow> None
      | c # r \<Rightarrow>
          if c \<noteq> CHR 0x22 then None
          else (case parse_string r of
             None \<Rightarrow> None
           | Some (key, r1) \<Rightarrow>
               if skip r1 = [] \<or> hd (skip r1) \<noteq> CHR '':'' then None
               else (case parse_value n (tl (skip r1)) of
                  None \<Rightarrow> None
                | Some (v, r2) \<Rightarrow>
                    if skip r2 = [] then None
                    else if hd (skip r2) = CHR '','' then map_option (\<lambda>(ms, t). ((key, v) # ms, t)) (parse_members n (tl (skip r2)))
                    else if hd (skip r2) = CHR ''}'' then Some ([(key, v)], tl (skip r2))
                    else None)))"
| "parse_elements 0 s = None"
| "parse_elements (Suc n) s =
     (case parse_value n s of
        None \<Rightarrow> None
      | Some (v, r2) \<Rightarrow>
          if skip r2 = [] then None
          else if hd (skip r2) = CHR '','' then map_option (\<lambda>(vs, t). (v # vs, t)) (parse_elements n (tl (skip r2)))
          else if hd (skip r2) = CHR '']'' then Some ([v], tl (skip r2))
          else None)"

definition parse_json :: "string \<Rightarrow> json option" where
  "parse_json s =
     (case parse_value (length s) s of None \<Rightarrow> None | Some (v, r) \<Rightarrow> if skip r = [] then Some v else None)"

end
