(* ===== verification/Bench_Json_Correct.thy ===== *)
theory Bench_Json_Correct
  imports Bench_Json
begin

text \<open>
  The JSON writer writes JSON: the text of a document as a function of the document, the writer's calls produce
  that text, and the parser of \<open>Bench_Json\<close> gives the document back.
\<close>

section \<open>The text of a document\<close>

definition line_start :: "nat \<Rightarrow> string" where
  "line_start d = CHR 0x0A # concat (replicate d ''  '')"

fun value_text :: "nat \<Rightarrow> json \<Rightarrow> string"
  and members_text :: "nat \<Rightarrow> (string \<times> json) list \<Rightarrow> string"
  and elements_text :: "nat \<Rightarrow> json list \<Rightarrow> string" where
  "value_text d (JObject ms) = ''{'' @ members_text (Suc d) ms @ (if ms = [] then [] else line_start d) @ ''}''"
| "value_text d (JArray vs) = ''['' @ elements_text (Suc d) vs @ (if vs = [] then [] else line_start d) @ '']''"
| "value_text d (JString s) = string_text s"
| "value_text d (JBool b) = bool_text b"
| "value_text d (JNumber s) = s"
| "members_text d [] = []"
| "members_text d ((key, v) # ms) =
     line_start d @ string_text key @ '': '' @ value_text d v @ (if ms = [] then [] else '','' @ members_text d ms)"
| "elements_text d [] = []"
| "elements_text d (v # vs) = line_start d @ value_text d v @ (if vs = [] then [] else '','' @ elements_text d vs)"

text \<open>The documents the writer's calls can write: numbers are JSON numbers, elements objects or numbers.\<close>

fun json_ok :: "json \<Rightarrow> bool"
  and element_ok :: "json \<Rightarrow> bool" where
  "json_ok (JObject ms) = list_all (\<lambda>(key, v). json_ok v) ms"
| "json_ok (JArray vs) = list_all element_ok vs"
| "json_ok (JNumber s) = json_number s"
| "json_ok v = True"
| "element_ok (JObject ms) = list_all (\<lambda>(key, v). json_ok v) ms"
| "element_ok (JNumber s) = json_number s"
| "element_ok v = False"

lemma element_ok_json_ok: "element_ok v \<Longrightarrow> json_ok v"
  by (cases v) auto

section \<open>The calls write the text\<close>

definition comma_if :: "bool \<Rightarrow> string" where
  "comma_if b = (if b then '','' else [])"

lemma put_put [simp]: "put s (put t w) = put (t @ s) w"
  by (simp add: put_def)

lemma put_nothing [simp]: "put [] w = w"
  by (simp add: put_def)

lemma put_stack [simp]: "jw_stack (put s w) = jw_stack w"
  by (simp add: put_def)

lemma put_update [simp]: "(put s w)\<lparr>jw_stack := st\<rparr> = put s (w\<lparr>jw_stack := st\<rparr>)"
  by (simp add: put_def)

lemma newline_text: "newline_indent w = put (line_start (length (jw_stack w))) w"
  by (simp add: newline_indent_def line_start_def)

lemma separate_text:
  "jw_stack w = cur # below \<Longrightarrow>
   separate w = put (comma_if (any_written cur) @ line_start (Suc (length below))) (w\<lparr>jw_stack := cur\<lparr>any_written := True\<rparr> # below\<rparr>)"
  by (simp add: separate_def newline_text comma_if_def)

lemmas begin_text = write_key_def write_string_def begin_object_key_def begin_object_def begin_array_def push_state_def separate_text

lemma end_text:
  "jw_stack w = cur # below \<Longrightarrow>
   end_container close w = put ((if any_written cur then line_start (length below) else []) @ close) (w\<lparr>jw_stack := below\<rparr>)"
  by (simp add: end_container_def newline_text)

lemmas write_text_simps = begin_text end_object_def end_array_def end_text field_string_def field_bool_def

text \<open>Marking a container that has entries.\<close>

definition mark :: "bool \<Rightarrow> State \<Rightarrow> State" where
  "mark b cur = cur\<lparr>any_written := any_written cur \<or> b\<rparr>"

lemma mark_simps [simp]:
  "mark False cur = cur" "mark True cur = cur\<lparr>any_written := True\<rparr>" "any_written (mark b cur) = (any_written cur \<or> b)"
  "mark b (cur\<lparr>any_written := True\<rparr>) = cur\<lparr>any_written := True\<rparr>"
  by (simp_all add: mark_def)

lemma write_text:
  "jw_stack w = cur # below \<Longrightarrow> json_ok v \<Longrightarrow>
   write_member key v w =
     put (comma_if (any_written cur) @ line_start (Suc (length below)) @ string_text key @ '': '' @ value_text (Suc (length below)) v)
       (w\<lparr>jw_stack := mark True cur # below\<rparr>)"
  "jw_stack w = cur # below \<Longrightarrow> list_all (\<lambda>(key, v). json_ok v) ms \<Longrightarrow>
   write_members ms w =
     put (comma_if (any_written cur \<and> ms \<noteq> []) @ members_text (Suc (length below)) ms)
       (w\<lparr>jw_stack := mark (ms \<noteq> []) cur # below\<rparr>)"
  "jw_stack w = cur # below \<Longrightarrow> element_ok v \<Longrightarrow>
   write_element v w =
     put (comma_if (any_written cur) @ line_start (Suc (length below)) @ value_text (Suc (length below)) v)
       (w\<lparr>jw_stack := mark True cur # below\<rparr>)"
  "jw_stack w = cur # below \<Longrightarrow> list_all element_ok vs \<Longrightarrow>
   write_elements vs w =
     put (comma_if (any_written cur \<and> vs \<noteq> []) @ elements_text (Suc (length below)) vs)
       (w\<lparr>jw_stack := mark (vs \<noteq> []) cur # below\<rparr>)"
proof (induction key v w and ms w and v w and vs w arbitrary: cur below and cur below and cur below and cur below
    rule: write_member_write_members_write_element_write_elements.induct)
qed (auto simp: write_text_simps comma_if_def)

section \<open>The parser reads the text back\<close>

lemma hex_char_value: "n < 16 \<Longrightarrow> hex_digit_value (hex_char n) = Some n"
proof -
  have "list_all (\<lambda>n. hex_digit_value (hex_char n) = Some n) [0..<16]" by code_simp
  then show "n < 16 \<Longrightarrow> hex_digit_value (hex_char n) = Some n" by (simp add: list_all_iff)
qed

lemma unescape_u: "unescape CHR ''u'' = None"
  by code_simp

lemma parse_escape:
  assumes "unescape e = Some d"
  shows "parse_string (CHR 0x5C # e # s) = map_option (\<lambda>(t, r). (d # t, r)) (parse_string s)"
proof -
  have e: "e \<noteq> CHR ''u''" using assms unescape_u by auto
  then show ?thesis using assms by (auto split: list.split)
qed

lemma parse_escaped_char:
  "parse_string (escape_char c @ s) = map_option (\<lambda>(t, r). (c # t, r)) (parse_string s)"
proof -
  have simple: "unescape CHR 0x22 = Some CHR 0x22" "unescape CHR 0x5C = Some CHR 0x5C" "unescape CHR ''n'' = Some CHR 0x0A"
      "unescape CHR ''r'' = Some CHR 0x0D" "unescape CHR ''t'' = Some CHR 0x09"
    by code_simp+
  show ?thesis
  proof (cases "c \<in> {CHR 0x22, CHR 0x5C, CHR 0x0A, CHR 0x0D, CHR 0x09}")
    case True
    then show ?thesis
      by (elim insertE emptyE) (simp_all add: escape_char_def parse_escape simple del: parse_string.simps(2))
  next
    case False
    show ?thesis
    proof (cases "(of_char c :: nat) < 0x20")
      case True
      have e: "escape_char c = CHR 0x5C # ''u00'' @ [hex_char (of_char c div 16 mod 16), hex_char (of_char c mod 16)]"
        using False True by (simp add: escape_char_def)
      have "(of_char c div 16 mod 16 :: nat) < 16" "(of_char c mod 16 :: nat) < 16" by simp_all
      note h = this [THEN hex_char_value]
      have "(of_char c div 16 :: nat) mod 16 = of_char c div 16" using True by (intro mod_less) simp
      then have "char_of (16 * (of_char c div 16 mod 16) + of_char c mod 16 :: nat) = c" by simp
      then show ?thesis unfolding e by (simp add: h [unfolded of_nat_id])
    next
      case wide: False
      then have "escape_char c = [c]" using False by (simp add: escape_char_def)
      then show ?thesis using False wide by simp
    qed
  qed
qed

lemma parse_string_text: "parse_string (concat (map escape_char s) @ CHR 0x22 # rest) = Some (s, rest)"
  by (induction s) (simp_all add: parse_escaped_char del: parse_string.simps(2), simp)

subsection \<open>Numbers\<close>

lemma digit_number_char: "is_digit c \<Longrightarrow> is_number_char c"
  by (simp add: is_number_char_def)

lemma digits_number_chars: "list_all is_digit s \<Longrightarrow> list_all is_number_char s"
  by (auto simp: list_all_iff digit_number_char)

lemma exponent_chars: "json_exponent s \<Longrightarrow> list_all is_number_char s"
  by (auto simp: json_exponent_def digits1_def digits_number_chars is_number_char_def split: list.splits if_splits)

lemma fraction_chars: "json_fraction s \<Longrightarrow> list_all is_number_char s"
proof (cases s)
  case (Cons c r)
  assume f: "json_fraction s"
  show ?thesis
  proof (cases "c = CHR ''.''")
    case True
    then have "list_all is_number_char (dropWhile is_digit r)" using f exponent_chars by (simp add: json_fraction_def Cons)
    moreover have "list_all is_number_char (takeWhile is_digit r)"
      by (rule digits_number_chars) (auto simp: list_all_iff dest: set_takeWhileD)
    ultimately have "list_all is_number_char r" by (metis list_all_append takeWhile_dropWhile_id)
    then show ?thesis by (simp add: Cons True is_number_char_def)
  next
    case False
    then have "json_exponent s" using f by (simp add: json_fraction_def Cons)
    then show ?thesis by (rule exponent_chars)
  qed
qed simp

lemma unsigned_chars: "json_unsigned s \<Longrightarrow> list_all is_number_char s \<and> s \<noteq> []"
proof -
  assume u: "json_unsigned s"
  have "list_all is_number_char (takeWhile is_digit s)"
    by (rule digits_number_chars) (auto simp: list_all_iff dest: set_takeWhileD)
  moreover have "list_all is_number_char (dropWhile is_digit s)" using u by (intro fraction_chars) (simp add: json_unsigned_def)
  ultimately have "list_all is_number_char s" by (metis list_all_append takeWhile_dropWhile_id)
  then show ?thesis using u by (auto simp: json_unsigned_def)
qed

lemma number_chars: "json_number s \<Longrightarrow> s \<noteq> [] \<and> list_all is_number_char s"
proof (cases s)
  case (Cons c r)
  assume "json_number s"
  then show ?thesis using unsigned_chars [of r] unsigned_chars [of s]
    by (cases "c = CHR ''-''") (simp_all add: json_number_def Cons is_number_char_def)
qed (simp add: json_number_def)

text \<open>What follows a value in a document never continues a number.\<close>

definition delimited :: "string \<Rightarrow> bool" where
  "delimited s \<longleftrightarrow> s = [] \<or> \<not> is_number_char (hd s)"

lemma take_number:
  assumes "list_all is_number_char s" "delimited rest"
  shows "takeWhile is_number_char (s @ rest) = s" "dropWhile is_number_char (s @ rest) = rest"
proof -
  have "takeWhile is_number_char rest = []" "dropWhile is_number_char rest = rest"
    using assms(2) by (cases rest; simp add: delimited_def)+
  then show "takeWhile is_number_char (s @ rest) = s" "dropWhile is_number_char (s @ rest) = rest"
    using assms(1) by (simp_all add: takeWhile_append2 dropWhile_append2 list_all_iff)
qed

lemma number_char_start:
  assumes "is_number_char c"
  shows "c \<noteq> CHR ''{''" "c \<noteq> CHR ''[''" "c \<noteq> CHR 0x22" "c \<noteq> CHR ''t''" "c \<noteq> CHR ''f''" "\<not> is_ws c"
  using assms by (auto simp: is_number_char_def is_digit_def is_ws_def)

lemma parse_number_value:
  assumes "json_number s" "delimited rest"
  shows "0 < n \<Longrightarrow> parse_value n (s @ rest) = Some (JNumber s, rest)"
proof -
  assume "0 < n"
  then obtain k where n: "n = Suc k" by (cases n) auto
  obtain c r where s: "s = c # r" using number_chars [OF assms(1)] by (cases s) auto
  have c: "is_number_char c" "list_all is_number_char s" using number_chars [OF assms(1)] by (simp_all add: s)
  have "skip (s @ rest) = s @ rest" using number_char_start [OF c(1)] by (simp add: s skip_def)
  then have "parse_value n (s @ rest) = parse_number (s @ rest)"
    using number_char_start [OF c(1)] by (simp add: s n)
  then show ?thesis using assms(1) by (simp add: parse_number_def take_number [OF c(2) assms(2)])
qed

subsection \<open>Whitespace\<close>

lemma skip_simps [simp]:
  "is_ws c \<Longrightarrow> skip (c # s) = skip s" "\<not> is_ws c \<Longrightarrow> skip (c # s) = c # s" "skip [] = []"
  by (simp_all add: skip_def)

lemma is_ws_chars [simp]:
  "is_ws CHR '' ''" "is_ws CHR 0x0A" "\<not> is_ws CHR ''{''" "\<not> is_ws CHR ''}''" "\<not> is_ws CHR ''[''" "\<not> is_ws CHR '']''"
  "\<not> is_ws CHR '',''" "\<not> is_ws CHR '':''" "\<not> is_ws CHR 0x22" "\<not> is_ws CHR ''t''" "\<not> is_ws CHR ''f''"
  by (simp_all add: is_ws_def)

lemma skip_line_start [simp]: "skip (line_start d @ s) = skip s"
proof -
  have "skip (concat (replicate d ''  '') @ s) = skip s" by (induction d) simp_all
  then show ?thesis by (simp add: line_start_def)
qed

lemma parse_skips:
  "skip s = skip t \<Longrightarrow> parse_value n s = parse_value n t"
  "skip s = skip t \<Longrightarrow> parse_members n s = parse_members n t"
  "skip s = skip t \<Longrightarrow> parse_elements n s = parse_elements n t"
proof -
  show v: "skip s = skip t \<Longrightarrow> parse_value n s = parse_value n t" for n by (cases n) simp_all
  show "skip s = skip t \<Longrightarrow> parse_members n s = parse_members n t" by (cases n) simp_all
  show "skip s = skip t \<Longrightarrow> parse_elements n s = parse_elements n t" using v by (cases n) simp_all
qed

lemma delimited_simps [simp]:
  "delimited (CHR '','' # s)" "delimited (CHR ''}'' # s)" "delimited (CHR '']'' # s)" "delimited (line_start d @ s)" "delimited []"
  by (simp_all add: delimited_def is_number_char_def is_digit_def line_start_def)

subsection \<open>Documents\<close>

text \<open>The fuel a document needs.\<close>

fun value_size :: "json \<Rightarrow> nat"
  and members_size :: "(string \<times> json) list \<Rightarrow> nat"
  and elements_size :: "json list \<Rightarrow> nat" where
  "value_size (JObject ms) = Suc (members_size ms)"
| "value_size (JArray vs) = Suc (elements_size vs)"
| "value_size v = 1"
| "members_size [] = 0"
| "members_size ((key, v) # ms) = Suc (value_size v + members_size ms)"
| "elements_size [] = 0"
| "elements_size (v # vs) = Suc (value_size v + elements_size vs)"

lemma text_starts:
  "ms \<noteq> [] \<Longrightarrow> skip (members_text d ms @ s) \<noteq> [] \<and> hd (skip (members_text d ms @ s)) = CHR 0x22"
  by (cases ms) (auto simp: string_text_def)

lemma element_start:
  assumes "element_ok v"
  shows "hd (skip (value_text d v @ s)) \<noteq> CHR '']''"
proof (cases v)
  case (JNumber n)
  obtain c r where n: "n = c # r" "is_number_char c" using number_chars [of n] assms JNumber by (cases n) auto
  have "c \<noteq> CHR '']''" using n(2) by (auto simp: is_number_char_def is_digit_def)
  then show ?thesis using number_char_start(6) [OF n(2)] by (simp add: JNumber n(1))
qed (use assms in auto)

lemma elements_start:
  "list_all element_ok vs \<Longrightarrow> vs \<noteq> [] \<Longrightarrow> hd (skip (elements_text d vs @ s)) \<noteq> CHR '']''"
  by (cases vs) (simp_all add: element_start)

lemma parse_bool_value: "0 < n \<Longrightarrow> parse_value n (bool_text b @ rest) = Some (JBool b, rest)"
  by (cases n; cases b) (simp_all add: bool_text_def)

lemma parse_string_value: "0 < n \<Longrightarrow> parse_value n (string_text s @ rest) = Some (JString s, rest)"
  by (cases n) (simp_all add: string_text_def parse_string_text)

lemma parse_text:
  "json_ok v \<Longrightarrow> value_size v \<le> n \<Longrightarrow> delimited rest \<Longrightarrow> parse_value n (value_text d v @ rest) = Some (v, rest)"
  "list_all (\<lambda>(key, v). json_ok v) ms \<Longrightarrow> members_size ms \<le> n \<Longrightarrow> ms \<noteq> [] \<Longrightarrow>
   parse_members n (members_text d ms @ line_start d' @ CHR ''}'' # rest) = Some (ms, rest)"
  "list_all element_ok vs \<Longrightarrow> elements_size vs \<le> n \<Longrightarrow> vs \<noteq> [] \<Longrightarrow>
   parse_elements n (elements_text d vs @ line_start d' @ CHR '']'' # rest) = Some (vs, rest)"
proof (induction v and ms and vs arbitrary: n rest d and n rest d d' and n rest d d' rule: value_size_members_size_elements_size.induct)
  case (1 ms)
  obtain k where n: "n = Suc k" "members_size ms \<le> k" using "1.prems"(2) by (cases n) auto
  show ?case
  proof (cases "ms = []")
    case False
    have "parse_members k (members_text (Suc d) ms @ line_start d @ CHR ''}'' # rest) = Some (ms, rest)"
      using "1.IH" "1.prems"(1) n(2) False by simp
    then show ?thesis using text_starts [OF False, of "Suc d" "line_start d @ CHR ''}'' # rest"] False by (simp add: n)
  qed (simp add: n)
next
  case (2 vs)
  obtain k where n: "n = Suc k" "elements_size vs \<le> k" using "2.prems"(2) by (cases n) auto
  show ?case
  proof (cases "vs = []")
    case False
    have p: "parse_elements k (elements_text (Suc d) vs @ line_start d @ CHR '']'' # rest) = Some (vs, rest)"
      using "2.IH" "2.prems"(1) n(2) False by simp
    have "hd (skip (elements_text (Suc d) vs @ line_start d @ CHR '']'' # rest)) \<noteq> CHR '']''"
      using elements_start "2.prems"(1) False by simp
    then show ?thesis using p False by (simp add: n)
  qed (simp add: n)
next
  case (5 key v ms)
  obtain k where n: "n = Suc k" "value_size v \<le> k" "members_size ms \<le> k" using "5.prems"(2) by (cases n) auto
  let ?after = "(if ms = [] then [] else '','' @ members_text d ms) @ line_start d' @ CHR ''}'' # rest"
  have "parse_value k (value_text d v @ ?after) = Some (v, ?after)"
    by (rule "5.IH"(1)) (use "5.prems"(1) n in auto)
  then have v: "parse_value k (CHR '' '' # value_text d v @ ?after) = Some (v, ?after)"
    by (subst parse_skips(1) [of _ "value_text d v @ ?after"]) simp_all
  have key: "parse_string (concat (map escape_char key) @ CHR 0x22 # s) = Some (key, s)" for s by (rule parse_string_text)
  show ?case
  proof (cases "ms = []")
    case True
    then show ?thesis using v key by (simp add: n string_text_def)
  next
    case False
    have "parse_members k (members_text d ms @ line_start d' @ CHR ''}'' # rest) = Some (ms, rest)"
      by (rule "5.IH"(2)) (use "5.prems"(1) n False in auto)
    then show ?thesis using v key False by (simp add: n string_text_def)
  qed
next
  case (7 v vs)
  obtain k where n: "n = Suc k" "value_size v \<le> k" "elements_size vs \<le> k" using "7.prems"(2) by (cases n) auto
  let ?after = "(if vs = [] then [] else '','' @ elements_text d vs) @ line_start d' @ CHR '']'' # rest"
  have "parse_value k (value_text d v @ ?after) = Some (v, ?after)"
    by (rule "7.IH"(1)) (use "7.prems"(1) n element_ok_json_ok in auto)
  then have v: "parse_value k (line_start d @ value_text d v @ ?after) = Some (v, ?after)"
    by (subst parse_skips(1) [of _ "value_text d v @ ?after"]) simp_all
  show ?case
  proof (cases "vs = []")
    case True
    then show ?thesis using v by (simp add: n)
  next
    case False
    have "parse_elements k (elements_text d vs @ line_start d' @ CHR '']'' # rest) = Some (vs, rest)"
      by (rule "7.IH"(2)) (use "7.prems"(1) n False in auto)
    then show ?thesis using v False by (simp add: n)
  qed
qed (auto simp: parse_string_value parse_bool_value parse_number_value Suc_le_eq)

lemma text_length:
  "json_ok v \<Longrightarrow> value_size v \<le> length (value_text d v)"
  "list_all (\<lambda>(key, v). json_ok v) ms \<Longrightarrow> members_size ms \<le> length (members_text d ms)"
  "list_all element_ok vs \<Longrightarrow> elements_size vs \<le> length (elements_text d vs)"
proof (induction v and ms and vs arbitrary: d and d and d rule: value_size_members_size_elements_size.induct)
  case (1 ms)
  then show ?case using "1.IH" [of "Suc d"] by (auto intro!: le_SucI trans_le_add1)
next
  case (2 vs)
  then show ?case using "2.IH" [of "Suc d"] by (auto intro!: le_SucI trans_le_add1)
next
  case (5 key v ms)
  then have "value_size v \<le> length (value_text d v)" "members_size ms \<le> length (members_text d ms)" by simp_all
  then show ?case by (cases "ms = []") (simp_all add: line_start_def)
next
  case (7 v vs)
  then have "value_size v \<le> length (value_text d v)" "elements_size vs \<le> length (elements_text d vs)"
    using element_ok_json_ok by simp_all
  then show ?case by (cases "vs = []") (simp_all add: line_start_def)
qed (auto simp: string_text_def bool_text_def Suc_le_eq dest: number_chars)

lemma document_text:
  assumes "json_ok (JObject ms)"
  shows "write_element (JObject ms) json_writer_new = \<lparr>jw_out = value_text 0 (JObject ms), jw_stack = []\<rparr>"
proof -
  let ?w = "begin_object json_writer_new"
  have w: "?w = \<lparr>jw_out = ''{'', jw_stack = [\<lparr>any_written = False, is_array = False\<rparr>]\<rparr>"
    by (simp add: begin_object_def json_writer_new_def separate_def push_state_def put_def)
  have "write_members ms ?w = put (members_text 1 ms) (?w\<lparr>jw_stack := [mark (ms \<noteq> []) \<lparr>any_written = False, is_array = False\<rparr>]\<rparr>)"
    using write_text(2) [of ?w "\<lparr>any_written = False, is_array = False\<rparr>" "[]" ms] assms by (simp add: w comma_if_def)
  then show ?thesis by (auto simp: w end_object_def end_text put_def)
qed

lemma json_roundtrip_text:
  assumes "json_ok (JObject ms)"
  shows "parse_json (jw_out (write_element (JObject ms) json_writer_new)) = Some (JObject ms)"
proof -
  have "parse_value (length (value_text 0 (JObject ms))) (value_text 0 (JObject ms) @ []) = Some (JObject ms, [])"
    by (rule parse_text(1) [OF assms text_length(1) [OF assms]]) simp
  then show ?thesis unfolding document_text [OF assms] by (simp add: parse_json_def)
qed

text \<open>The same with the line break that ends the file.\<close>

lemma json_roundtrip_line:
  assumes "json_ok (JObject ms)"
  shows "parse_json (jw_out (write_element (JObject ms) json_writer_new) @ [CHR 0x0A]) = Some (JObject ms)"
proof -
  have "value_size (JObject ms) \<le> Suc (length (value_text 0 (JObject ms)))" using text_length(1) [OF assms] by (rule le_SucI)
  moreover have "delimited [CHR 0x0A]" by (simp add: delimited_def is_number_char_def is_digit_def)
  ultimately have "parse_value (Suc (length (value_text 0 (JObject ms)))) (value_text 0 (JObject ms) @ [CHR 0x0A]) =
      Some (JObject ms, [CHR 0x0A])"
    by (rule parse_text(1) [OF assms])
  then show ?thesis unfolding document_text [OF assms]
    by (simp add: parse_json_def del: parse_value.simps value_text.simps)
qed

text \<open>
  C32. Whatever the strings in it, a document written with the writer's calls is JSON text: parsing it gives back
  the document, and every container opened has been closed.
\<close>

theorem json_roundtrip:
  assumes "json_ok (JObject ms)"
  shows "parse_json (jw_out (write_element (JObject ms) json_writer_new)) = Some (JObject ms) \<and>
    jw_stack (write_element (JObject ms) json_writer_new) = []"
  using json_roundtrip_text [OF assms] by (simp only: document_text [OF assms] JsonWriter.simps simp_thms)

theorem json_roundtrip_witness:
  "parse_json (jw_out (write_element (JObject [(''quote '' @ [CHR 0x22, CHR 0x01], JArray [JNumber ''-1.5e+10'', JObject []])])
     json_writer_new)) = Some (JObject [(''quote '' @ [CHR 0x22, CHR 0x01], JArray [JNumber ''-1.5e+10'', JObject []])])"
proof -
  have "json_ok (JObject [(''quote '' @ [CHR 0x22, CHR 0x01], JArray [JNumber ''-1.5e+10'', JObject []])])" by code_simp
  then show ?thesis by (rule json_roundtrip [THEN conjunct1])
qed

end
