(* ===== verification/Bench_Statistics.thy ===== *)
theory Bench_Statistics
  imports Float64
begin

text \<open>
  \<open>benchmarks/harness/Statistics.hpp\<close>: percentiles, the summary of a run's samples and the least-squares
  fit, in double arithmetic. \<open>std::sort\<close> sorts by the order of the doubles; a NaN among the samples
  would be undefined behaviour, timings are never NaN.
\<close>

record Summary =
  sum_count :: nat
  sum_min :: float64
  sum_p25 :: float64
  sum_median :: float64
  sum_p75 :: float64
  sum_max :: float64
  sum_iqr :: float64
  sum_mean :: float64

definition summary_new :: Summary where
  "summary_new = \<lparr>sum_count = 0, sum_min = 0, sum_p25 = 0, sum_median = 0, sum_p75 = 0, sum_max = 0,
     sum_iqr = 0, sum_mean = 0\<rparr>"

definition percentile_sorted :: "float64 list \<Rightarrow> float64 \<Rightarrow> float64" where
  "percentile_sorted vs fraction =
     (if vs = [] then 0
      else if length vs = 1 then hd vs
      else
        (let position = f64_mul fraction (f64_of_int (int (length vs - 1)));
             lower = f64_floor position;
             upper = f64_ceil position;
             weight = f64_sub position (f64_of_int lower)
         in f64_add (f64_mul (vs ! nat lower) (f64_sub (f64_lit 1 1) weight))
                    (f64_mul (vs ! nat upper) weight)))"

definition summarize :: "float64 list \<Rightarrow> Summary" where
  "summarize samples =
     (if samples = [] then summary_new
      else
        (let s = sort_key f64_key samples;
             p25 = percentile_sorted s (f64_lit 25 100);
             p75 = percentile_sorted s (f64_lit 75 100);
             total = fold (\<lambda>v t. f64_add t v) s 0
         in \<lparr>sum_count = length samples, sum_min = hd s, sum_p25 = p25,
             sum_median = percentile_sorted s (f64_lit 50 100), sum_p75 = p75, sum_max = last s,
             sum_iqr = f64_sub p75 p25, sum_mean = f64_div total (f64_of_int (int (length samples)))\<rparr>))"

record LinearFit =
  fit_intercept :: float64
  fit_slope :: float64
  fit_r_squared :: float64
  fit_valid :: bool

definition fit_new :: LinearFit where
  "fit_new = \<lparr>fit_intercept = 0, fit_slope = 0, fit_r_squared = 0, fit_valid = False\<rparr>"

text \<open>The two loops: the four sums, and the total and residual sums of squares.\<close>

definition fit_sums :: "(float64 \<times> float64) list \<Rightarrow> float64 \<times> float64 \<times> float64 \<times> float64" where
  "fit_sums ps =
     fold (\<lambda>(x, y) (sx, sy, sxx, sxy).
        (f64_add sx x, f64_add sy y, f64_add sxx (f64_mul x x), f64_add sxy (f64_mul x y))) ps (0, 0, 0, 0)"

definition fit_squares :: "float64 \<Rightarrow> float64 \<Rightarrow> float64 \<Rightarrow> (float64 \<times> float64) list \<Rightarrow> float64 \<times> float64" where
  "fit_squares intercept slope mean_y ps =
     fold (\<lambda>(x, y) (total, residual).
        (let predicted = f64_add intercept (f64_mul slope x)
         in (f64_add total (f64_mul (f64_sub y mean_y) (f64_sub y mean_y)),
             f64_add residual (f64_mul (f64_sub y predicted) (f64_sub y predicted))))) ps (0, 0)"

definition fit_linear :: "float64 list \<Rightarrow> float64 list \<Rightarrow> LinearFit" where
  "fit_linear xs ys =
     (if length xs \<noteq> length ys \<or> length xs < 2 then fit_new
      else
        (let n = f64_of_int (int (length xs)) in
         case fit_sums (zip xs ys) of (sum_x, sum_y, sum_xx, sum_xy) \<Rightarrow>
           (let denominator = f64_sub (f64_mul n sum_xx) (f64_mul sum_x sum_x) in
            if f64_less (f64_abs denominator) (f64_lit 1 (10 ^ 12)) then fit_new
            else
              (let slope = f64_div (f64_sub (f64_mul n sum_xy) (f64_mul sum_x sum_y)) denominator;
                   intercept = f64_div (f64_sub sum_y (f64_mul slope sum_x)) n;
                   mean_y = f64_div sum_y n
               in case fit_squares intercept slope mean_y (zip xs ys) of (ss_total, ss_residual) \<Rightarrow>
                    \<lparr>fit_intercept = intercept, fit_slope = slope,
                     fit_r_squared = (if f64_less 0 ss_total
                                      then f64_sub (f64_lit 1 1) (f64_div ss_residual ss_total) else 0),
                     fit_valid = True\<rparr>))))"

section \<open>The summary is about the samples, not their order\<close>

lemma f64_le_key: "\<not> f64_is_nan x \<Longrightarrow> \<not> f64_is_nan y \<Longrightarrow> f64_le x y \<longleftrightarrow> f64_key x \<le> f64_key y"
  by (simp add: f64_le_def)

lemma key_injective: "\<not> f64_negative x \<Longrightarrow> \<not> f64_negative y \<Longrightarrow> f64_key x = f64_key y \<Longrightarrow> x = y"
  by (simp add: f64_key_def word_uint_eq_iff)

lemma sorted_extremes:
  assumes "xs \<noteq> []" "x \<in> set xs"
  shows "f64_key (hd (sort_key f64_key xs)) \<le> f64_key x" "f64_key x \<le> f64_key (last (sort_key f64_key xs))"
proof -
  let ?s = "sort_key f64_key xs"
  obtain i where i: "i < length ?s" "?s ! i = x" using assms(2) by (metis in_set_conv_nth set_sort)
  have s: "sorted (map f64_key ?s)" by simp
  have "map f64_key ?s ! 0 \<le> map f64_key ?s ! i" "map f64_key ?s ! i \<le> map f64_key ?s ! (length ?s - 1)"
    by (rule sorted_nth_mono [OF s]; use i in simp)+
  moreover have "hd ?s = ?s ! 0" "last ?s = ?s ! (length ?s - 1)"
    using assms(1) by (metis hd_conv_nth length_0_conv length_sort, metis last_conv_nth length_0_conv length_sort)
  moreover have "0 < length ?s" using assms(1) by simp
  ultimately show "f64_key (hd ?s) \<le> f64_key x" "f64_key x \<le> f64_key (last ?s)" using i by simp_all
qed

lemma same_sort:
  assumes "mset xs = mset ys" "\<forall>v \<in> set xs. \<not> f64_negative v"
  shows "sort_key f64_key xs = sort_key f64_key ys"
proof (rule sort_key_inj_key_eq)
  show "inj_on f64_key (set xs)" using assms(2) by (auto intro!: inj_onI key_injective)
qed (use assms(1) in simp_all)

text \<open>
  The summary of samples that are no NaN: their number, a smallest and a largest sample, and, when no sample has
  its sign bit set as no time has, a result that does not depend on the order the samples arrived in.
\<close>

theorem summarize_order:
  assumes "samples \<noteq> []" "\<forall>v \<in> set samples. \<not> f64_is_nan v"
  shows "sum_count (summarize samples) = length samples \<and>
    sum_min (summarize samples) \<in> set samples \<and> sum_max (summarize samples) \<in> set samples \<and>
    (\<forall>v \<in> set samples. f64_le (sum_min (summarize samples)) v \<and> f64_le v (sum_max (summarize samples))) \<and>
    ((\<forall>v \<in> set samples. \<not> f64_negative v) \<longrightarrow>
       (\<forall>others. mset others = mset samples \<longrightarrow> summarize others = summarize samples))"
proof (intro conjI impI allI)
  let ?s = "sort_key f64_key samples"
  have s: "sum_min (summarize samples) = hd ?s" "sum_max (summarize samples) = last ?s" "?s \<noteq> []"
    using assms(1) by (simp_all add: summarize_def Let_def) (metis length_0_conv length_sort)
  show "sum_count (summarize samples) = length samples" using assms(1) by (simp add: summarize_def Let_def)
  show m: "sum_min (summarize samples) \<in> set samples" "sum_max (summarize samples) \<in> set samples"
    unfolding s(1,2) using hd_in_set [OF s(3)] last_in_set [OF s(3)] by simp_all
  show "\<forall>v \<in> set samples. f64_le (sum_min (summarize samples)) v \<and> f64_le v (sum_max (summarize samples))"
    using m assms sorted_extremes [OF assms(1)] by (simp add: f64_le_key s(1,2))
  fix others
  assume pos: "\<forall>v \<in> set samples. \<not> f64_negative v" and same: "mset others = mset samples"
  have "sort_key f64_key samples = sort_key f64_key others" using same_sort [OF same [symmetric] pos] .
  moreover have "length others = length samples" using same by (metis size_mset)
  ultimately show "summarize others = summarize samples" using assms(1) by (auto simp: summarize_def)
qed

theorem summarize_order_witness:
  "f64_le (sum_min (summarize [f64_of_int 3, f64_of_int 1])) (f64_of_int 3) \<and>
   summarize [f64_of_int 1, f64_of_int 3] = summarize [f64_of_int 3, f64_of_int 1]"
proof -
  have h: "[f64_of_int 3, f64_of_int 1] \<noteq> []" "\<forall>v \<in> set [f64_of_int 3, f64_of_int 1]. \<not> f64_is_nan v"
      "\<forall>v \<in> set [f64_of_int 3, f64_of_int 1]. \<not> f64_negative v"
    by code_simp+
  have m: "mset [f64_of_int 1, f64_of_int 3] = mset [f64_of_int 3, f64_of_int 1]" by simp
  note r = summarize_order [OF h(1,2)]
  have "summarize [f64_of_int 1, f64_of_int 3] = summarize [f64_of_int 3, f64_of_int 1]" using r h(3) m by blast
  moreover have "f64_le (sum_min (summarize [f64_of_int 3, f64_of_int 1])) (f64_of_int 3)"
    using r by (meson list.set_intros(1))
  ultimately show ?thesis by blast
qed

end
