(* ===== verification/Bench_Runner.thy ===== *)
theory Bench_Runner
  imports Bench_Statistics
begin

text \<open>
  \<open>benchmarks/harness/BenchmarkRunner.hpp\<close> and \<open>.cpp\<close>: the measurement protocol, that is the schedule of the
  legs, the samples, the flagging of throttled samples and the summaries. What the machine answers (the
  clock readings, the elapsed seconds of a leg) comes from an environment of any type that every reading
  may change; sleeping between samples changes nothing the harness sees.
\<close>

section \<open>The random numbers of the schedule\<close>

text \<open>\<open>std::mt19937_64\<close>, as the C++ standard fixes it.\<close>

record mt19937_64 =
  mt_state :: "u64 list"
  mt_index :: nat

definition mt_next_seed :: "u64 list \<Rightarrow> nat \<Rightarrow> u64 list" where
  "mt_next_seed xs i = xs @ [6364136223846793005 * (last xs XOR drop_bit 62 (last xs)) + of_nat i]"

definition mt_seed :: "u64 \<Rightarrow> mt19937_64" where
  "mt_seed s = \<lparr>mt_state = fold (\<lambda>i xs. mt_next_seed xs i) [1..<312] [s], mt_index = 312\<rparr>"

definition mt_twist_at :: "nat \<Rightarrow> u64 list \<Rightarrow> u64 list" where
  "mt_twist_at i xs =
     (let y = (xs ! i AND 0xFFFFFFFF80000000) OR (xs ! ((i + 1) mod 312) AND 0x7FFFFFFF)
      in xs[i := xs ! ((i + 156) mod 312) XOR drop_bit 1 y XOR (if bit y 0 then 0xB5026F5AA96619E9 else 0)])"

definition mt_twist :: "u64 list \<Rightarrow> u64 list" where
  "mt_twist xs = fold mt_twist_at [0..<312] xs"

definition mt_temper :: "u64 \<Rightarrow> u64" where
  "mt_temper y0 =
     (let y1 = y0 XOR (drop_bit 29 y0 AND 0x5555555555555555);
          y2 = y1 XOR (push_bit 17 y1 AND 0x71D67FFFEDA60000);
          y3 = y2 XOR (push_bit 37 y2 AND 0xFFF7EEE000000000)
      in y3 XOR drop_bit 43 y3)"

definition mt_generate :: "mt19937_64 \<Rightarrow> u64 \<times> mt19937_64" where
  "mt_generate g =
     (let (xs, i) = (if 312 \<le> mt_index g then (mt_twist (mt_state g), 0) else (mt_state g, mt_index g))
      in (mt_temper (xs ! i), \<lparr>mt_state = xs, mt_index = Suc i\<rparr>))"

section \<open>Data\<close>

record Sample =
  smp_seconds :: float64
  smp_clock_mhz :: float64
  smp_throttled :: bool
  smp_warmup :: bool
  smp_position :: int

type_synonym recorder = "(string \<times> u64) list"

definition recorder_count :: "string \<Rightarrow> u64 \<Rightarrow> recorder \<Rightarrow> recorder" where
  "recorder_count name v entries = entries @ [(name, v)]"

record 'e Leg =
  leg_name :: string
  leg_run_once :: "'e \<Rightarrow> float64 \<times> 'e"
  leg_record_counters :: "('e \<Rightarrow> recorder \<Rightarrow> recorder) option"

record LegResult =
  lr_name :: string
  lr_samples :: "Sample list"
  lr_timing :: Summary
  lr_timing_including_throttled :: Summary
  lr_throttled_count :: u32
  lr_counters :: recorder

definition leg_result_new :: "string \<Rightarrow> LegResult" where
  "leg_result_new name = \<lparr>lr_name = name, lr_samples = [], lr_timing = summary_new,
     lr_timing_including_throttled = summary_new, lr_throttled_count = 0, lr_counters = []\<rparr>"

datatype LegOrder = OrderFixed | OrderReverse | OrderShuffle

fun leg_order_to_string :: "LegOrder \<Rightarrow> string" where
  "leg_order_to_string OrderFixed = ''fixed''"
| "leg_order_to_string OrderReverse = ''reverse''"
| "leg_order_to_string OrderShuffle = ''shuffle''"

text \<open>\<open>None\<close> is the answer \<open>false\<close>, which leaves the caller's variable alone.\<close>

definition parse_leg_order :: "string \<Rightarrow> LegOrder option" where
  "parse_leg_order s = List.find (\<lambda>candidate. s = leg_order_to_string candidate) [OrderFixed, OrderReverse, OrderShuffle]"

record RunOptions =
  ro_leg_order :: LegOrder
  ro_order_seed :: u64
  ro_repetitions :: int
  ro_warmup :: int
  ro_cooldown :: int
  ro_throttle_fraction :: float64

definition run_options_new :: RunOptions where
  "run_options_new = \<lparr>ro_leg_order = OrderShuffle, ro_order_seed = 0x7B01715EED, ro_repetitions = 20,
     ro_warmup = 3, ro_cooldown = 25, ro_throttle_fraction = f64_lit 92 100\<rparr>"

record RunReport =
  rr_legs :: "LegResult list"
  rr_options :: RunOptions
  rr_nominal_max_mhz :: float64
  rr_median_observed_mhz :: float64
  rr_clock_unavailable :: bool

section \<open>The schedule\<close>

definition swap_at :: "nat \<Rightarrow> nat \<Rightarrow> 'a list \<Rightarrow> 'a list" where
  "swap_at i j xs = xs[i := xs ! j, j := xs ! i]"

text \<open>The hand-rolled Fisher-Yates loop, \<open>k\<close> counting down from the size.\<close>

fun fisher_yates :: "nat \<Rightarrow> nat list \<Rightarrow> mt19937_64 \<Rightarrow> nat list \<times> mt19937_64" where
  "fisher_yates k order rng =
     (if k \<le> 1 then (order, rng)
      else (let (r, rng') = mt_generate rng
            in fisher_yates (k - 1) (swap_at (k - 1) (nat (uint r mod int k)) order) rng'))"

declare fisher_yates.simps [simp del]

definition initial_order :: "LegOrder \<Rightarrow> nat \<Rightarrow> nat list" where
  "initial_order mode n = (if mode = OrderReverse then rev [0..<n] else [0..<n])"

section \<open>One sample, one round, all rounds\<close>

definition take_sample :: "('e \<Rightarrow> float64 \<times> 'e) \<Rightarrow> 'e Leg \<Rightarrow> bool \<Rightarrow> nat \<Rightarrow> 'e \<Rightarrow> Sample \<times> 'e" where
  "take_sample mhz leg is_warmup slot e =
     (let (mhz_before, e1) = mhz e;
          (seconds, e2) = leg_run_once leg e1;
          (mhz_after, e3) = mhz e2
      in (\<lparr>smp_seconds = seconds,
           smp_clock_mhz = (if f64_less 0 mhz_before \<and> f64_less 0 mhz_after
                            then f64_mul (f64_lit 1 2) (f64_add mhz_before mhz_after) else 0),
           smp_throttled = False, smp_warmup = is_warmup, smp_position = int slot\<rparr>, e3))"

definition push_sample :: "Sample \<Rightarrow> LegResult \<Rightarrow> LegResult" where
  "push_sample s l = l\<lparr>lr_samples := lr_samples l @ [s]\<rparr>"

definition run_slot ::
  "('e \<Rightarrow> float64 \<times> 'e) \<Rightarrow> 'e Leg list \<Rightarrow> bool \<Rightarrow> nat \<times> nat \<Rightarrow> LegResult list \<times> 'e \<Rightarrow> LegResult list \<times> 'e" where
  "run_slot mhz legs is_warmup si st =
     (case si of (slot, i) \<Rightarrow> case st of (ls, e) \<Rightarrow>
        (let (s, e') = take_sample mhz (legs ! i) is_warmup slot e
         in (if is_warmup then ls else ls[i := push_sample s (ls ! i)], e')))"

type_synonym 'e run_state = "LegResult list \<times> nat list \<times> mt19937_64 \<times> 'e"

definition run_round ::
  "('e \<Rightarrow> float64 \<times> 'e) \<Rightarrow> 'e Leg list \<Rightarrow> RunOptions \<Rightarrow> int \<Rightarrow> 'e run_state \<Rightarrow> 'e run_state" where
  "run_round mhz legs options rnd st =
     (case st of (ls, order, rng, e) \<Rightarrow>
        (let (order', rng') = (if ro_leg_order options = OrderShuffle
                               then fisher_yates (length order) order rng else (order, rng));
             (ls', e') = fold (run_slot mhz legs (rnd < ro_warmup options)) (enumerate 0 order') (ls, e)
         in (ls', order', rng', e')))"

definition run_rounds ::
  "('e \<Rightarrow> float64 \<times> 'e) \<Rightarrow> 'e Leg list \<Rightarrow> RunOptions \<Rightarrow> 'e \<Rightarrow> 'e run_state" where
  "run_rounds mhz legs options e =
     fold (\<lambda>rnd. run_round mhz legs options (int rnd)) [0..<nat (ro_warmup options + ro_repetitions options)]
       (map (\<lambda>leg. leg_result_new (leg_name leg)) legs,
        initial_order (ro_leg_order options) (length legs), mt_seed (ro_order_seed options), e)"

section \<open>Flagging and summaries\<close>

definition observed_clocks :: "LegResult list \<Rightarrow> float64 list" where
  "observed_clocks ls =
     concat (map (\<lambda>l. map smp_clock_mhz (filter (\<lambda>s. f64_less 0 (smp_clock_mhz s)) (lr_samples l))) ls)"

definition median_clock :: "LegResult list \<Rightarrow> float64" where
  "median_clock ls = (if observed_clocks ls = [] then 0 else sum_median (summarize (observed_clocks ls)))"

definition flag_sample :: "float64 \<Rightarrow> Sample \<Rightarrow> Sample" where
  "flag_sample throttle_floor s =
     s\<lparr>smp_throttled := f64_less 0 (smp_clock_mhz s) \<and> f64_less (smp_clock_mhz s) throttle_floor\<rparr>"

definition flag_leg :: "float64 \<Rightarrow> LegResult \<Rightarrow> LegResult" where
  "flag_leg throttle_floor l = l\<lparr>lr_samples := map (flag_sample throttle_floor) (lr_samples l)\<rparr>"

definition summarise_leg :: "'e \<Rightarrow> 'e Leg \<Rightarrow> LegResult \<Rightarrow> LegResult" where
  "summarise_leg e leg l =
     (let clean = map smp_seconds (filter (\<lambda>s. \<not> smp_throttled s) (lr_samples l));
          all_timings = summarize (map smp_seconds (lr_samples l))
      in l\<lparr>lr_throttled_count := lr_throttled_count l + of_nat (length (filter smp_throttled (lr_samples l))),
           lr_timing_including_throttled := all_timings,
           lr_timing := (if 3 \<le> length clean then summarize clean else all_timings),
           lr_counters := (case leg_record_counters leg of None \<Rightarrow> lr_counters l | Some record_counters \<Rightarrow> record_counters e [])\<rparr>)"

definition run_interleaved ::
  "('e \<Rightarrow> float64 \<times> 'e) \<Rightarrow> float64 \<Rightarrow> 'e Leg list \<Rightarrow> RunOptions \<Rightarrow> 'e \<Rightarrow> RunReport \<times> 'e" where
  "run_interleaved mhz nominal legs options e =
     (case run_rounds mhz legs options e of (ls, order, rng, e') \<Rightarrow>
        (let med = median_clock ls;
             throttle_floor = f64_mul med (ro_throttle_fraction options);
             flagged = map (flag_leg throttle_floor) ls
         in (\<lparr>rr_legs = map (\<lambda>(leg, l). summarise_leg e' leg l) (zip legs flagged),
              rr_options = options, rr_nominal_max_mhz = nominal, rr_median_observed_mhz = med,
              rr_clock_unavailable = f64_le nominal 0\<rparr>, e')))"

section \<open>Shuffling keeps the legs\<close>

lemma length_swap_at [simp]: "length (swap_at i j xs) = length xs"
  by (simp add: swap_at_def)

lemma swap_at_mset: "i < length xs \<Longrightarrow> j < length xs \<Longrightarrow> mset (swap_at i j xs) = mset xs"
  unfolding swap_at_def by (rule mset_swap)

lemma fisher_yates_mset: "k \<le> length order \<Longrightarrow> mset (fst (fisher_yates k order rng)) = mset order"
proof (induction k order rng rule: fisher_yates.induct)
  case (1 k order rng)
  show ?case
  proof (cases "k \<le> 1")
    case True
    then show ?thesis by (simp add: fisher_yates.simps)
  next
    case False
    obtain r rng' where g: "mt_generate rng = (r, rng')" by fastforce
    let ?j = "nat (uint r mod int k)"
    have "0 \<le> uint r mod int k" "uint r mod int k < int k" using False by simp_all
    then have j: "?j < k" by (simp only: nat_less_iff)
    show ?thesis
      using "1.IH" [OF False refl g [symmetric]] "1.prems" False j
      by (subst fisher_yates.simps) (simp add: g swap_at_mset)
  qed
qed

lemma initial_order_mset: "mset (initial_order mode n) = mset [0..<n]"
  by (simp add: initial_order_def)

section \<open>One round\<close>

lemma take_sample_fields:
  assumes "take_sample mhz leg w slot e = (s, e')"
  shows "smp_position s = int slot" "smp_warmup s = w"
  using assms by (auto simp: take_sample_def split: prod.splits)

lemma run_slots:
  assumes "distinct (map snd ps)" "snd ` set ps \<subseteq> {..<length ls}"
  shows "length (fst (fold (run_slot mhz legs False) ps (ls, e))) = length ls \<and>
    (\<forall>i < length ls. i \<notin> snd ` set ps \<longrightarrow> fst (fold (run_slot mhz legs False) ps (ls, e)) ! i = ls ! i) \<and>
    (\<forall>(slot, i) \<in> set ps. \<exists>s. fst (fold (run_slot mhz legs False) ps (ls, e)) ! i = push_sample s (ls ! i) \<and>
       smp_position s = int slot \<and> \<not> smp_warmup s)"
  using assms
proof (induction ps arbitrary: ls e)
  case (Cons p ps)
  obtain slot i where p: "p = (slot, i)" by fastforce
  obtain s e' where s: "take_sample mhz (legs ! i) False slot e = (s, e')" by fastforce
  have i: "i < length ls" "i \<notin> snd ` set ps" using Cons.prems by (auto simp: p)
  let ?ls = "ls[i := push_sample s (ls ! i)]"
  have first: "run_slot mhz legs False p (ls, e) = (?ls, e')" by (simp add: run_slot_def p s)
  note IH = Cons.IH [of ?ls e']
  have "distinct (map snd ps)" "snd ` set ps \<subseteq> {..<length ?ls}" using Cons.prems by auto
  note IH = IH [OF this]
  let ?out = "fst (fold (run_slot mhz legs False) ps (?ls, e'))"
  have f: "fst (fold (run_slot mhz legs False) (p # ps) (ls, e)) = ?out" by (simp add: first)
  have "?out ! j = ls ! j" if "j < length ls" "j \<notin> snd ` set (p # ps)" for j
    using IH that by (simp add: p)
  moreover have "\<exists>s. ?out ! j = push_sample s (ls ! j) \<and> smp_position s = int k \<and> \<not> smp_warmup s"
    if "(k, j) \<in> set (p # ps)" for k j
  proof (cases "(k, j) \<in> set ps")
    case True
    then have "j \<noteq> i" using i(2) by force
    then show ?thesis using IH True by fastforce
  next
    case False
    then have "k = slot" "j = i" using that by (simp_all add: p)
    then show ?thesis using IH i take_sample_fields [OF s] by auto
  qed
  ultimately show ?case using IH unfolding f by auto
qed simp

lemma run_slots_warmup: "fst (fold (run_slot mhz legs True) ps (ls, e)) = ls"
proof (induction ps arbitrary: ls e)
  case (Cons p ps)
  then show ?case by (cases p) (simp add: run_slot_def split: prod.splits)
qed simp

text \<open>The samples of a leg in one round: \<open>slot_of\<close> says which slot each leg had.\<close>

definition slot_of :: "nat list \<Rightarrow> nat \<Rightarrow> nat" where
  "slot_of order i = the (List.find (\<lambda>k. order ! k = i) [0..<length order])"

lemma slot_of_nth:
  assumes "distinct order" "k < length order"
  shows "slot_of order (order ! k) = k"
proof -
  have "order ! j = order ! k \<longleftrightarrow> j = k" if "j < length order" for j
    using assms that by (simp add: nth_eq_iff_index_eq)
  then have "List.find (\<lambda>j. order ! j = order ! k) [0..<length order] = Some k"
    using assms(2) by (auto simp: find_Some_iff intro!: exI [of _ k])
  then show ?thesis by (simp add: slot_of_def)
qed

lemma order_facts:
  assumes "mset order = mset [0..<n]"
  shows "distinct order" "set order = {0..<n}" "length order = n"
  using assms by (metis distinct_upt mset_eq_imp_distinct_iff) (metis assms mset_eq_setD set_upt, metis assms mset_eq_length length_upt diff_zero)

lemma slots_permute:
  assumes "mset order = mset [0..<n]"
  shows "mset (map (slot_of order) [0..<n]) = mset [0..<n]"
proof -
  note f = order_facts [OF assms]
  have "map (slot_of order) order = [0..<n]"
    by (rule nth_equalityI) (use f slot_of_nth in \<open>auto\<close>)
  then show ?thesis using assms by (metis mset_map)
qed

lemma measured_round:
  assumes "mset order = mset [0..<n]" "length ls = n"
    and "fold (run_slot mhz legs False) (enumerate 0 order) (ls, e) = (ls', e')"
  shows "\<exists>ss. length ss = n \<and> ls' = map2 push_sample ss ls \<and> map smp_position ss = map (int \<circ> slot_of order) [0..<n] \<and>
    (\<forall>s \<in> set ss. \<not> smp_warmup s)"
proof -
  note f = order_facts [OF assms(1)]
  have d: "distinct (map snd (enumerate 0 order))" "snd ` set (enumerate 0 order) \<subseteq> {..<length ls}"
    using f assms(2) by (simp_all flip: set_map) auto
  note r = run_slots [OF d, of mhz legs e, unfolded assms(3), simplified]
  have "\<exists>s. ls' ! i = push_sample s (ls ! i) \<and> smp_position s = int (slot_of order i) \<and> \<not> smp_warmup s" if "i < n" for i
  proof -
    have "i \<in> set order" using that f by simp
    then obtain k where k: "k < length order" "order ! k = i" by (auto simp only: in_set_conv_nth)
    then have "(k, i) \<in> set (enumerate 0 order)" by (simp add: in_set_enumerate_eq)
    then show ?thesis using r slot_of_nth [OF f(1) k(1)] k(2) by fastforce
  qed
  then obtain g where g: "\<And>i. i < n \<Longrightarrow> ls' ! i = push_sample (g i) (ls ! i) \<and> smp_position (g i) = int (slot_of order i) \<and> \<not> smp_warmup (g i)"
    by metis
  have "ls' = map2 push_sample (map g [0..<n]) ls" using r g assms(2) by (intro nth_equalityI) simp_all
  then show ?thesis using g by (intro exI [of _ "map g [0..<n]"]) (auto simp: assms(2))
qed

section \<open>All rounds\<close>

text \<open>The positions of the legs in measured round \<open>r\<close>.\<close>

definition positions :: "LegResult list \<Rightarrow> nat \<Rightarrow> int list" where
  "positions ls r = map (\<lambda>l. smp_position (lr_samples l ! r)) ls"

text \<open>What holds of the results after \<open>m\<close> measured rounds.\<close>

definition schedule_ok :: "'e Leg list \<Rightarrow> LegOrder \<Rightarrow> nat \<Rightarrow> LegResult list \<Rightarrow> bool" where
  "schedule_ok legs mode m ls \<longleftrightarrow>
     map lr_name ls = map leg_name legs \<and>
     (\<forall>l \<in> set ls. length (lr_samples l) = m \<and> lr_throttled_count l = 0 \<and> lr_counters l = [] \<and>
        (\<forall>s \<in> set (lr_samples l). \<not> smp_warmup s)) \<and>
     (\<forall>r < m. mset (positions ls r) = mset (map int [0..<length legs]) \<and>
        (mode = OrderFixed \<longrightarrow> positions ls r = map int [0..<length legs]) \<and>
        (mode = OrderReverse \<longrightarrow> positions ls r = rev (map int [0..<length legs])))"

lemma slot_of_fixed: "map (slot_of [0..<n]) [0..<n] = [0..<n]"
  using slot_of_nth [of "[0..<n]"] by (intro nth_equalityI) simp_all

lemma slot_of_reverse: "map (slot_of (rev [0..<n])) [0..<n] = rev [0..<n]"
proof (rule nth_equalityI)
  fix i assume "i < length (map (slot_of (rev [0..<n])) [0..<n])"
  then have i: "i < n" by simp
  then show "map (slot_of (rev [0..<n])) [0..<n] ! i = rev [0..<n] ! i"
    using slot_of_nth [of "rev [0..<n]" "n - 1 - i"] by (simp add: rev_nth)
qed simp

lemma schedule_push:
  assumes ok: "schedule_ok legs mode m ls" and len: "length ss = length legs"
    and pos: "map smp_position ss = map (int \<circ> slot_of order) [0..<length legs]"
    and warm: "\<forall>s \<in> set ss. \<not> smp_warmup s" and order: "mset order = mset [0..<length legs]"
    and fixed: "mode \<noteq> OrderShuffle \<longrightarrow> order = initial_order mode (length legs)"
  shows "schedule_ok legs mode (Suc m) (map2 push_sample ss ls)"
proof -
  have n: "length ls = length legs" using ok unfolding schedule_ok_def by (metis length_map)
  have ls: "map lr_name ls = map leg_name legs"
    "\<And>l. l \<in> set ls \<Longrightarrow> length (lr_samples l) = m \<and> lr_throttled_count l = 0 \<and> lr_counters l = [] \<and> (\<forall>s \<in> set (lr_samples l). \<not> smp_warmup s)"
    using ok unfolding schedule_ok_def by blast+
  have nth: "map2 push_sample ss ls ! i = push_sample (ss ! i) (ls ! i)" if "i < length legs" for i
    using that len n by simp
  have "map lr_name (map2 push_sample ss ls) = map lr_name (map snd (zip ss ls))" by (simp add: push_sample_def case_prod_beta)
  then have names: "map lr_name (map2 push_sample ss ls) = map leg_name legs" by (simp only: map_snd_zip len n ls(1))
  have each: "length (lr_samples l) = Suc m \<and> lr_throttled_count l = 0 \<and> lr_counters l = [] \<and>
      (\<forall>s \<in> set (lr_samples l). \<not> smp_warmup s)" if "l \<in> set (map2 push_sample ss ls)" for l
  proof -
    obtain s l0 where "l = push_sample s l0" "s \<in> set ss" "l0 \<in> set ls"
      using \<open>l \<in> set (map2 push_sample ss ls)\<close> by (auto dest: set_zip_leftD set_zip_rightD)
    then show ?thesis using ls(2) [of l0] warm by (auto simp: push_sample_def)
  qed
  have m: "length (lr_samples (ls ! i)) = m" if "i < length legs" for i using ls(2) that n by simp
  have old: "positions (map2 push_sample ss ls) r = positions ls r" if "r < m" for r
    unfolding positions_def by (rule nth_equalityI) (use len n m that in \<open>simp_all add: push_sample_def nth_append\<close>)
  have "positions (map2 push_sample ss ls) m = map smp_position ss"
    unfolding positions_def by (rule nth_equalityI) (use len n m in \<open>simp_all add: push_sample_def nth_append\<close>)
  then have new: "positions (map2 push_sample ss ls) m = map int (map (slot_of order) [0..<length legs])"
    by (simp add: pos)
  have perm: "mset (positions (map2 push_sample ss ls) m) = mset (map int [0..<length legs])"
    unfolding new by (simp only: mset_map [of int] slots_permute [OF order])
  have fixd: "mode = OrderFixed \<Longrightarrow> positions (map2 push_sample ss ls) m = map int [0..<length legs]"
    using fixed unfolding new by (simp add: initial_order_def slot_of_fixed del: map_map)
  have rever: "mode = OrderReverse \<Longrightarrow> positions (map2 push_sample ss ls) m = rev (map int [0..<length legs])"
    using fixed unfolding new by (simp add: initial_order_def slot_of_reverse rev_map del: map_map)
  have "mset (positions (map2 push_sample ss ls) r) = mset (map int [0..<length legs]) \<and>
      (mode = OrderFixed \<longrightarrow> positions (map2 push_sample ss ls) r = map int [0..<length legs]) \<and>
      (mode = OrderReverse \<longrightarrow> positions (map2 push_sample ss ls) r = rev (map int [0..<length legs]))" if "r < Suc m" for r
  proof (cases "r < m")
    case True
    then show ?thesis using ok unfolding old [OF True] schedule_ok_def by blast
  next
    case False
    then have "r = m" using that by simp
    then show ?thesis using perm fixd rever by blast
  qed
  then show ?thesis using names each unfolding schedule_ok_def by blast
qed

lemma round_schedule:
  assumes "schedule_ok legs (ro_leg_order options) m ls" "mset order = mset [0..<length legs]"
    and "ro_leg_order options \<noteq> OrderShuffle \<longrightarrow> order = initial_order (ro_leg_order options) (length legs)"
    and "run_round mhz legs options rnd (ls, order, rng, e) = (ls', order', rng', e')"
  shows "schedule_ok legs (ro_leg_order options) (if rnd < ro_warmup options then m else Suc m) ls' \<and>
    mset order' = mset [0..<length legs] \<and>
    (ro_leg_order options \<noteq> OrderShuffle \<longrightarrow> order' = initial_order (ro_leg_order options) (length legs))"
proof -
  obtain o1 g1 where o: "(if ro_leg_order options = OrderShuffle then fisher_yates (length order) order rng else (order, rng)) = (o1, g1)"
    by fastforce
  obtain l1 e1 where f: "fold (run_slot mhz legs (rnd < ro_warmup options)) (enumerate 0 o1) (ls, e) = (l1, e1)" by fastforce
  have same: "ls' = l1" "order' = o1" using assms(4) by (simp_all add: run_round_def o f)
  have order: "mset o1 = mset [0..<length legs]"
    using o assms(2) fisher_yates_mset [of "length order" order rng] by (auto split: if_splits)
  have fixed: "ro_leg_order options \<noteq> OrderShuffle \<longrightarrow> o1 = initial_order (ro_leg_order options) (length legs)"
    using o assms(3) by auto
  have n: "length ls = length legs" using assms(1) unfolding schedule_ok_def by (metis length_map)
  show ?thesis
  proof (cases "rnd < ro_warmup options")
    case True
    then have "l1 = ls" using f run_slots_warmup by (metis fst_conv)
    then show ?thesis using True assms(1) order fixed by (simp add: same)
  next
    case False
    have f: "fold (run_slot mhz legs False) (enumerate 0 o1) (ls, e) = (l1, e1)" using f False by simp
    obtain ss where "length ss = length legs" "l1 = map2 push_sample ss ls"
        "map smp_position ss = map (int \<circ> slot_of o1) [0..<length legs]" "\<forall>s \<in> set ss. \<not> smp_warmup s"
      using measured_round [OF order n f] by blast
    then show ?thesis using False schedule_push [OF assms(1)] order fixed by (simp add: same)
  qed
qed

lemma rounds_schedule:
  assumes "fold (\<lambda>rnd. run_round mhz legs options (int rnd)) [0..<k]
      (map (\<lambda>leg. leg_result_new (leg_name leg)) legs, initial_order (ro_leg_order options) (length legs), g, e) =
    (ls, order, rng, e')"
  shows "schedule_ok legs (ro_leg_order options) (k - nat (ro_warmup options)) ls \<and> mset order = mset [0..<length legs] \<and>
    (ro_leg_order options \<noteq> OrderShuffle \<longrightarrow> order = initial_order (ro_leg_order options) (length legs))"
  using assms
proof (induction k arbitrary: ls order rng e')
  case 0
  then show ?case by (auto simp: schedule_ok_def leg_result_new_def initial_order_mset)
next
  case (Suc k)
  let ?st = "fold (\<lambda>rnd. run_round mhz legs options (int rnd)) [0..<k]
      (map (\<lambda>leg. leg_result_new (leg_name leg)) legs, initial_order (ro_leg_order options) (length legs), g, e)"
  obtain l1 o1 g1 e1 where st: "?st = (l1, o1, g1, e1)" by (metis prod.exhaust)
  have step: "run_round mhz legs options (int k) (l1, o1, g1, e1) = (ls, order, rng, e')" using Suc.prems by (simp add: st)
  have "(if int k < ro_warmup options then k - nat (ro_warmup options) else Suc (k - nat (ro_warmup options))) =
      Suc k - nat (ro_warmup options)" by auto
  then show ?case
    using Suc.IH [OF st, THEN conjunct1, THEN round_schedule, OF _ _ step] Suc.IH [OF st, THEN conjunct2] by simp
qed

section \<open>The report\<close>

lemma flag_keeps:
  "map lr_name (map (flag_leg f) ls) = map lr_name ls"
  "r < length (lr_samples l) \<Longrightarrow> smp_position (lr_samples (flag_leg f l) ! r) = smp_position (lr_samples l ! r)"
  "length (lr_samples (flag_leg f l)) = length (lr_samples l)"
  by (simp_all add: flag_leg_def flag_sample_def)

lemma summarise_keeps:
  "lr_name (summarise_leg e leg l) = lr_name l" "lr_samples (summarise_leg e leg l) = lr_samples l"
  by (simp_all add: summarise_leg_def Let_def)

text \<open>The report in terms of the results of the rounds.\<close>

lemma run_interleaved_rounds:
  obtains ls e' where "schedule_ok legs (ro_leg_order options) (nat (ro_warmup options + ro_repetitions options) - nat (ro_warmup options)) ls"
    "rr_median_observed_mhz (fst (run_interleaved mhz nominal legs options e)) = median_clock ls"
    "rr_legs (fst (run_interleaved mhz nominal legs options e)) = map2 (summarise_leg e') legs
       (map (flag_leg (f64_mul (median_clock ls) (ro_throttle_fraction options))) ls)"
proof -
  obtain ls order rng e' where r: "run_rounds mhz legs options e = (ls, order, rng, e')" by (metis prod.exhaust)
  show thesis
    by (rule that [of ls e']) (use rounds_schedule [OF r [unfolded run_rounds_def]] in \<open>simp_all add: run_interleaved_def r Let_def\<close>)
qed

text \<open>The names and the counters of the report: the counters are recorded in the state after the last sample.\<close>

lemma report_legs:
  assumes "run_interleaved mhz nominal legs options e = (report, e')"
  shows "map lr_name (rr_legs report) = map leg_name legs \<and>
    map lr_counters (rr_legs report) =
      map (\<lambda>leg. case leg_record_counters leg of None \<Rightarrow> [] | Some record_counters \<Rightarrow> record_counters e' []) legs"
proof -
  obtain ls order rng e1 where r: "run_rounds mhz legs options e = (ls, order, rng, e1)" by (metis prod.exhaust)
  have ok: "schedule_ok legs (ro_leg_order options) (nat (ro_warmup options + ro_repetitions options) - nat (ro_warmup options)) ls"
    using rounds_schedule [OF r [unfolded run_rounds_def]] by blast
  then have n: "length ls = length legs" unfolding schedule_ok_def by (metis length_map)
  have e: "e' = e1" and legs: "rr_legs report = map2 (summarise_leg e1) legs
      (map (flag_leg (f64_mul (median_clock ls) (ro_throttle_fraction options))) ls)"
    using assms by (auto simp: run_interleaved_def r Let_def)
  have l: "lr_name (ls ! i) = leg_name (legs ! i)" "lr_counters (ls ! i) = []" if "i < length legs" for i
    using ok n that unfolding schedule_ok_def by (metis nth_map, metis nth_mem)
  show ?thesis unfolding legs e
    by (rule conjI; rule nth_equalityI) (use n l in \<open>simp_all add: summarise_leg_def flag_leg_def Let_def split: option.split\<close>)
qed



section \<open>Throttled samples\<close>

lemma median_clock_flag: "median_clock (map (flag_leg f) ls) = median_clock ls"
proof -
  have "observed_clocks (map (flag_leg f) ls) = observed_clocks ls"
    by (simp add: observed_clocks_def flag_leg_def flag_sample_def filter_map o_def)
  then show ?thesis by (simp add: median_clock_def)
qed

lemma median_clock_summarise:
  "length ls = length legs \<Longrightarrow> median_clock (map2 (summarise_leg e) legs ls) = median_clock ls"
proof -
  assume "length ls = length legs"
  then have "observed_clocks (map2 (summarise_leg e) legs ls) = observed_clocks ls"
    by (induction legs ls rule: list_induct2') (simp_all add: observed_clocks_def summarise_keeps)
  then show ?thesis by (simp add: median_clock_def)
qed



end
