(* ===== verification/Bench_Report.thy ===== *)
theory Bench_Report
  imports Bench_Json_Correct Bench_Runner
begin

text \<open>
  \<open>benchmarks/harness/ResultWriter.cpp\<close> (and the data of \<open>Environment.hpp\<close>): the parts of a results document
  as calls of the JSON writer, and as the JSON they denote.
\<close>

section \<open>The parts of a results document\<close>

record Environment =
  env_cpu_brand :: string
  env_physical_cores :: u32
  env_logical_processors :: u32
  env_smt :: bool
  env_ram_bytes :: u64
  env_os :: string
  env_compiler :: string
  env_build_config :: string
  env_thunderbolt_version :: string
  env_debug_assertions :: bool
  env_address_sanitizer :: bool
  env_timestamp_utc :: string

definition environment_new :: Environment where
  "environment_new = \<lparr>env_cpu_brand = [], env_physical_cores = 0, env_logical_processors = 0, env_smt = False,
     env_ram_bytes = 0, env_os = [], env_compiler = [], env_build_config = [], env_thunderbolt_version = [],
     env_debug_assertions = False, env_address_sanitizer = False, env_timestamp_utc = []\<rparr>"

definition write_environment :: "Environment \<Rightarrow> JsonWriter \<Rightarrow> JsonWriter" where
  "write_environment env w0 =
     (let w1 = field_string ''cpu'' (env_cpu_brand env) (begin_object_key ''environment'' w0);
          w2 = (if 0 < env_physical_cores env then field_u64 ''physical_cores'' (ucast (env_physical_cores env)) w1
                else field_i64 ''physical_cores'' (-1) w1);
          w3 = field_u64 ''logical_processors'' (ucast (env_logical_processors env)) w2;
          w4 = field_bool ''smt'' (env_smt env) w3;
          w5 = field_u64 ''ram_bytes'' (env_ram_bytes env) w4;
          w6 = field_string ''os'' (env_os env) w5;
          w7 = field_string ''compiler'' (env_compiler env) w6;
          w8 = field_string ''build_config'' (env_build_config env) w7;
          w9 = field_string ''thunderbolt_version'' (env_thunderbolt_version env) w8;
          w10 = field_bool ''debug_assertions'' (env_debug_assertions env) w9;
          w11 = field_bool ''address_sanitizer'' (env_address_sanitizer env) w10;
          w12 = field_string ''timestamp_utc'' (env_timestamp_utc env) w11
      in end_object w12)"

definition write_options :: "RunOptions \<Rightarrow> JsonWriter \<Rightarrow> JsonWriter" where
  "write_options options w0 =
     (let w1 = field_i64 ''repetitions'' (ro_repetitions options) (begin_object_key ''protocol'' w0);
          w2 = field_i64 ''warmup_discarded'' (ro_warmup options) w1;
          w3 = field_u64 ''cooldown_ms'' (of_int (ro_cooldown options)) w2;
          w4 = field_double ''throttle_fraction'' (ro_throttle_fraction options) w3;
          w5 = field_bool ''interleaved'' True w4;
          w6 = field_string ''leg_order'' (leg_order_to_string (ro_leg_order options)) w5;
          w7 = field_u64 ''leg_order_seed'' (ro_order_seed options) w6;
          w8 = field_string ''statistic'' ''median_and_iqr'' w7
      in end_object w8)"

definition write_summary :: "string \<Rightarrow> Summary \<Rightarrow> JsonWriter \<Rightarrow> JsonWriter" where
  "write_summary key s w0 =
     (let w1 = field_u64 ''samples'' (of_nat (sum_count s)) (begin_object_key key w0);
          w2 = field_double ''median'' (sum_median s) w1;
          w3 = field_double ''iqr'' (sum_iqr s) w2;
          w4 = field_double ''p25'' (sum_p25 s) w3;
          w5 = field_double ''p75'' (sum_p75 s) w4;
          w6 = field_double ''min'' (sum_min s) w5;
          w7 = field_double ''max'' (sum_max s) w6;
          w8 = field_double ''mean'' (sum_mean s) w7
      in end_object w8)"

definition write_sample :: "Sample \<Rightarrow> JsonWriter \<Rightarrow> JsonWriter" where
  "write_sample s w0 =
     (let w1 = field_double ''seconds'' (smp_seconds s) (begin_object w0);
          w2 = field_double ''clock_mhz'' (smp_clock_mhz s) w1;
          w3 = field_bool ''throttled'' (smp_throttled s) w2
      in end_object w3)"

definition write_leg :: "LegResult \<Rightarrow> bool \<Rightarrow> JsonWriter \<Rightarrow> JsonWriter" where
  "write_leg leg include_samples w0 =
     (let w1 = field_string ''leg'' (lr_name leg) (begin_object w0);
          w2 = write_summary ''seconds'' (lr_timing leg) w1;
          w3 = field_u64 ''throttled_samples'' (ucast (lr_throttled_count leg)) w2;
          w4 = (if 0 < lr_throttled_count leg
                then write_summary ''seconds_including_throttled'' (lr_timing_including_throttled leg) w3 else w3);
          w5 = (if lr_counters leg \<noteq> []
                then end_object (fold (\<lambda>(name, v). field_u64 name v) (lr_counters leg) (begin_object_key ''counters'' w4))
                else w4);
          w6 = (if include_samples then end_array (fold write_sample (lr_samples leg) (begin_array ''samples'' w5)) else w5)
      in end_object w6)"

definition begin_result_document :: "string \<Rightarrow> Environment \<Rightarrow> RunReport \<Rightarrow> JsonWriter \<Rightarrow> JsonWriter" where
  "begin_result_document benchmark_name env report w0 =
     (let w1 = field_string ''schema'' ''thunderbolt-benchmark-1'' (begin_object w0);
          w2 = field_string ''benchmark'' benchmark_name w1;
          w3 = write_environment env w2;
          w4 = write_options (rr_options report) w3;
          w5 = field_double ''nominal_max_mhz'' (rr_nominal_max_mhz report) (begin_object_key ''clock'' w4);
          w6 = field_double ''median_observed_mhz'' (rr_median_observed_mhz report) w5;
          w7 = field_string ''throttle_reference'' ''median_observed_mhz'' w6;
          w8 = field_bool ''available'' (\<not> rr_clock_unavailable report) w7
      in end_object w8)"

section \<open>Numbers as JSON\<close>

definition json_u64 :: "u64 \<Rightarrow> json" where
  "json_u64 v = JNumber (show_u64 v)"

definition json_i64 :: "int \<Rightarrow> json" where
  "json_i64 v = JNumber (show_i64 v)"

definition json_double :: "float64 \<Rightarrow> json" where
  "json_double v = JNumber (show_double v)"

definition f64_finite :: "float64 \<Rightarrow> bool" where
  "f64_finite v \<longleftrightarrow> \<not> f64_is_nan v \<and> \<not> f64_is_inf v"

lemma decimal_digit_is_digit: "d < 10 \<Longrightarrow> is_digit (decimal_digit d)"
  by (simp add: is_digit_def decimal_digit_def)

lemma decimal_digit_zero: "d < 10 \<Longrightarrow> decimal_digit d = CHR ''0'' \<longleftrightarrow> d = 0"
proof -
  have "list_all (\<lambda>d. decimal_digit d = CHR ''0'' \<longleftrightarrow> d = 0) [0..<10]" by code_simp
  then show "d < 10 \<Longrightarrow> decimal_digit d = CHR ''0'' \<longleftrightarrow> d = 0" by (simp add: list_all_iff)
qed

text \<open>Decimal text is a nonempty string of digits that has no leading zero unless it is one digit.\<close>

lemma show_natural_digits:
  "digits1 (show_natural n) \<and> (length (show_natural n) = 1 \<or> hd (show_natural n) \<noteq> CHR ''0'')"
proof (induction n rule: show_natural.induct)
  case (1 n)
  show ?case
  proof (cases "n < 10")
    case True
    then have "nat n < 10" by simp
    then show ?thesis using True by (subst (1 2 3) show_natural.simps) (simp add: digits1_def decimal_digit_is_digit)
  next
    case False
    have s: "show_natural n = show_natural (n div 10) @ [decimal_digit (nat (n mod 10))]"
      using False by (subst show_natural.simps) simp
    have d: "is_digit (decimal_digit (nat (n mod 10)))" by (rule decimal_digit_is_digit) simp
    note IH = "1.IH" [OF False]
    have "hd (show_natural (n div 10)) \<noteq> CHR ''0''"
    proof (cases "n div 10 < 10")
      case True
      have "0 < nat (n div 10)" using False by simp
      then show ?thesis using True by (subst show_natural.simps) (simp add: decimal_digit_zero)
    next
      case wide: False
      have "show_natural (n div 10 div 10) \<noteq> []" using show_natural.simps by (metis append_is_Nil_conv list.distinct(1))
      then have "length (show_natural (n div 10)) \<noteq> 1" using wide by (subst show_natural.simps) simp
      then show ?thesis using IH by simp
    qed
    then show ?thesis using IH d by (simp add: s digits1_def hd_append)
  qed
qed

definition natural_text :: "string \<Rightarrow> bool" where
  "natural_text s \<longleftrightarrow> digits1 s \<and> (length s = 1 \<or> hd s \<noteq> CHR ''0'')"

lemma natural_text_show [simp]: "natural_text (show_natural n)"
  unfolding natural_text_def by (rule show_natural_digits)

lemma natural_text_take: "natural_text s \<Longrightarrow> 0 < k \<Longrightarrow> natural_text (take k s)"
  by (cases s; cases k) (auto simp: natural_text_def digits1_def list_all_iff dest: in_set_takeD)

text \<open>What may follow the integer part.\<close>

definition number_rest :: "string \<Rightarrow> bool" where
  "number_rest t \<longleftrightarrow> json_fraction t \<and> (t = [] \<or> \<not> is_digit (hd t))"

lemma digits_then:
  assumes "list_all is_digit s" "t = [] \<or> \<not> is_digit (hd t)"
  shows "takeWhile is_digit (s @ t) = s" "dropWhile is_digit (s @ t) = t"
proof -
  have "takeWhile is_digit t = []" "dropWhile is_digit t = t" using assms(2) by (cases t; simp)+
  then show "takeWhile is_digit (s @ t) = s" "dropWhile is_digit (s @ t) = t"
    using assms(1) by (simp_all add: takeWhile_append2 dropWhile_append2 list_all_iff)
qed

lemma unsigned_number: "natural_text s \<Longrightarrow> number_rest t \<Longrightarrow> json_unsigned (s @ t)"
  by (auto simp: json_unsigned_def number_rest_def natural_text_def digits1_def digits_then)

lemma number_sign:
  assumes "natural_text s" "number_rest t"
  shows "json_number (s @ t)" "json_number (CHR ''-'' # s @ t)"
proof -
  obtain c r where s: "s = c # r" "is_digit c" using assms(1) by (cases s) (auto simp: natural_text_def digits1_def)
  have "c \<noteq> CHR ''-''" using s(2) by (auto simp: is_digit_def)
  then show "json_number (s @ t)" using unsigned_number [OF assms] by (simp add: json_number_def s(1))
  show "json_number (CHR ''-'' # s @ t)" using unsigned_number [OF assms] by (simp add: json_number_def)
qed

lemma rest_nothing: "number_rest []"
  by (simp add: number_rest_def json_fraction_def)

lemma rest_exponent: "number_rest (show_exponent x)"
proof -
  have "digits1 (if \<bar>x\<bar> < 10 then CHR ''0'' # show_natural \<bar>x\<bar> else show_natural \<bar>x\<bar>)"
    using show_natural_digits [of "\<bar>x\<bar>"] by (simp add: digits1_def is_digit_def)
  then have "json_exponent (show_exponent x)" by (simp add: show_exponent_def json_exponent_def)
  then show ?thesis by (simp add: number_rest_def json_fraction_def show_exponent_def is_digit_def)
qed

lemma rest_fraction:
  assumes "digits1 s" "number_rest t" "t = [] \<or> hd t \<noteq> CHR ''.''"
  shows "number_rest (CHR ''.'' # s @ t)"
proof -
  have "json_exponent t" using assms(2,3)
    by (cases t) (auto simp: number_rest_def json_fraction_def json_exponent_def)
  then show ?thesis using assms(1,2)
    by (simp add: number_rest_def json_fraction_def digits1_def digits_then is_digit_def)
qed

lemma strip_zeros_digits: "list_all is_digit s \<Longrightarrow> list_all is_digit (strip_zeros s)"
  by (auto simp: strip_zeros_def list_all_iff dest: set_dropWhileD)

lemma with_fraction_rest:
  assumes "list_all is_digit part" "number_rest t" "t = [] \<or> hd t \<noteq> CHR ''.''"
  shows "\<exists>u. with_fraction whole part @ t = whole @ u \<and> number_rest u"
proof (cases "strip_zeros part = []")
  case True
  then show ?thesis using assms(2) by (auto simp: with_fraction_def)
next
  case False
  then have "digits1 (strip_zeros part)" using strip_zeros_digits [OF assms(1)] by (simp add: digits1_def)
  then show ?thesis using False rest_fraction [OF _ assms(2,3)] by (auto simp: with_fraction_def)
qed

lemma format_general_number: "\<exists>s t. format_general dx = s @ t \<and> natural_text s \<and> number_rest t"
proof -
  obtain d x where dx: "dx = (d, x)" by fastforce
  have digits: "list_all is_digit (show_natural d)" using show_natural_digits by (simp add: digits1_def)
  have drops: "list_all is_digit (drop k (show_natural d))" for k using digits by (auto simp: list_all_iff dest: in_set_dropD)
  have zero: "natural_text ''0''" by (simp add: natural_text_def digits1_def is_digit_def)
  have dot: "hd (show_exponent x) \<noteq> CHR ''.''" by (simp add: show_exponent_def)
  consider "x < -4 \<or> 17 \<le> x" | "\<not> (x < -4 \<or> 17 \<le> x)" "0 \<le> x" | "\<not> (x < -4 \<or> 17 \<le> x)" "\<not> 0 \<le> x" by linarith
  then show ?thesis
  proof cases
    case 1
    obtain u where "with_fraction (take 1 (show_natural d)) (drop 1 (show_natural d)) @ show_exponent x = take 1 (show_natural d) @ u"
        "number_rest u"
      using with_fraction_rest [OF drops rest_exponent] dot by blast
    then show ?thesis using 1 natural_text_take [of "show_natural d" 1] by (auto simp: format_general_def dx Let_def)
  next
    case 2
    obtain u where "with_fraction (take (nat (x + 1)) (show_natural d)) (drop (nat (x + 1)) (show_natural d)) @ [] =
        take (nat (x + 1)) (show_natural d) @ u" "number_rest u"
      using with_fraction_rest [OF drops rest_nothing] by blast
    then show ?thesis using 2 natural_text_take [of "show_natural d" "nat (x + 1)"]
      by (auto simp: format_general_def dx Let_def)
  next
    case 3
    have "list_all is_digit (replicate (nat (- x - 1)) CHR ''0'' @ show_natural d)" using digits by (auto simp: list_all_iff is_digit_def)
    then obtain u where "with_fraction ''0'' (replicate (nat (- x - 1)) CHR ''0'' @ show_natural d) @ [] = ''0'' @ u" "number_rest u"
      using with_fraction_rest [OF _ rest_nothing] by blast
    then show ?thesis using 3 zero by (intro exI [of _ "''0''"] exI [of _ u]) (simp add: format_general_def dx Let_def)
  qed
qed

lemma number_u64 [simp]: "json_number (show_u64 v)"
  using number_sign(1) [OF natural_text_show rest_nothing] by (simp add: show_u64_def)

lemma number_i64 [simp]: "json_number (show_i64 v)"
  using number_sign [OF natural_text_show rest_nothing] by (simp add: show_i64_def)

lemma number_double [simp]:
  assumes "f64_finite v"
  shows "json_number (show_double v)"
proof -
  let ?m = "f64_mantissa v" and ?e = "f64_exponent v"
  let ?body = "if f64_abs v = 0 then ''0'' else format_general (if 0 \<le> ?e then significant (?m * 2 ^ nat ?e) 1 else significant ?m (2 ^ nat (- ?e)))"
  have "natural_text ''0''" by (simp add: natural_text_def digits1_def is_digit_def)
  then have "\<exists>s t. ?body = s @ t \<and> natural_text s \<and> number_rest t"
    using format_general_number rest_nothing by (metis append_Nil2)
  then obtain s t where b: "?body = s @ t" "natural_text s" "number_rest t" by blast
  have "show_double v = (if f64_negative v then ''-'' else []) @ ?body"
    using assms by (simp add: show_double_def f64_finite_def Let_def)
  then show ?thesis using number_sign [OF b(2,3)] by (simp add: b(1))
qed

text \<open>An infinity or a NaN is written as no JSON number.\<close>

lemma nonfinite_is_no_json:
  "parse_json (jw_out (end_object (field_double ''x'' f64_inf (begin_object json_writer_new)))) = None"
  "parse_json (jw_out (end_object (field_double ''x'' f64_nan (begin_object json_writer_new)))) = None"
  by code_simp+

section \<open>The documents the parts denote\<close>

definition environment_json :: "Environment \<Rightarrow> json" where
  "environment_json env = JObject
     [(''cpu'', JString (env_cpu_brand env)),
      (''physical_cores'', if 0 < env_physical_cores env then json_u64 (ucast (env_physical_cores env)) else json_i64 (-1)),
      (''logical_processors'', json_u64 (ucast (env_logical_processors env))), (''smt'', JBool (env_smt env)),
      (''ram_bytes'', json_u64 (env_ram_bytes env)), (''os'', JString (env_os env)), (''compiler'', JString (env_compiler env)),
      (''build_config'', JString (env_build_config env)), (''thunderbolt_version'', JString (env_thunderbolt_version env)),
      (''debug_assertions'', JBool (env_debug_assertions env)), (''address_sanitizer'', JBool (env_address_sanitizer env)),
      (''timestamp_utc'', JString (env_timestamp_utc env))]"

definition options_json :: "RunOptions \<Rightarrow> json" where
  "options_json options = JObject
     [(''repetitions'', json_i64 (ro_repetitions options)), (''warmup_discarded'', json_i64 (ro_warmup options)),
      (''cooldown_ms'', json_u64 (of_int (ro_cooldown options))), (''throttle_fraction'', json_double (ro_throttle_fraction options)),
      (''interleaved'', JBool True), (''leg_order'', JString (leg_order_to_string (ro_leg_order options))),
      (''leg_order_seed'', json_u64 (ro_order_seed options)), (''statistic'', JString ''median_and_iqr'')]"

definition summary_json :: "Summary \<Rightarrow> json" where
  "summary_json s = JObject
     [(''samples'', json_u64 (of_nat (sum_count s))), (''median'', json_double (sum_median s)), (''iqr'', json_double (sum_iqr s)),
      (''p25'', json_double (sum_p25 s)), (''p75'', json_double (sum_p75 s)), (''min'', json_double (sum_min s)),
      (''max'', json_double (sum_max s)), (''mean'', json_double (sum_mean s))]"

definition sample_json :: "Sample \<Rightarrow> json" where
  "sample_json s = JObject
     [(''seconds'', json_double (smp_seconds s)), (''clock_mhz'', json_double (smp_clock_mhz s)),
      (''throttled'', JBool (smp_throttled s))]"

definition leg_json :: "LegResult \<Rightarrow> bool \<Rightarrow> json" where
  "leg_json leg include_samples = JObject
     ([(''leg'', JString (lr_name leg)), (''seconds'', summary_json (lr_timing leg)),
       (''throttled_samples'', json_u64 (ucast (lr_throttled_count leg)))] @
      (if 0 < lr_throttled_count leg then [(''seconds_including_throttled'', summary_json (lr_timing_including_throttled leg))] else []) @
      (if lr_counters leg \<noteq> [] then [(''counters'', JObject (map (\<lambda>(name, v). (name, json_u64 v)) (lr_counters leg)))] else []) @
      (if include_samples then [(''samples'', JArray (map sample_json (lr_samples leg)))] else []))"

definition result_members :: "string \<Rightarrow> Environment \<Rightarrow> RunReport \<Rightarrow> (string \<times> json) list" where
  "result_members benchmark_name env report =
     [(''schema'', JString ''thunderbolt-benchmark-1''), (''benchmark'', JString benchmark_name),
      (''environment'', environment_json env), (''protocol'', options_json (rr_options report)),
      (''clock'', JObject
         [(''nominal_max_mhz'', json_double (rr_nominal_max_mhz report)),
          (''median_observed_mhz'', json_double (rr_median_observed_mhz report)),
          (''throttle_reference'', JString ''median_observed_mhz''), (''available'', JBool (\<not> rr_clock_unavailable report))])]"

lemma write_members_append: "write_members (ms @ ns) w = write_members ns (write_members ms w)"
  by (induction ms arbitrary: w) auto

lemmas field_defs = field_u64_def field_i64_def field_double_def write_double_def json_u64_def json_i64_def json_double_def

lemma write_environment_json: "write_environment env w = write_member ''environment'' (environment_json env) w"
  by (simp add: write_environment_def environment_json_def field_defs Let_def del: put_put)

lemma write_options_json: "write_options options w = write_member ''protocol'' (options_json options) w"
  by (simp add: write_options_def options_json_def field_defs Let_def del: put_put)

lemma write_summary_json: "write_summary key s w = write_member key (summary_json s) w"
  by (simp add: write_summary_def summary_json_def field_defs Let_def del: put_put)

lemma write_sample_json: "write_sample s w = write_element (sample_json s) w"
  by (simp add: write_sample_def sample_json_def field_defs Let_def del: put_put)

lemma write_counters_json:
  "fold (\<lambda>(name, v). field_u64 name v) cs w = write_members (map (\<lambda>(name, v). (name, json_u64 v)) cs) w"
  by (induction cs arbitrary: w) (auto simp: field_defs simp del: put_put)

lemma write_samples_json: "fold write_sample ss w = write_elements (map sample_json ss) w"
  by (induction ss arbitrary: w) (simp_all add: write_sample_json)

lemma write_leg_json: "write_leg leg include_samples w = write_element (leg_json leg include_samples) w"
  by (simp add: write_leg_def leg_json_def Let_def write_members_append write_summary_json write_counters_json write_samples_json
      field_u64_def json_u64_def del: put_put)

lemma write_legs_json: "fold (\<lambda>leg. write_leg leg b) legs w = write_elements (map (\<lambda>leg. leg_json leg b) legs) w"
  by (induction legs arbitrary: w) (simp_all add: write_leg_json)

lemma begin_result_json:
  "begin_result_document name env report w = write_members (result_members name env report) (begin_object w)"
  by (simp add: begin_result_document_def result_members_def Let_def write_environment_json write_options_json field_defs del: put_put)

section \<open>The parts can be written\<close>

definition summary_finite :: "Summary \<Rightarrow> bool" where
  "summary_finite s \<longleftrightarrow> list_all (\<lambda>get. f64_finite (get s)) [sum_min, sum_p25, sum_median, sum_p75, sum_max, sum_iqr, sum_mean]"

definition sample_finite :: "Sample \<Rightarrow> bool" where
  "sample_finite s \<longleftrightarrow> f64_finite (smp_seconds s) \<and> f64_finite (smp_clock_mhz s)"

definition leg_finite :: "LegResult \<Rightarrow> bool" where
  "leg_finite leg \<longleftrightarrow> summary_finite (lr_timing leg) \<and> summary_finite (lr_timing_including_throttled leg) \<and>
     list_all sample_finite (lr_samples leg)"

definition report_finite :: "RunReport \<Rightarrow> bool" where
  "report_finite report \<longleftrightarrow> list_all leg_finite (rr_legs report) \<and> f64_finite (ro_throttle_fraction (rr_options report)) \<and>
     f64_finite (rr_nominal_max_mhz report) \<and> f64_finite (rr_median_observed_mhz report)"

lemmas json_number_defs = json_u64_def json_i64_def json_double_def

lemma parts_ok [simp]:
  "json_ok (environment_json env)"
  "f64_finite (ro_throttle_fraction options) \<Longrightarrow> json_ok (options_json options)"
  "summary_finite s \<Longrightarrow> json_ok (summary_json s)"
  "sample_finite smp \<Longrightarrow> element_ok (sample_json smp)"
  by (simp_all add: environment_json_def options_json_def summary_json_def sample_json_def json_number_defs
      summary_finite_def sample_finite_def)

lemma leg_ok: "leg_finite leg \<Longrightarrow> element_ok (leg_json leg b)"
proof -
  assume f: "leg_finite leg"
  have "list_all (\<lambda>(key, v). json_ok v) (map (\<lambda>(name, v). (name, json_u64 v)) (lr_counters leg))"
    by (auto simp: list_all_iff json_u64_def)
  moreover have "list_all element_ok (map sample_json (lr_samples leg))" using f by (auto simp: list_all_iff leg_finite_def)
  ultimately show ?thesis using f by (simp add: leg_json_def leg_finite_def json_u64_def [of "ucast _"] del: list.map)
qed

lemma legs_ok: "report_finite report \<Longrightarrow> list_all element_ok (map (\<lambda>leg. leg_json leg b) (rr_legs report))"
  using leg_ok by (auto simp: list_all_iff report_finite_def)

lemma result_ok: "report_finite report \<Longrightarrow> list_all (\<lambda>(key, v). json_ok v) (result_members name env report)"
  by (simp add: result_members_def report_finite_def json_double_def)

text \<open>
  A results document made of the shared header and the legs of a run, whose numbers are all finite, is JSON
  text that parses back to exactly the recorded environment, protocol, clock and legs.
\<close>

theorem result_document_valid:
  assumes "report_finite report"
  shows "parse_json (jw_out (end_object (end_array (fold (\<lambda>leg. write_leg leg include_samples) (rr_legs report)
      (begin_array ''legs'' (begin_result_document name env report json_writer_new)))))) =
    Some (JObject (result_members name env report @
      [(''legs'', JArray (map (\<lambda>leg. leg_json leg include_samples) (rr_legs report)))]))"
proof -
  let ?ms = "result_members name env report @ [(''legs'', JArray (map (\<lambda>leg. leg_json leg include_samples) (rr_legs report)))]"
  have "end_object (end_array (fold (\<lambda>leg. write_leg leg include_samples) (rr_legs report)
      (begin_array ''legs'' (begin_result_document name env report json_writer_new)))) =
    write_element (JObject ?ms) json_writer_new"
    by (simp add: begin_result_json write_legs_json write_members_append)
  moreover have "json_ok (JObject ?ms)" using result_ok [OF assms] legs_ok [OF assms] by simp
  ultimately show ?thesis using json_roundtrip_text by metis
qed

theorem result_document_valid_witness:
  "\<exists>doc. parse_json (jw_out (end_object (end_array (fold (\<lambda>leg. write_leg leg True)
      [(leg_result_new ''serial'')\<lparr>lr_throttled_count := 2, lr_counters := [(''steals'', 7)]\<rparr>]
      (begin_array ''legs'' (begin_result_document ''demo'' environment_new
        \<lparr>rr_legs = [(leg_result_new ''serial'')\<lparr>lr_throttled_count := 2, lr_counters := [(''steals'', 7)]\<rparr>],
         rr_options = run_options_new, rr_nominal_max_mhz = f64_of_int 2208, rr_median_observed_mhz = 0,
         rr_clock_unavailable = False\<rparr> json_writer_new)))))) = Some doc"
proof -
  let ?report = "\<lparr>rr_legs = [(leg_result_new ''serial'')\<lparr>lr_throttled_count := 2, lr_counters := [(''steals'', 7)]\<rparr>],
         rr_options = run_options_new, rr_nominal_max_mhz = f64_of_int 2208, rr_median_observed_mhz = 0,
         rr_clock_unavailable = False\<rparr> :: RunReport"
  have "report_finite ?report" by code_simp
  from result_document_valid [OF this, of True "''demo''" environment_new] show ?thesis by auto
qed

end
