(* ===== verification/Bench_Cli.thy ===== *)
theory Bench_Cli
  imports Bench_Report
begin

text \<open>
  \<open>thunderbolt/benchmarks/main.cpp\<close>: the command line of \<open>thunderbolt-bench\<close>, with \<open>strtoull\<close> as the C
  standard fixes it. What an experiment does is an argument of the driver; printing is left out.
\<close>

section \<open>Numbers on the command line\<close>

definition is_space :: "char \<Rightarrow> bool" where
  "is_space c \<longleftrightarrow> c \<in> {CHR '' '', CHR 0x09, CHR 0x0A, CHR 0x0B, CHR 0x0C, CHR 0x0D}"

definition digits_value :: "string \<Rightarrow> int" where
  "digits_value s = fold (\<lambda>c n. 10 * n + (of_char c - 48)) s 0"

text \<open>\<open>strtoull(text, &end, 10)\<close>: the value, and what \<open>end\<close> points to, if a number was read.\<close>

definition strtoull :: "string \<Rightarrow> (u64 \<times> string) option" where
  "strtoull text =
     (let s = dropWhile is_space text;
          negated = (s \<noteq> [] \<and> hd s = CHR ''-'');
          s1 = (if s \<noteq> [] \<and> (hd s = CHR ''-'' \<or> hd s = CHR ''+'') then tl s else s);
          digits = takeWhile is_digit s1;
          n = digits_value digits
      in if digits = [] then None
         else Some (if 2 ^ 64 \<le> n then -1 else if negated then - of_int n else of_int n, dropWhile is_digit s1))"

definition parse_uint :: "string \<Rightarrow> u64 option" where
  "parse_uint text = (case strtoull text of None \<Rightarrow> None | Some (v, end_text) \<Rightarrow> if end_text = [] then Some v else None)"

section \<open>The options\<close>

datatype SubmissionMode = External | ForkJoin

record ExperimentOptions =
  eo_submission :: SubmissionMode
  eo_workers :: u32
  eo_work_units :: u64
  eo_run :: RunOptions
  eo_output_path :: string

definition experiment_options_new :: ExperimentOptions where
  "experiment_options_new = \<lparr>eo_submission = ForkJoin, eo_workers = 0, eo_work_units = 4000000,
     eo_run = run_options_new, eo_output_path = []\<rparr>"

text \<open>The variables of \<open>main\<close>: the experiment and the options.\<close>

type_synonym bench_args = "string \<times> ExperimentOptions"

definition static_cast_int :: "u64 \<Rightarrow> int" where
  "static_cast_int v = sint (ucast v :: u32)"

text \<open>\<open>take_uint\<close>: the next argument as a number, or exit code 2.\<close>

definition take_uint :: "string list \<Rightarrow> (u64 \<Rightarrow> bench_args) \<Rightarrow> int + bench_args \<times> string list" where
  "take_uint rest assign =
     (case rest of [] \<Rightarrow> Inl 2
      | next_arg # rest' \<Rightarrow> (case parse_uint next_arg of None \<Rightarrow> Inl 2 | Some v \<Rightarrow> Inr (assign v, rest')))"

text \<open>
  One iteration of the loop over the arguments: an exit code, or the variables and the arguments left.
\<close>

definition bench_arg :: "string \<Rightarrow> string list \<Rightarrow> bench_args \<Rightarrow> int + bench_args \<times> string list" where
  "bench_arg arg rest st =
     (case st of (experiment, opts) \<Rightarrow>
        if arg = ''--help'' \<or> arg = ''-h'' then Inl 0
        else if arg = ''--experiment'' \<and> rest \<noteq> [] then Inr ((hd rest, opts), tl rest)
        else if arg = ''--workers'' then take_uint rest (\<lambda>v. (experiment, opts\<lparr>eo_workers := ucast v\<rparr>))
        else if arg = ''--work-units'' then take_uint rest (\<lambda>v. (experiment, opts\<lparr>eo_work_units := v\<rparr>))
        else if arg = ''--reps'' then
          take_uint rest (\<lambda>v. (experiment, opts\<lparr>eo_run := (eo_run opts)\<lparr>ro_repetitions := static_cast_int v\<rparr>\<rparr>))
        else if arg = ''--warmup'' then
          take_uint rest (\<lambda>v. (experiment, opts\<lparr>eo_run := (eo_run opts)\<lparr>ro_warmup := static_cast_int v\<rparr>\<rparr>))
        else if arg = ''--cooldown-ms'' then
          take_uint rest (\<lambda>v. (experiment, opts\<lparr>eo_run := (eo_run opts)\<lparr>ro_cooldown := sint v\<rparr>\<rparr>))
        else if arg = ''--leg-order'' \<and> rest \<noteq> [] then
          (case parse_leg_order (hd rest) of None \<Rightarrow> Inl 2
           | Some mode \<Rightarrow> Inr ((experiment, opts\<lparr>eo_run := (eo_run opts)\<lparr>ro_leg_order := mode\<rparr>\<rparr>), tl rest))
        else if arg = ''--order-seed'' then
          take_uint rest (\<lambda>v. (experiment, opts\<lparr>eo_run := (eo_run opts)\<lparr>ro_order_seed := v\<rparr>\<rparr>))
        else if arg = ''--submission'' \<and> rest \<noteq> [] then
          (if hd rest = ''forkjoin'' then Inr ((experiment, opts\<lparr>eo_submission := ForkJoin\<rparr>), tl rest)
           else if hd rest = ''external'' then Inr ((experiment, opts\<lparr>eo_submission := External\<rparr>), tl rest)
           else Inl 2)
        else if arg = ''--out'' \<and> rest \<noteq> [] then Inr ((experiment, opts\<lparr>eo_output_path := hd rest\<rparr>), tl rest)
        else Inl 2)"

lemma take_uint_rest: "take_uint rest assign = Inr (st, rest') \<Longrightarrow> length rest' \<le> length rest"
  by (auto simp: take_uint_def split: list.splits option.splits)

lemma bench_arg_rest:
  assumes "bench_arg arg rest st = Inr (st', rest')"
  shows "length rest' \<le> length rest"
proof -
  have "rest' = tl rest \<or> (\<exists>assign. take_uint rest assign = Inr (st', rest'))"
    using assms unfolding bench_arg_def by (cases st) (auto split: if_splits option.splits)
  then show ?thesis by (elim disjE exE) (auto dest: take_uint_rest)
qed

function bench_args_loop :: "string list \<Rightarrow> bench_args \<Rightarrow> int + bench_args" where
  "bench_args_loop [] st = Inr st"
| "bench_args_loop (arg # rest) st =
     (case bench_arg arg rest st of Inl code \<Rightarrow> Inl code | Inr (st', rest') \<Rightarrow> bench_args_loop rest' st')"
  by pat_completeness auto
termination by (relation "measure (\<lambda>(args, st). length args)") (auto dest: bench_arg_rest)

text \<open>The driver: the exit code of \<open>main\<close>.\<close>

definition bench_main :: "(ExperimentOptions \<Rightarrow> int) \<Rightarrow> (ExperimentOptions \<Rightarrow> int) \<Rightarrow> string list \<Rightarrow> int" where
  "bench_main run_granularity run_scaling args =
     (case bench_args_loop args ([], experiment_options_new) of
        Inl code \<Rightarrow> code
      | Inr (experiment, opts) \<Rightarrow>
          if experiment = [] then 2
          else if experiment = ''granularity'' then run_granularity opts
          else if experiment = ''scaling'' then run_scaling opts
          else 2)"

section \<open>Numbers read back\<close>

lemma digits_value_snoc: "digits_value (s @ [c]) = 10 * digits_value s + (of_char c - 48)"
  by (simp add: digits_value_def)

lemma digit_value: "0 \<le> d \<Longrightarrow> d < 10 \<Longrightarrow> (of_char (decimal_digit (nat d)) :: int) - 48 = d"
proof -
  assume d: "0 \<le> d" "d < 10"
  have "list_all (\<lambda>k. (of_char (decimal_digit k) :: int) - 48 = int k) [0..<10]" by code_simp
  moreover have "nat d < 10" using d by simp
  ultimately have "(of_char (decimal_digit (nat d)) :: int) - 48 = int (nat d)" unfolding list_all_iff by simp
  then show ?thesis using d(1) by simp
qed

lemma digits_value_show: "0 \<le> n \<Longrightarrow> digits_value (show_natural n) = n"
proof (induction n rule: show_natural.induct)
  case (1 n)
  show ?case
  proof (cases "n < 10")
    case True
    then show ?thesis using 1 digit_value [of n] by (subst show_natural.simps) (simp add: digits_value_def)
  next
    case False
    then have "digits_value (show_natural n) = 10 * digits_value (show_natural (n div 10)) + (of_char (decimal_digit (nat (n mod 10))) - 48)"
      by (subst show_natural.simps) (simp add: digits_value_snoc)
    then show ?thesis using 1 False digit_value [of "n mod 10"] by (simp add: pos_imp_zdiv_nonneg_iff)
  qed
qed

lemma digits_start:
  assumes "digits1 ds"
  shows "takeWhile is_digit ds = ds" "dropWhile is_digit ds = []" "dropWhile is_space ds = ds"
    "dropWhile is_space (CHR ''-'' # ds) = CHR ''-'' # ds" "hd ds \<noteq> CHR ''-''" "hd ds \<noteq> CHR ''+''" "ds \<noteq> []"
proof -
  obtain c r where ds: "ds = c # r" "is_digit c" using assms by (cases ds) (auto simp: digits1_def)
  have c: "c \<noteq> CHR ''-''" "c \<noteq> CHR ''+''" "\<not> is_space c" using ds(2) by (auto simp: is_digit_def is_space_def)
  show "takeWhile is_digit ds = ds" "dropWhile is_digit ds = []" using assms by (simp_all add: digits1_def list_all_iff)
  show "dropWhile is_space ds = ds" "dropWhile is_space (CHR ''-'' # ds) = CHR ''-'' # ds" using c by (simp_all add: ds is_space_def)
  show "hd ds \<noteq> CHR ''-''" "hd ds \<noteq> CHR ''+''" "ds \<noteq> []" using c by (simp_all add: ds)
qed

lemma parse_digits:
  assumes "digits1 ds"
  shows "parse_uint ds = Some (if 2 ^ 64 \<le> digits_value ds then -1 else of_int (digits_value ds))"
    "parse_uint (CHR ''-'' # ds) = Some (if 2 ^ 64 \<le> digits_value ds then -1 else - of_int (digits_value ds))"
proof -
  have "\<not> is_space CHR ''-''" "\<forall>x \<in> set ds. is_digit x" using assms by (simp_all add: is_space_def digits1_def list_all_iff)
  then show "parse_uint ds = Some (if 2 ^ 64 \<le> digits_value ds then -1 else of_int (digits_value ds))"
    "parse_uint (CHR ''-'' # ds) = Some (if 2 ^ 64 \<le> digits_value ds then -1 else - of_int (digits_value ds))"
    by (simp_all add: parse_uint_def strtoull_def Let_def digits_start [OF assms])
qed

lemma parse_natural: "0 \<le> n \<Longrightarrow> n < 2 ^ 64 \<Longrightarrow> parse_uint (show_natural n) = Some (of_int n)"
  using parse_digits(1) [of "show_natural n"] natural_text_show [of n] by (simp add: natural_text_def digits_value_show)

lemma parse_shown: "parse_uint (show_u64 v) = Some v"
  using parse_natural [of "uint v"] uint_lt2p [of v] by (simp add: show_u64_def)

text \<open>
  A number on the command line: the decimal text of every 64-bit value reads back as that value. Text that is
  too large is not refused but reads as the largest value, and a negative number as its complement.
\<close>

theorem parse_uint_exact:
  "parse_uint (show_u64 v) = Some v \<and> parse_uint (CHR ''-'' # show_u64 v) = Some (- v) \<and>
   (digits1 ds \<and> 2 ^ 64 \<le> digits_value ds \<longrightarrow> parse_uint ds = Some (-1))"
proof -
  have "digits1 (show_u64 v)" using natural_text_show by (simp add: natural_text_def show_u64_def)
  then have "parse_uint (CHR ''-'' # show_u64 v) = Some (- v)"
    using parse_digits(2) [of "show_u64 v"] uint_lt2p [of v] by (simp add: show_u64_def digits_value_show)
  then show ?thesis using parse_shown parse_digits(1) [of ds] by simp
qed

theorem parse_uint_exact_witness:
  "parse_uint ''18446744073709551616'' = Some (-1) \<and> parse_uint (show_u64 (42 :: u64)) = Some 42"
proof -
  have "digits1 ''18446744073709551616'' \<and> 2 ^ 64 \<le> digits_value ''18446744073709551616''" by code_simp
  then show ?thesis using parse_uint_exact [of 42 "''18446744073709551616''"] by simp
qed

section \<open>Every setting can be given\<close>

definition render_args :: "bench_args \<Rightarrow> string list" where
  "render_args st =
     (case st of (experiment, opts) \<Rightarrow>
        [''--experiment'', experiment,
         ''--submission'', case eo_submission opts of ForkJoin \<Rightarrow> ''forkjoin'' | External \<Rightarrow> ''external'',
         ''--workers'', show_natural (uint (eo_workers opts)), ''--work-units'', show_u64 (eo_work_units opts),
         ''--reps'', show_natural (ro_repetitions (eo_run opts)), ''--warmup'', show_natural (ro_warmup (eo_run opts)),
         ''--cooldown-ms'', show_natural (ro_cooldown (eo_run opts)),
         ''--leg-order'', leg_order_to_string (ro_leg_order (eo_run opts)),
         ''--order-seed'', show_u64 (ro_order_seed (eo_run opts)), ''--out'', eo_output_path opts])"

lemma parse_rendered_order: "parse_leg_order (leg_order_to_string mode) = Some mode"
  by (cases mode) (simp_all add: parse_leg_order_def)

lemma static_cast_small: "0 \<le> n \<Longrightarrow> n < 2 ^ 31 \<Longrightarrow> static_cast_int (of_int n) = n"
proof -
  assume n: "0 \<le> n" "n < 2 ^ 31"
  then have "take_bit 64 n = n" by (intro take_bit_int_eq_self) simp_all
  then have "(ucast (of_int n :: u64) :: u32) = of_int n" using n(1) by (simp add: unsigned_of_int)
  then show ?thesis using n by (simp add: static_cast_int_def signed_of_int signed_take_bit_int_eq_self)
qed

lemma sint_small: "0 \<le> n \<Longrightarrow> n < 2 ^ 63 \<Longrightarrow> sint (of_int n :: u64) = n"
  by (simp add: signed_of_int signed_take_bit_int_eq_self)

lemma ucast_small: "ucast (ucast w :: u64) = (w :: u32)"
  by (simp add: word_uint_eq_iff unsigned_ucast_eq take_bit_word_eq_self)

definition settable :: "ExperimentOptions \<Rightarrow> bool" where
  "settable opts \<longleftrightarrow>
     ro_throttle_fraction (eo_run opts) = f64_lit 92 100 \<and>
     0 \<le> ro_repetitions (eo_run opts) \<and> ro_repetitions (eo_run opts) < 2 ^ 31 \<and>
     0 \<le> ro_warmup (eo_run opts) \<and> ro_warmup (eo_run opts) < 2 ^ 31 \<and>
     0 \<le> ro_cooldown (eo_run opts) \<and> ro_cooldown (eo_run opts) < 2 ^ 63"

text \<open>
  Every experiment and every setting of the options (the throttle fraction apart, which has no option) can be
  given on the command line: the arguments that spell it out parse back to it.
\<close>

theorem bench_args_roundtrip:
  assumes "settable opts"
  shows "bench_args_loop (render_args (experiment, opts)) ([], experiment_options_new) = Inr (experiment, opts)"
proof -
  have small: "n < 2 ^ 31 \<Longrightarrow> n < 2 ^ 64" "n < 2 ^ 63 \<Longrightarrow> n < 2 ^ 64" for n :: int by simp_all
  have "uint w < 2 ^ 64" for w :: u32 using uint_lt2p [of w] by simp
  note w = parse_natural [OF _ this]
  note p = w parse_natural [OF _ small(1)] parse_natural [OF _ small(2)] parse_shown parse_rendered_order
  show ?thesis using assms
    by (cases opts; cases "eo_run opts"; cases "eo_submission opts")
      (simp_all add: settable_def render_args_def bench_arg_def take_uint_def p static_cast_small sint_small ucast_small
        experiment_options_new_def run_options_new_def)
qed


end
