(* ===== verification/Bench_Workload.thy ===== *)
theory Bench_Workload
  imports TB_Prelude
begin

text \<open>
  \<open>benchmarks/workloads/Workloads.hpp\<close>: the unit of work, a range of units, and the chunked workload the
  benchmark legs submit one task per chunk of.
\<close>

definition mix :: "u64 \<Rightarrow> u64" where
  "mix x0 =
     (let x1 = x0 XOR drop_bit 33 x0;
          x2 = x1 * 0xff51afd7ed558ccd;
          x3 = x2 XOR drop_bit 33 x2;
          x4 = x3 * 0xc4ceb9fe1a85ec53
      in x4 XOR drop_bit 33 x4)"

definition work_range :: "u64 \<Rightarrow> u64 \<Rightarrow> u64" where
  "work_range start cnt =
     fold (\<lambda>i acc. mix (acc XOR (start + of_nat i))) [0..<unat cnt] (start * 0x9E3779B97F4A7C15)"

record ChunkedWorkload =
  total_units :: u64
  results :: "u64 list"

text \<open>\<open>chunk_count_\<close> is the length of \<open>results_\<close>, which never changes.\<close>

definition chunk_count :: "ChunkedWorkload \<Rightarrow> u64" where
  "chunk_count w = of_nat (length (results w))"

definition workload_new :: "u64 \<Rightarrow> u64 \<Rightarrow> ChunkedWorkload" where
  "workload_new units chunks = \<lparr>total_units = units, results = replicate (unat chunks) 0\<rparr>"

definition units_for :: "ChunkedWorkload \<Rightarrow> u64 \<Rightarrow> u64" where
  "units_for w index =
     (let base = total_units w div chunk_count w; rest = total_units w mod chunk_count w
      in base + (if index + 1 = chunk_count w then rest else 0))"

definition start_for :: "ChunkedWorkload \<Rightarrow> u64 \<Rightarrow> u64" where
  "start_for w index = (total_units w div chunk_count w) * index"

definition run_chunk :: "u64 \<Rightarrow> ChunkedWorkload \<Rightarrow> ChunkedWorkload" where
  "run_chunk index w =
     w\<lparr>results := (results w)[unat index := work_range (start_for w index) (units_for w index)]\<rparr>"

definition checksum :: "ChunkedWorkload \<Rightarrow> u64" where
  "checksum w = fold (\<lambda>v total. total + v) (results w) 0"

section \<open>The unit of work loses nothing\<close>

lemma xor_shift_undo: "(x XOR drop_bit 33 x) XOR drop_bit 33 (x XOR drop_bit 33 x) = (x :: u64)"
proof -
  have "drop_bit 33 (drop_bit 33 x) = 0"
    by (rule bit_word_eqI) (auto simp: bit_drop_bit_eq dest: bit_imp_le_length)
  then show ?thesis by (simp add: drop_bit_xor ac_simps)
qed

lemma inj_xor_shift: "inj (\<lambda>x :: u64. x XOR drop_bit 33 x)"
  by (rule injI) (metis xor_shift_undo)

lemma inj_times:
  assumes "d * c = (1 :: u64)"
  shows "inj (\<lambda>x. x * c)"
proof (rule injI)
  fix x y :: u64
  assume "x * c = y * c"
  then have "d * (x * c) = d * (y * c)" by simp
  then have "x * (d * c) = y * (d * c)" by (simp only: mult.left_commute)
  then show "x = y" by (simp add: assms)
qed

text \<open>The unit of work (the murmur3 finaliser) is a permutation of the 64-bit values.\<close>

theorem mix_bijective: "bij mix"
proof -
  have m: "mix = (\<lambda>x. x XOR drop_bit 33 x) \<circ> (\<lambda>x. x * 0xc4ceb9fe1a85ec53) \<circ> (\<lambda>x. x XOR drop_bit 33 x) \<circ>
      (\<lambda>x. x * 0xff51afd7ed558ccd) \<circ> (\<lambda>x. x XOR drop_bit 33 x)"
    by (simp add: fun_eq_iff mix_def Let_def)
  have "inj (\<lambda>x :: u64. x * 0xc4ceb9fe1a85ec53)" "inj (\<lambda>x :: u64. x * 0xff51afd7ed558ccd)"
    by (rule inj_times [of 11291846944257947611] inj_times [of 5725274745694666757]; simp)+
  then have "inj mix" unfolding m by (intro inj_compose inj_xor_shift)
  then show ?thesis by (simp add: bij_def finite_UNIV_inj_surj)
qed

section \<open>The chunks tile the work\<close>

lemma chunk_numbers:
  assumes "chunk_count w = n" "i < unat n"
  shows "unat (start_for w (of_nat i)) = (unat (total_units w) div unat n) * i"
    "unat (units_for w (of_nat i)) =
       unat (total_units w) div unat n + (if Suc i = unat n then unat (total_units w) mod unat n else 0)"
proof -
  let ?T = "unat (total_units w)" and ?n = "unat n"
  have i: "unat (of_nat i :: u64) = i" using assms(2) by (metis le_unat_uoi less_imp_le)
  have T: "?T div ?n * i \<le> ?T" using assms(2)
    by (meson div_times_less_eq_dividend less_imp_le mult_le_mono2 order_trans)
  have bound: "unat v < 2 ^ 64" for v :: u64 using unsigned_less [of v] by simp
  have l: "?T < 2 ^ 64" and ln: "?n < 2 ^ 64" by (rule bound)+
  have d: "?T div ?n < 2 ^ 64" using l by (meson div_le_dividend le_less_trans)
  show "unat (start_for w (of_nat i)) = (?T div ?n) * i"
    using T l d by (simp add: start_for_def assms(1) unat_word_ariths unat_div i)
  have m: "unat (of_nat i + 1 :: u64) = Suc i"
    using assms(2) ln by (simp add: unat_word_ariths i)
  have last: "of_nat i + 1 = n \<longleftrightarrow> Suc i = ?n" by (simp add: word_unat_eq_iff m)
  have s: "?T div ?n + ?T mod ?n \<le> ?T"
    by (metis add_le_cancel_right div_mult_mod_eq div_times_less_eq_dividend le_add1 mult.right_neutral
        mult_le_mono2 nat_mult_le_cancel_disj assms(2) gr_implies_not0 less_one not_le)
  show "unat (units_for w (of_nat i)) = ?T div ?n + (if Suc i = ?n then ?T mod ?n else 0)"
    using s l d by (simp add: units_for_def assms(1) last unat_word_ariths unat_div unat_mod)
qed

lemma concat_steps: "concat (map (\<lambda>i. [b * i ..< b * i + b]) [0..<k]) = [0..<b * k]"
proof (induction k)
  case (Suc k)
  then show ?case using upt_add_eq_append [of 0 "b * k" b] by (simp add: algebra_simps)
qed simp

text \<open>The units of chunk \<open>i\<close>, as \<open>work_range\<close> walks them.\<close>

definition chunk_units :: "ChunkedWorkload \<Rightarrow> nat \<Rightarrow> nat list" where
  "chunk_units w i =
     [unat (start_for w (of_nat i)) ..< unat (start_for w (of_nat i)) + unat (units_for w (of_nat i))]"

text \<open>
  Whatever the number of chunks, the chunks of a workload cover its units exactly once and in
  order: only the number of tasks changes, not the work.
\<close>

theorem chunks_tile:
  assumes "chunks \<noteq> 0"
  shows "concat (map (chunk_units (workload_new units chunks)) [0..<unat chunks]) = [0..<unat units]"
proof -
  let ?w = "workload_new units chunks" and ?b = "unat units div unat chunks"
  have n: "chunk_count ?w = chunks" "total_units ?w = units" by (simp_all add: chunk_count_def workload_new_def)
  obtain k where k: "unat chunks = Suc k" using assms by (metis not0_implies_Suc unat_eq_zero)
  have "chunk_units ?w i = [?b * i ..< ?b * i + ?b]" if "i < k" for i
    using that k by (simp add: chunk_units_def chunk_numbers [OF n(1)] n(2))
  then have m: "map (chunk_units ?w) [0..<k] = map (\<lambda>i. [?b * i ..< ?b * i + ?b]) [0..<k]" by simp
  have e: "?b * k + (?b + unat units mod unat chunks) = unat units"
    using div_mult_mod_eq [of "unat units" "unat chunks"] by (simp add: k algebra_simps)
  have "chunk_units ?w k = [?b * k ..< unat units]"
    using k e by (simp add: chunk_units_def chunk_numbers [OF n(1)] n(2))
  then have "concat (map (chunk_units ?w) [0..<unat chunks]) = [0..<?b * k] @ [?b * k..<unat units]"
    by (simp add: k m concat_steps)
  also have "\<dots> = [0..<unat units]" using upt_add_eq_append [of 0 "?b * k" "?b + unat units mod unat chunks"] e by simp
  finally show ?thesis .
qed

theorem chunks_tile_witness:
  "concat (map (chunk_units (workload_new 10 4)) [0..<unat (4 :: u64)]) = [0..<unat (10 :: u64)]"
  by (rule chunks_tile) simp

section \<open>Any order of the tasks gives the same results\<close>

lemma run_chunk_frame:
  "total_units (run_chunk i w) = total_units w" "length (results (run_chunk i w)) = length (results w)"
  "start_for (run_chunk i w) = start_for w" "units_for (run_chunk i w) = units_for w"
  by (simp_all add: run_chunk_def fun_eq_iff start_for_def units_for_def chunk_count_def)

lemma run_chunks_frame:
  "length (results (fold run_chunk ks w)) = length (results w)"
  "start_for (fold run_chunk ks w) = start_for w" "units_for (fold run_chunk ks w) = units_for w"
  by (induction ks arbitrary: w) (simp_all add: run_chunk_frame)

lemma run_chunks_result:
  assumes "i < length (results w)"
  shows "results (fold run_chunk ks w) ! i =
    (if i \<in> unat ` set ks then work_range (start_for w (of_nat i)) (units_for w (of_nat i)) else results w ! i)"
proof (induction ks rule: rev_induct)
  case (snoc k ks)
  have k: "of_nat (unat k) = k" by simp
  have "results (run_chunk k v) ! i = (if unat k = i then work_range (start_for v k) (units_for v k) else results v ! i)"
    if "length (results v) = length (results w)" for v
    using that assms by (simp add: run_chunk_def nth_list_update)
  note step = this [of "fold run_chunk ks w", OF run_chunks_frame(1), unfolded run_chunks_frame]
  have "unat k = unat x \<Longrightarrow> k = x" for x by (simp add: word_unat_eq_iff)
  then show ?case using k by (auto simp: step snoc)
qed simp

lemma fold_plus_sum: "fold (\<lambda>v s. s + v) vs (s :: u64) = s + sum_list vs"
  by (induction vs arbitrary: s) (simp_all add: algebra_simps)

text \<open>
  Running the chunks of a workload in any order, each at least once, leaves the same results, so the
  checksum is the sum over the chunks of their work: a run is bit-identical however it was scheduled.
\<close>

theorem workload_schedule_independent:
  assumes "unat ` set ks = {..<unat chunks}"
  shows "results (fold run_chunk ks (workload_new units chunks)) =
      map (\<lambda>i. work_range (start_for (workload_new units chunks) (of_nat i)) (units_for (workload_new units chunks) (of_nat i)))
        [0..<unat chunks] \<and>
    checksum (fold run_chunk ks (workload_new units chunks)) =
      (\<Sum>i \<leftarrow> [0..<unat chunks].
        work_range (start_for (workload_new units chunks) (of_nat i)) (units_for (workload_new units chunks) (of_nat i)))"
    (is "?r = map ?f _ \<and> _")
proof -
  have l: "length (results (workload_new units chunks)) = unat chunks" by (simp add: workload_new_def)
  have r: "?r = map ?f [0..<unat chunks]"
    using l by (intro nth_equalityI) (simp_all add: run_chunks_frame run_chunks_result assms)
  show ?thesis unfolding checksum_def r by (simp add: fold_plus_sum)
qed

theorem workload_schedule_independent_witness:
  "checksum (fold run_chunk [2, 0, 1, 0] (workload_new 7 3)) = checksum (fold run_chunk [1, 2, 0] (workload_new 7 3))"
proof -
  have s: "unat ` set [2 :: u64, 0, 1, 0] = {..<unat (3 :: u64)}" "unat ` set [1 :: u64, 2, 0] = {..<unat (3 :: u64)}"
    by auto
  show ?thesis
    by (simp only: workload_schedule_independent [OF s(1), THEN conjunct2]
        workload_schedule_independent [OF s(2), THEN conjunct2])
qed

text \<open>
  The checksum does not tell that the same work was performed when the number of chunks differs: each
  chunk starts its accumulator afresh.
\<close>

lemma checksum_depends_on_chunks:
  "checksum (fold run_chunk [0] (workload_new 2 1)) \<noteq> checksum (fold run_chunk [0, 1] (workload_new 2 2))"
  by code_simp

end
