(* ===== verification/Bench_Experiments.thy ===== *)
theory Bench_Experiments
  imports Bench_Cli Bench_Workload Parallel_For
begin

text \<open>
  \<open>benchmarks/experiments/Granularity.cpp\<close> and \<open>Scaling.cpp\<close>: the two experiments of \<open>thunderbolt-bench\<close>. How
  long a sample of a leg takes and what the runtime counted in it comes from an environment, which is given the workload as
  it was constructed: a run overwrites every result, so nothing of an earlier sample is left. Printing is left out.
  The result is the exit code and the document written, if any.
\<close>

section \<open>What the legs run\<close>

text \<open>The template argument \<open>RuntimeT\<close>.\<close>

datatype runtime_class = StandardClass | ThunderboltClass

text \<open>A sample of a leg: the runtime with its configuration, or the Taskflow reference.\<close>

datatype sample_plan =
    SubmitSample runtime_class RuntimeConfig SubmissionMode
  | PartitionedSample RuntimeConfig u64
  | TaskflowExplicitSample u32
  | TaskflowForEachSample u32

text \<open>What a sample reports: the seconds, and the counters of the runtime it constructed.\<close>

record sample_answer =
  sn_seconds :: float64
  sn_inline_executions :: u64
  sn_pool_acquires :: u64
  sn_pool_contended :: u64

type_synonym 'm sampler = "sample_plan \<Rightarrow> ChunkedWorkload \<Rightarrow> 'm \<Rightarrow> sample_answer \<times> 'm"

text \<open>The chunks a sample submits one task each for, in order; the tasks may run in any other order.\<close>

definition submitted_chunks :: "ChunkedWorkload \<Rightarrow> u64 list" where
  "submitted_chunks w = map of_nat [0..<unat (chunk_count w)]"

text \<open>
  \<open>run_one_sample\<close> on a runtime, the clock apart: \<open>body\<close> maps a chunk to the closure that runs it, \<open>root_body\<close> is the closure of
  the root task, whose effect on the worker \<open>tid\<close> that runs it is \<open>fork_join_root\<close>.
\<close>

definition external_sample ::
  "('b, 'd) vtable \<Rightarrow> bool \<Rightarrow> nat \<Rightarrow> (u64 \<Rightarrow> 'b) \<Rightarrow> ChunkedWorkload \<Rightarrow> ('b, 'd) rtb \<Rightarrow> (('b, 'd) rtb \<times> (exn + unit)) option" where
  "external_sample v in_place tid body w rt =
     (case submit_all v in_place tid (map body (submitted_chunks w)) Normal rt of
        None \<Rightarrow> None
      | Some (rt1, Inl e) \<Rightarrow> Some (rt1, Inl e)
      | Some (rt1, Inr handles) \<Rightarrow> map_option (\<lambda>rt2. (rt2, Inr ())) (rt_wait_all v tid rt1))"

definition fork_join_root ::
  "('b, 'd) vtable \<Rightarrow> bool \<Rightarrow> nat \<Rightarrow> (u64 \<Rightarrow> 'b) \<Rightarrow> ChunkedWorkload \<Rightarrow> ('b, 'd) rtb \<Rightarrow> (('b, 'd) rtb \<times> (exn + unit)) option" where
  "fork_join_root v in_place tid body w rt =
     (case submit_all v in_place tid (map body (submitted_chunks w)) Normal rt of
        None \<Rightarrow> None
      | Some (rt1, Inl e) \<Rightarrow> Some (rt1, Inl e)
      | Some (rt1, Inr handles) \<Rightarrow> map_option (\<lambda>rt2. (rt2, Inr ())) (wait_each v tid handles rt1))"

definition run_one_sample ::
  "('b, 'd) vtable \<Rightarrow> bool \<Rightarrow> nat \<Rightarrow> (u64 \<Rightarrow> 'b) \<Rightarrow> 'b \<Rightarrow> SubmissionMode \<Rightarrow> ChunkedWorkload \<Rightarrow> ('b, 'd) rtb \<Rightarrow>
   (('b, 'd) rtb \<times> (exn + unit)) option" where
  "run_one_sample v in_place tid body root_body mode w rt =
     (if mode = External then external_sample v in_place tid body w rt
      else case submit_callable v in_place tid (Inr root_body) Normal rt of
        None \<Rightarrow> None
      | Some (rt1, Inl e) \<Rightarrow> Some (rt1, Inl e)
      | Some (rt1, Inr h) \<Rightarrow> map_option (\<lambda>rt2. (rt2, Inr ())) (rt_wait v tid h rt1))"

text \<open>The body that \<open>run_partitioned_sample\<close> hands to \<open>parallel_for\<close>.\<close>

definition partitioned_body :: "u64 \<Rightarrow> u64 \<Rightarrow> u64 list" where
  "partitioned_body lo hi = map of_nat [unat lo..<unat hi]"

definition kClaimsPerWorker :: u64 where "kClaimsPerWorker = 32"

definition partitioned_grain :: "u64 \<Rightarrow> u32 \<Rightarrow> u64" where
  "partitioned_grain chunks workers =
     (let divisor = ucast workers * kClaimsPerWorker;
          grain = (chunks + divisor - 1) div divisor
      in if grain = 0 then 1 else grain)"

section \<open>The granularity experiment\<close>

definition kTaskCounts :: "u64 list" where
  "kTaskCounts = [1, 2, 4, 8, 16, 64, 256, 1024, 4096, 16384, 65536]"

record PoolProbe =
  probe_acquires :: u64
  probe_contended :: u64

text \<open>The variables of one row that its legs refer to, beside the state of the machine.\<close>

record 'm row_env =
  re_machine :: 'm
  re_inline_standard :: u64
  re_inline_thunderbolt :: u64
  re_inline_partitioned :: u64
  re_probe_standard :: PoolProbe
  re_probe_thunderbolt :: PoolProbe

definition row_env_new :: "'m \<Rightarrow> 'm row_env" where
  "row_env_new m = \<lparr>re_machine = m, re_inline_standard = 0, re_inline_thunderbolt = 0, re_inline_partitioned = 0,
     re_probe_standard = \<lparr>probe_acquires = 0, probe_contended = 0\<rparr>,
     re_probe_thunderbolt = \<lparr>probe_acquires = 0, probe_contended = 0\<rparr>\<rparr>"

definition sample_config :: "u32 \<Rightarrow> RuntimeConfig" where
  "sample_config workers = default_config\<lparr>worker_count := workers, task_capacity := 262144, deque_capacity := 131072\<rparr>"

text \<open>
  \<open>make_leg\<close>: the references to the inline counter and to the probe are given by what they add to and store in
  the variables of the row.
\<close>

definition make_sample_leg ::
  "'m sampler \<Rightarrow> ChunkedWorkload \<Rightarrow> string \<Rightarrow> runtime_class \<Rightarrow> u32 \<Rightarrow> ((u64 \<Rightarrow> u64) \<Rightarrow> 'm row_env \<Rightarrow> 'm row_env) \<Rightarrow>
   SubmissionMode \<Rightarrow> ('m row_env \<Rightarrow> PoolProbe) \<Rightarrow> ((PoolProbe \<Rightarrow> PoolProbe) \<Rightarrow> 'm row_env \<Rightarrow> 'm row_env) \<Rightarrow> u32 \<Rightarrow>
   'm row_env Leg" where
  "make_sample_leg sampler workload name class workers inline_executions mode probe set_probe optimizations_bits =
     \<lparr>leg_name = name,
      leg_run_once = (\<lambda>e.
        case sampler (SubmitSample class ((sample_config workers)\<lparr>optimizations := optimizations_bits\<rparr>) mode) workload (re_machine e) of
          (answer, m) \<Rightarrow>
            (sn_seconds answer,
             set_probe (\<lambda>_. \<lparr>probe_acquires = sn_pool_acquires answer, probe_contended = sn_pool_contended answer\<rparr>)
               (inline_executions (\<lambda>n. n + sn_inline_executions answer) (e\<lparr>re_machine := m\<rparr>)))),
      leg_record_counters = Some (\<lambda>e recorder.
        recorder_count ''pool_contended_locks'' (probe_contended (probe e))
          (recorder_count ''pool_acquires'' (probe_acquires (probe e)) recorder))\<rparr>"

definition make_partitioned_leg :: "'m sampler \<Rightarrow> ChunkedWorkload \<Rightarrow> string \<Rightarrow> u32 \<Rightarrow> 'm row_env Leg" where
  "make_partitioned_leg sampler workload name workers =
     \<lparr>leg_name = name,
      leg_run_once = (\<lambda>e.
        case sampler (PartitionedSample (sample_config workers) (partitioned_grain (chunk_count workload) workers)) workload (re_machine e) of
          (answer, m) \<Rightarrow>
            (sn_seconds answer, e\<lparr>re_machine := m, re_inline_partitioned := re_inline_partitioned e + sn_inline_executions answer\<rparr>)),
      leg_record_counters = None\<rparr>"

definition make_taskflow_leg :: "'m sampler \<Rightarrow> ChunkedWorkload \<Rightarrow> string \<Rightarrow> sample_plan \<Rightarrow> 'm row_env Leg" where
  "make_taskflow_leg sampler workload name plan =
     \<lparr>leg_name = name,
      leg_run_once = (\<lambda>e. case sampler plan workload (re_machine e) of (answer, m) \<Rightarrow> (sn_seconds answer, e\<lparr>re_machine := m\<rparr>)),
      leg_record_counters = None\<rparr>"

text \<open>The legs of one row; \<open>taskflow\<close> is the version of the reference runtime of the build, if there is one.\<close>

definition granularity_legs ::
  "'m sampler \<Rightarrow> string option \<Rightarrow> u32 \<Rightarrow> SubmissionMode \<Rightarrow> ChunkedWorkload \<Rightarrow> 'm row_env Leg list" where
  "granularity_legs sampler taskflow workers mode workload =
     (let thunderbolt = (\<lambda>name bits. make_sample_leg sampler workload name ThunderboltClass workers re_inline_thunderbolt_update mode
            re_probe_thunderbolt re_probe_thunderbolt_update bits)
      in [make_sample_leg sampler workload ''standard'' StandardClass workers re_inline_standard_update mode
            re_probe_standard re_probe_standard_update kOptNone,
          thunderbolt ''thunderbolt'' kOptNone,
          make_partitioned_leg sampler workload ''tb_partitioned'' workers,
          thunderbolt ''tb_o1_skipempty'' kOptSkipEmptyDeques,
          thunderbolt ''tb_o2_onebarrier'' kOptSingleBarrierOnComplete,
          thunderbolt ''tb_s2_threadcache'' kOptThreadCache,
          thunderbolt ''tb_s3_inplace'' kOptInPlaceSubmit,
          thunderbolt ''tb_s23'' (kOptThreadCache OR kOptInPlaceSubmit),
          thunderbolt ''tb_plain_control'' kOptNone,
          thunderbolt ''tb_o12_both'' (kOptSkipEmptyDeques OR kOptSingleBarrierOnComplete)] @
         (if taskflow = None then []
          else [make_taskflow_leg sampler workload ''taskflow_explicit'' (TaskflowExplicitSample workers),
                make_taskflow_leg sampler workload ''taskflow_for_each'' (TaskflowForEachSample workers)]))"

text \<open>The smallest of five serial runs of the work as one chunk.\<close>

definition measure_serial_baseline :: "(ChunkedWorkload \<Rightarrow> 'm \<Rightarrow> float64 \<times> 'm) \<Rightarrow> u64 \<Rightarrow> 'm \<Rightarrow> float64 \<times> 'm" where
  "measure_serial_baseline serial work_units m =
     fold (\<lambda>_ (best, m). case serial (workload_new work_units 1) m of (seconds, m') \<Rightarrow>
             (if f64_abs best = 0 \<or> f64_less seconds best then seconds else best, m')) [0..<5] (0, m)"

record granularity_row =
  gr_task_count :: u64
  gr_report :: RunReport
  gr_inline_standard :: u64
  gr_inline_thunderbolt :: u64

definition in_row :: "('m \<Rightarrow> 'a \<times> 'm) \<Rightarrow> 'm row_env \<Rightarrow> 'a \<times> 'm row_env" where
  "in_row f e = (case f (re_machine e) of (x, m) \<Rightarrow> (x, e\<lparr>re_machine := m\<rparr>))"

definition granularity_row_of ::
  "('m \<Rightarrow> float64 \<times> 'm) \<Rightarrow> float64 \<Rightarrow> 'm sampler \<Rightarrow> string option \<Rightarrow> u32 \<Rightarrow> ExperimentOptions \<Rightarrow> u64 \<Rightarrow> 'm \<Rightarrow> granularity_row \<times> 'm" where
  "granularity_row_of mhz nominal sampler taskflow workers options task_count m =
     (case run_interleaved (in_row mhz) nominal
             (granularity_legs sampler taskflow workers (eo_submission options) (workload_new (eo_work_units options) task_count))
             (eo_run options) (row_env_new m) of
        (report, e) \<Rightarrow>
          (\<lparr>gr_task_count = task_count, gr_report = report, gr_inline_standard = re_inline_standard e,
            gr_inline_thunderbolt = re_inline_thunderbolt e\<rparr>, re_machine e))"

definition granularity_rows ::
  "('m \<Rightarrow> float64 \<times> 'm) \<Rightarrow> float64 \<Rightarrow> 'm sampler \<Rightarrow> string option \<Rightarrow> u32 \<Rightarrow> ExperimentOptions \<Rightarrow> 'm \<Rightarrow> granularity_row list \<times> 'm" where
  "granularity_rows mhz nominal sampler taskflow workers options m =
     fold (\<lambda>task_count (rows, m). case granularity_row_of mhz nominal sampler taskflow workers options task_count m of
             (row, m') \<Rightarrow> (rows @ [row], m')) kTaskCounts ([], m)"

definition leg_median :: "RunReport \<Rightarrow> nat \<Rightarrow> float64" where
  "leg_median report i = sum_median (lr_timing (rr_legs report ! i))"

text \<open>The rows with at least eight tasks per worker, and the line through leg \<open>i\<close> of them.\<close>

definition fitted_rows :: "u32 \<Rightarrow> granularity_row list \<Rightarrow> granularity_row list" where
  "fitted_rows workers rows = filter (\<lambda>row. ucast workers * 8 \<le> gr_task_count row) rows"

definition leg_fit :: "u32 \<Rightarrow> granularity_row list \<Rightarrow> nat \<Rightarrow> LinearFit" where
  "leg_fit workers rows i =
     fit_linear (map (\<lambda>row. f64_of_int (uint (gr_task_count row))) (fitted_rows workers rows))
       (map (\<lambda>row. leg_median (gr_report row) i) (fitted_rows workers rows))"

definition write_granularity_row :: "u64 \<Rightarrow> granularity_row \<Rightarrow> JsonWriter \<Rightarrow> JsonWriter" where
  "write_granularity_row work_units row w0 =
     (let w1 = field_u64 ''task_count'' (gr_task_count row) (begin_object w0);
          w2 = field_u64 ''units_per_task'' (work_units div gr_task_count row) w1;
          w3 = end_array (fold (\<lambda>leg. write_leg leg False) (rr_legs (gr_report row)) (begin_array ''legs'' w2));
          w4 = field_u64 ''inline_executions_standard'' (gr_inline_standard row) w3;
          w5 = field_u64 ''inline_executions_thunderbolt'' (gr_inline_thunderbolt row) w4
      in end_object w5)"

text \<open>The two fields of a fit, if it is valid; the slope is written in nanoseconds.\<close>

definition write_fit :: "string \<Rightarrow> string \<Rightarrow> LinearFit \<Rightarrow> JsonWriter \<Rightarrow> JsonWriter" where
  "write_fit key r_squared_key fit w =
     (if fit_valid fit
      then field_double r_squared_key (fit_r_squared fit) (field_double key (f64_mul (fit_slope fit) (f64_of_int (10 ^ 9))) w)
      else w)"

definition gate_note :: string where
  "gate_note = ''T1 must be comfortably above per-frame scheduler cost, or the configuration '' @
     ''measures noise rather than scheduling.''"

definition method_note :: string where
  "method_note = ''Total work is held constant while the task count varies, so the slope of total '' @
     ''time against task count is the marginal cost of one task. Fitted only over task '' @
     ''counts of at least 8x the worker count, below which load imbalance dominates.''"

text \<open>\<open>task_bytes\<close> is \<open>sizeof(Task)\<close>, which the target fixes.\<close>

definition granularity_document ::
  "u64 \<Rightarrow> string option \<Rightarrow> u32 \<Rightarrow> ExperimentOptions \<Rightarrow> Environment \<Rightarrow> float64 \<Rightarrow> granularity_row list \<Rightarrow> JsonWriter" where
  "granularity_document task_bytes taskflow workers options env serial_seconds rows =
     (let w1 = begin_result_document ''granularity'' env (gr_report (hd rows)) json_writer_new;
          w2 = field_u64 ''workers'' (ucast workers) w1;
          w3 = field_u64 ''work_units'' (eo_work_units options) w2;
          w4 = field_string ''submission_mode'' (if eo_submission options = ForkJoin then ''fork-join'' else ''external'') w3;
          w5 = field_u64 ''task_bytes'' task_bytes w4;
          w6 = field_u64 ''task_slab_bytes'' (task_bytes * 262144) w5;
          w7 = field_string ''reference_runtime'' (case taskflow of Some v \<Rightarrow> v | None \<Rightarrow> ''none'') w6;
          w8 = field_double ''t1_seconds'' serial_seconds (begin_object_key ''serial_baseline'' w7);
          w9 = field_bool ''cpu_bound_gate_passed'' (f64_less (f64_lit 1 1000) serial_seconds) w8;
          w10 = end_object (field_string ''gate_note'' gate_note w9);
          w11 = end_array (fold (write_granularity_row (eo_work_units options)) rows (begin_array ''rows'' w10));
          w12 = begin_object_key ''per_task_overhead_ns'' (begin_object_key ''analysis'' w11);
          w13 = write_fit ''standard'' ''standard_r_squared'' (leg_fit workers rows 0) w12;
          w14 = write_fit ''thunderbolt'' ''thunderbolt_r_squared'' (leg_fit workers rows 1) w13;
          w15 = field_string ''method'' method_note (end_object w14)
      in end_object (end_object w15))"

text \<open>How an experiment ends: the file is opened only if a path was given, and its failure is exit code 1.\<close>

definition written_document :: "ExperimentOptions \<Rightarrow> bool \<Rightarrow> JsonWriter \<Rightarrow> int \<times> string option" where
  "written_document options can_write w =
     (if eo_output_path options = [] then (0, None)
      else if can_write then (0, Some (jw_out w @ [CHR 0x0A])) else (1, None))"

definition experiment_workers :: "CpuTopology \<Rightarrow> ExperimentOptions \<Rightarrow> u32" where
  "experiment_workers topology options =
     (if eo_workers options \<noteq> 0 then eo_workers options
      else if 0 < logical_processor_count topology then logical_processor_count topology else 1)"

definition run_granularity ::
  "CpuTopology \<Rightarrow> Environment \<Rightarrow> ('m \<Rightarrow> float64 \<times> 'm) \<Rightarrow> float64 \<Rightarrow> (ChunkedWorkload \<Rightarrow> 'm \<Rightarrow> float64 \<times> 'm) \<Rightarrow> 'm sampler \<Rightarrow>
   u64 \<Rightarrow> string option \<Rightarrow> bool \<Rightarrow> ExperimentOptions \<Rightarrow> 'm \<Rightarrow> int \<times> string option" where
  "run_granularity topology env mhz nominal serial sampler task_bytes taskflow can_write options m =
     (let workers = experiment_workers topology options;
          (serial_seconds, m1) = measure_serial_baseline serial (eo_work_units options) m;
          (rows, m2) = granularity_rows mhz nominal sampler taskflow workers options m1
      in written_document options can_write (granularity_document task_bytes taskflow workers options env serial_seconds rows))"

section \<open>The scaling experiment\<close>

definition kTaskCount :: u64 where "kTaskCount = 512"

text \<open>\<open>make_leg\<close> of \<open>Scaling.cpp\<close>: all optimisations at their defaults, submission from outside.\<close>

definition make_scaling_leg :: "'m sampler \<Rightarrow> ChunkedWorkload \<Rightarrow> string \<Rightarrow> runtime_class \<Rightarrow> u32 \<Rightarrow> 'm Leg" where
  "make_scaling_leg sampler workload name class workers =
     \<lparr>leg_name = name,
      leg_run_once = (\<lambda>m.
        case sampler (SubmitSample class (default_config\<lparr>worker_count := workers, task_capacity := 65536\<rparr>) External) workload m of
          (answer, m') \<Rightarrow> (sn_seconds answer, m')),
      leg_record_counters = None\<rparr>"

definition scaling_report ::
  "('m \<Rightarrow> float64 \<times> 'm) \<Rightarrow> float64 \<Rightarrow> 'm sampler \<Rightarrow> ExperimentOptions \<Rightarrow> u32 \<Rightarrow> 'm \<Rightarrow> RunReport \<times> 'm" where
  "scaling_report mhz nominal sampler options workers m =
     (let workload = workload_new (eo_work_units options) kTaskCount
      in run_interleaved mhz nominal
           [make_scaling_leg sampler workload ''standard'' StandardClass workers,
            make_scaling_leg sampler workload ''thunderbolt'' ThunderboltClass workers] (eo_run options) m)"

text \<open>The loop over the worker counts; a row is a worker count with its report.\<close>

partial_function (option) scaling_rows ::
  "('m \<Rightarrow> float64 \<times> 'm) \<Rightarrow> float64 \<Rightarrow> 'm sampler \<Rightarrow> ExperimentOptions \<Rightarrow> u32 \<Rightarrow> u32 \<Rightarrow> (u32 \<times> RunReport) list \<Rightarrow> 'm \<Rightarrow>
   (u32 \<times> RunReport) list option" where
  [code]: "scaling_rows mhz nominal sampler options max_workers workers rows m =
     (if workers \<le> max_workers then
        (case scaling_report mhz nominal sampler options workers m of
           (report, m') \<Rightarrow> scaling_rows mhz nominal sampler options max_workers (workers + 1) (rows @ [(workers, report)]) m')
      else Some rows)"

definition in_smt_domain :: "CpuTopology \<Rightarrow> u32 \<Rightarrow> bool" where
  "in_smt_domain topology workers \<longleftrightarrow>
     detected topology \<and> 0 < physical_core_count topology \<and> physical_core_count topology < workers"

definition row_speedup :: "float64 \<Rightarrow> RunReport \<Rightarrow> nat \<Rightarrow> float64" where
  "row_speedup serial report i =
     (if f64_less 0 (leg_median report i) then f64_div serial (leg_median report i) else 0)"

definition write_scaling_row ::
  "CpuTopology \<Rightarrow> float64 \<Rightarrow> float64 \<Rightarrow> u32 \<times> RunReport \<Rightarrow> JsonWriter \<Rightarrow> JsonWriter" where
  "write_scaling_row topology standard_serial thunderbolt_serial row w0 =
     (case row of (workers, report) \<Rightarrow>
        (let w1 = field_u64 ''workers'' (ucast workers) (begin_object w0);
             w2 = field_bool ''uses_smt_siblings'' (in_smt_domain topology workers) w1;
             w3 = field_double ''speedup_standard'' (row_speedup standard_serial report 0) w2;
             w4 = field_double ''speedup_thunderbolt'' (row_speedup thunderbolt_serial report 1) w3
         in end_object (end_array (fold (\<lambda>leg. write_leg leg False) (rr_legs report) (begin_array ''legs'' w4)))))"

text \<open>The serial times are the medians of the row with one worker, the first.\<close>

definition scaling_document ::
  "CpuTopology \<Rightarrow> ExperimentOptions \<Rightarrow> Environment \<Rightarrow> (u32 \<times> RunReport) list \<Rightarrow> JsonWriter" where
  "scaling_document topology options env rows =
     (let first = snd (hd rows);
          w1 = begin_result_document ''scaling'' env first json_writer_new;
          w2 = field_u64 ''task_count'' kTaskCount w1;
          w3 = field_u64 ''work_units'' (eo_work_units options) w2;
          w4 = fold (write_scaling_row topology (leg_median first 0) (leg_median first 1)) rows (begin_array ''rows'' w3)
      in end_object (end_array w4))"

text \<open>\<open>None\<close>: the loop over the worker counts does not end.\<close>

definition run_scaling ::
  "CpuTopology \<Rightarrow> Environment \<Rightarrow> ('m \<Rightarrow> float64 \<times> 'm) \<Rightarrow> float64 \<Rightarrow> 'm sampler \<Rightarrow> bool \<Rightarrow> ExperimentOptions \<Rightarrow> 'm \<Rightarrow>
   (int \<times> string option) option" where
  "run_scaling topology env mhz nominal sampler can_write options m =
     map_option (\<lambda>rows. written_document options can_write (scaling_document topology options env rows))
       (scaling_rows mhz nominal sampler options (experiment_workers topology options) 1 [] m)"

end
