(* ===== verification/Bench_Experiments_Correct.thy ===== *)
theory Bench_Experiments_Correct
  imports Bench_Experiments
begin

text \<open>
  What the experiments promise: every leg does the whole work, the rows that are measured, what the counters of a
  row mean, and the documents.
\<close>

section \<open>Every leg does the same work\<close>

text \<open>A sample submitted from outside ends with nothing outstanding.\<close>

lemma external_sample_ends: "external_sample v in_place tid body w rt = Some (rt', Inr ()) \<Longrightarrow> rb_outstanding rt' = 0"
  by (auto simp: external_sample_def wait_all_ends split: option.splits prod.splits sum.splits)

text \<open>The grain gives every worker at most 32 claims, and never nothing.\<close>

lemma partitioned_grain_nat:
  assumes "workers \<noteq> 0" "unat chunks + 32 * unat workers < 2 ^ 64"
  shows "unat (partitioned_grain chunks workers) = max 1 ((unat chunks + 32 * unat workers - 1) div (32 * unat workers))"
proof -
  let ?d = "ucast workers * kClaimsPerWorker :: u64"
  have w: "0 < unat workers" using assms(1) by (simp add: unat_gt_0)
  have d: "unat ?d = 32 * unat workers"
    using assms(2) by (simp add: kClaimsPerWorker_def unat_word_ariths unat_widened)
  have s: "unat (chunks + ?d) = unat chunks + 32 * unat workers"
    using assms(2) unfolding d [symmetric] by (simp add: unat_word_ariths)
  then have "chunks + ?d \<noteq> 0" using w by auto
  then have "unat (chunks + ?d - 1) = unat chunks + 32 * unat workers - 1"
    using unat_minus_one [of "chunks + ?d"] by (simp add: s)
  then have g: "unat ((chunks + ?d - 1) div ?d) = (unat chunks + 32 * unat workers - 1) div (32 * unat workers)" (is "unat ?g = ?n")
    by (simp only: unat_div d)
  show ?thesis
  proof (cases "?g = 0")
    case True
    then have "?n = 0" using g by simp
    then show ?thesis using True by (simp add: partitioned_grain_def Let_def)
  next
    case False
    then have "0 < ?n" using g by (metis unat_gt_0)
    then show ?thesis using False g by (simp add: partitioned_grain_def Let_def)
  qed
qed


lemma partitioned_grain_bounds:
  assumes "workers \<noteq> 0" "unat chunks + 32 * unat workers < 2 ^ 64"
  shows "0 < unat (partitioned_grain chunks workers)"
    "unat chunks \<le> unat (partitioned_grain chunks workers) * (32 * unat workers)"
    "unat (partitioned_grain chunks workers) \<le> max 1 (unat chunks)"
proof -
  let ?c = "unat chunks" and ?d = "32 * unat workers" and ?g = "unat (partitioned_grain chunks workers)"
  have d: "0 < ?d" using assms(1) by (simp add: unat_gt_0)
  note g = partitioned_grain_nat [OF assms]
  show "0 < ?g" by (simp add: g)
  have ceil: "?c \<le> (?c + ?d - 1) div ?d * ?d"
    using div_mult_mod_eq [of "?c + ?d - 1" ?d] mod_less_divisor [OF d, of "?c + ?d - 1"] d by linarith
  also have "\<dots> \<le> ?g * ?d" unfolding g by (rule mult_le_mono1) simp
  finally show "?c \<le> ?g * ?d" .
  show "?g \<le> max 1 ?c"
  proof (cases "?c = 0")
    case False
    then have "?c + ?d - 1 \<le> ?c * ?d" using d by (cases ?c; cases ?d) auto
    then have "(?c + ?d - 1) div ?d \<le> ?c" using d by (metis div_le_mono nonzero_mult_div_cancel_right less_irrefl)
    then show ?thesis using g by simp
  qed (use d g in simp)
qed

text \<open>The results of a workload after a run of its chunks in any order.\<close>

lemma all_chunks_results:
  assumes "unat ` set ks = {..<unat chunks}"
  shows "results (fold run_chunk ks (workload_new units chunks)) =
    map (\<lambda>i. work_range (start_for (workload_new units chunks) (of_nat i)) (units_for (workload_new units chunks) (of_nat i)))
      [0..<unat chunks]"
  using assms by (intro nth_equalityI) (simp_all add: run_chunks_frame run_chunks_result workload_new_def)

lemma workload_chunks: "unat (chunk_count (workload_new units chunks)) = unat chunks"
  by (simp add: chunk_count_def workload_new_def)

lemma unat_of_upt: "n \<le> unat (m :: u64) \<Longrightarrow> unat ` set (map of_nat [a..<n] :: u64 list) = {a..<n}"
proof -
  assume n: "n \<le> unat m"
  have "unat (of_nat i :: u64) = i" if "i < n" for i using that n by (metis le_unat_uoi less_imp_le le_trans)
  then have "(\<lambda>i. unat (of_nat i :: u64)) ` {a..<n} = (\<lambda>i. i) ` {a..<n}" by (intro image_cong) simp_all
  then show ?thesis by (simp add: image_image)
qed

lemma partitioned_bodies:
  assumes "concat (map chunk_indices calls) = [0..<unat (n :: u64)]"
  shows "unat ` set (concat (map (\<lambda>(t, lo, hi). partitioned_body lo hi) calls)) = {..<unat n}"
proof -
  have "unat ` set ((\<lambda>(t, lo, hi). partitioned_body lo hi) c) = set (chunk_indices c)" for c :: "nat \<times> u64 \<times> u64"
    using unat_of_upt [of "unat (snd (snd c))" "snd (snd c)" "unat (fst (snd c))"]
    by (simp add: partitioned_body_def chunk_indices_def split_beta)
  then have "unat ` set (concat (map (\<lambda>(t, lo, hi). partitioned_body lo hi) calls)) = set (concat (map chunk_indices calls))"
    by (simp only: set_concat set_map image_image image_UN image_Union)
  then show ?thesis by (simp add: assms atLeast0LessThan)
qed

text \<open>
  C33. The legs of a row do the same work: the submitted tasks and the chunks that the tasks of \<open>parallel_for\<close> claim with the
  grain of the experiment leave the same results in the workload, in whatever order either run them; and the
  workers claim at most 32 chunks each on average.
\<close>

theorem partitioned_leg_same_work:
  assumes "workers \<noteq> 0" "chunks \<noteq> 0" "unat chunks \<le> 65536"
    and "parallel_for 0 chunks (partitioned_grain chunks workers) workers schedule = Some calls"
    and "mset partitioned = mset (concat (map (\<lambda>(t, lo, hi). partitioned_body lo hi) calls))"
    and "mset submitted = mset (submitted_chunks (workload_new units chunks))"
  shows "results (fold run_chunk partitioned (workload_new units chunks)) = results (fold run_chunk submitted (workload_new units chunks)) \<and>
    unat (pf_batch_count 0 chunks (partitioned_grain chunks workers)) \<le> 32 * unat workers"
proof -
  let ?g = "partitioned_grain chunks workers"
  have w: "unat workers < 2 ^ 32" using unsigned_less [of workers] by simp
  have no: "unat chunks + 32 * unat workers < 2 ^ 64" using assms(3) w by simp
  note g = partitioned_grain_bounds [OF assms(1) no]
  have g1: "unat ?g \<le> 65536" using g(3) assms(3) by simp
  have pos: "0 < chunks" "0 < unat chunks" using assms(2) by (simp_all add: word_gt_0 unat_gt_0)
  have ne: "?g = (if ?g = 0 then 1 else ?g)" using g(1) by (auto simp: unat_gt_0)
  have "(max 1 (unat workers) + 1) * unat ?g \<le> (2 ^ 32 + 1) * 65536"
    by (rule mult_le_mono) (use w g1 in simp_all)
  then have room: "unat chunks + (max 1 (unat workers) + 1) * unat ?g \<le> 2 ^ 64" using assms(3) by simp
  have "concat (map chunk_indices calls) = [0..<unat chunks]"
    using parallel_for_covers [OF pos(1) ne room refl, of schedule] assms(4) by simp
  then have p: "unat ` set partitioned = {..<unat chunks}"
    using partitioned_bodies mset_eq_setD [OF assms(5)] by simp
  have s: "unat ` set submitted = {..<unat chunks}"
    using mset_eq_setD [OF assms(6)] unat_of_upt [of "unat chunks" chunks 0]
    by (simp add: submitted_chunks_def workload_chunks atLeast0LessThan)
  have "unat (chunks - 0 + ?g - 1) = unat chunks + unat ?g - 1"
  proof -
    have "unat (chunks + ?g) = unat chunks + unat ?g" using assms(3) g1 by (simp add: unat_word_ariths)
    moreover from this have "chunks + ?g \<noteq> 0" using pos(2) by auto
    ultimately show ?thesis using unat_minus_one [of "chunks + ?g"] by simp
  qed
  then have b: "unat (pf_batch_count 0 chunks ?g) = (unat chunks + unat ?g - 1) div unat ?g"
    by (simp add: pf_batch_count_def unat_div)
  have "unat chunks + unat ?g - 1 < (32 * unat workers + 1) * unat ?g" using g(1,2) by (simp add: algebra_simps)
  then have "(unat chunks + unat ?g - 1) div unat ?g < 32 * unat workers + 1" using g(1) by (simp add: div_less_iff_less_mult)
  then show ?thesis using all_chunks_results [OF p] all_chunks_results [OF s] b by simp
qed

theorem partitioned_leg_same_work_witness:
  "results (fold run_chunk [1, 0, 2] (workload_new 7 3)) = results (fold run_chunk [2, 1, 0] (workload_new 7 3))"
proof -
  have h: "(2 :: u32) \<noteq> 0" "(3 :: u64) \<noteq> 0" "unat (3 :: u64) \<le> 65536" by simp_all
  have calls: "parallel_for 0 3 (partitioned_grain 3 2) 2 [0, 1, 0, 1, 0] = Some [(0, 0, 1), (1, 1, 2), (0, 2, 3)]" by code_simp
  have p: "mset [1, 0, 2 :: u64] = mset (concat (map (\<lambda>(t, lo, hi). partitioned_body lo hi)
      [(0 :: nat, 0, 1), (1, 1, 2), (0, 2, 3)]))"
    by (simp add: partitioned_body_def upt_rec)
  have s: "mset [2, 1, 0 :: u64] = mset (submitted_chunks (workload_new 7 3))"
    by (simp add: submitted_chunks_def workload_chunks upt_rec)
  show ?thesis using partitioned_leg_same_work [OF h calls p s] by blast
qed

section \<open>The counters of a row\<close>

text \<open>The legs of a row by name, the reference legs at the end.\<close>

lemma granularity_leg_names:
  "map leg_name (granularity_legs sampler taskflow workers mode workload) =
     [''standard'', ''thunderbolt'', ''tb_partitioned'', ''tb_o1_skipempty'', ''tb_o2_onebarrier'', ''tb_s2_threadcache'',
      ''tb_s3_inplace'', ''tb_s23'', ''tb_plain_control'', ''tb_o12_both''] @
     (if taskflow = None then [] else [''taskflow_explicit'', ''taskflow_for_each''])"
  by (simp add: granularity_legs_def Let_def make_sample_leg_def make_partitioned_leg_def make_taskflow_leg_def)

text \<open>
  All legs of the Thunderbolt runtime but the partitioned one write to the same probe, so the pool counters of a row
  are for each of them those of whichever of them ran last: their document entries do not tell them apart.
\<close>

lemma shared_probe_counters:
  assumes "i \<in> {1, 3, 4, 5, 6, 7, 8, 9}" "j \<in> {1, 3, 4, 5, 6, 7, 8, 9}"
  shows "lr_counters (rr_legs (gr_report (fst (granularity_row_of mhz nominal sampler taskflow workers options task_count m))) ! i) =
    lr_counters (rr_legs (gr_report (fst (granularity_row_of mhz nominal sampler taskflow workers options task_count m))) ! j)"
proof -
  let ?legs = "granularity_legs sampler taskflow workers (eo_submission options) (workload_new (eo_work_units options) task_count)"
  obtain report e where r: "run_interleaved (in_row mhz) nominal ?legs (eo_run options) (row_env_new m) = (report, e)" by fastforce
  note rl = report_legs [OF r]
  have len: "length (rr_legs report) = length ?legs" using rl by (metis length_map)
  have n: "10 \<le> length ?legs" by (simp add: granularity_legs_def Let_def)
  have "lr_counters (rr_legs report ! k) =
      recorder_count ''pool_contended_locks'' (probe_contended (re_probe_thunderbolt e))
        (recorder_count ''pool_acquires'' (probe_acquires (re_probe_thunderbolt e)) [])" if "k \<in> {1, 3, 4, 5, 6, 7, 8, 9}" for k
  proof -
    have k: "k < length ?legs" using that n by auto
    have "lr_counters (rr_legs report ! k) = map lr_counters (rr_legs report) ! k" using k len by simp
    also have "\<dots> = (case leg_record_counters (?legs ! k) of None \<Rightarrow> [] | Some record_counters \<Rightarrow> record_counters e [])"
      using rl k by simp
    also have "\<dots> = recorder_count ''pool_contended_locks'' (probe_contended (re_probe_thunderbolt e))
        (recorder_count ''pool_acquires'' (probe_acquires (re_probe_thunderbolt e)) [])"
      using that by (auto simp: granularity_legs_def Let_def make_sample_leg_def)
    finally show ?thesis .
  qed
  then show ?thesis using assms by (simp add: granularity_row_of_def r)
qed

section \<open>The rows\<close>

lemma granularity_rows_counts:
  "map gr_task_count (fst (granularity_rows mhz nominal sampler taskflow workers options m)) = kTaskCounts"
proof -
  let ?step = "\<lambda>task_count (rows, m). case granularity_row_of mhz nominal sampler taskflow workers options task_count m of
             (row, m') \<Rightarrow> (rows @ [row], m')"
  have "map gr_task_count (fst (fold ?step ts (rows, m))) = map gr_task_count rows @ ts" for ts rows m
  proof (induction ts arbitrary: rows m)
    case (Cons t ts)
    obtain row m' where r: "granularity_row_of mhz nominal sampler taskflow workers options t m = (row, m')" by fastforce
    then have "gr_task_count row = t" by (auto simp: granularity_row_of_def split: prod.splits)
    then show ?case by (simp add: r Cons.IH)
  qed simp
  then show ?thesis by (simp add: granularity_rows_def)
qed

text \<open>The loop of the scaling experiment over \<open>n\<close> worker counts.\<close>

lemma scaling_rows_run:
  assumes "unat max_workers + 1 = unat workers + n" "max_workers \<noteq> -1"
  shows "\<exists>more. scaling_rows mhz nominal sampler options max_workers workers rows m = Some (rows @ more) \<and>
    map (\<lambda>row. unat (fst row)) more = [unat workers..<unat workers + n] \<and>
    (0 < n \<longrightarrow> snd (hd more) = fst (scaling_report mhz nominal sampler options workers m))"
  using assms(1)
proof (induction n arbitrary: workers rows m)
  case 0
  then have "\<not> workers \<le> max_workers" by (simp add: word_le_nat_alt)
  then show ?case by (simp add: scaling_rows.simps)
next
  case (Suc n)
  obtain report m' where r: "scaling_report mhz nominal sampler options workers m = (report, m')" by fastforce
  have le: "workers \<le> max_workers" using Suc.prems by (simp add: word_le_nat_alt)
  have "workers \<noteq> -1" using le assms(2) by (metis word_order.extremum_unique)
  then have w: "unat (workers + 1) = unat workers + 1" by (metis add.commute plus_1_eq_Suc unatSuc add_eq_0_iff2 minus_unique add.inverse_inverse)
  have "unat max_workers + 1 = unat (workers + 1) + n" using Suc.prems w by simp
  from Suc.IH [OF this, of "rows @ [(workers, report)]" m'] obtain more where more:
    "scaling_rows mhz nominal sampler options max_workers (workers + 1) (rows @ [(workers, report)]) m' =
       Some (rows @ (workers, report) # more)"
    "map (\<lambda>row. unat (fst row)) more = [unat workers + 1..<unat workers + 1 + n]" by (auto simp: w)
  have "scaling_rows mhz nominal sampler options max_workers workers rows m = Some (rows @ (workers, report) # more)"
    using le more(1) by (subst scaling_rows.simps) (simp add: r)
  moreover have "[unat workers..<unat workers + Suc n] = unat workers # [unat workers + 1..<unat workers + 1 + n]"
    by (simp add: upt_conv_Cons)
  ultimately show ?case using more(2) by (intro exI [of _ "(workers, report) # more"]) (simp add: r)
qed

text \<open>A loop up to the largest 32-bit number never ends: the counter wraps around.\<close>

lemma scaling_rows_stop:
  assumes "scaling_rows mhz nominal sampler options max_workers workers rows m = Some out"
  shows "max_workers \<noteq> -1"
proof (rule scaling_rows.raw_induct [where P = "\<lambda>_ _ _ _ max_workers _ _ _ _. max_workers \<noteq> -1", OF _ assms])
  fix rec mhz nominal sampler options max_workers workers rows m out
  assume IH: "\<And>mhz nominal sampler options max_workers workers rows m out.
      rec mhz nominal sampler options max_workers workers rows m = Some out \<Longrightarrow> max_workers \<noteq> -1"
    and body: "(if workers \<le> max_workers
      then case scaling_report mhz nominal sampler options workers m of (report, m') \<Rightarrow>
             rec mhz nominal sampler options max_workers (workers + 1) (rows @ [(workers, report)]) m'
      else Some rows) = Some out"
  show "max_workers \<noteq> -1"
  proof (cases "workers \<le> max_workers")
    case True
    then show ?thesis using body IH by (simp split: prod.splits)
  next
    case False
    then show ?thesis by auto
  qed
qed

section \<open>The documents\<close>

definition granularity_row_json :: "u64 \<Rightarrow> granularity_row \<Rightarrow> json" where
  "granularity_row_json work_units row = JObject
     [(''task_count'', json_u64 (gr_task_count row)), (''units_per_task'', json_u64 (work_units div gr_task_count row)),
      (''legs'', JArray (map (\<lambda>leg. leg_json leg False) (rr_legs (gr_report row)))),
      (''inline_executions_standard'', json_u64 (gr_inline_standard row)),
      (''inline_executions_thunderbolt'', json_u64 (gr_inline_thunderbolt row))]"

definition fit_members :: "string \<Rightarrow> string \<Rightarrow> LinearFit \<Rightarrow> (string \<times> json) list" where
  "fit_members key r_squared_key fit =
     (if fit_valid fit then [(key, json_double (f64_mul (fit_slope fit) (f64_of_int (10 ^ 9)))), (r_squared_key, json_double (fit_r_squared fit))]
      else [])"

definition granularity_members ::
  "u64 \<Rightarrow> string option \<Rightarrow> u32 \<Rightarrow> ExperimentOptions \<Rightarrow> Environment \<Rightarrow> float64 \<Rightarrow> granularity_row list \<Rightarrow> (string \<times> json) list" where
  "granularity_members task_bytes taskflow workers options env serial_seconds rows =
     result_members ''granularity'' env (gr_report (hd rows)) @
     [(''workers'', json_u64 (ucast workers)), (''work_units'', json_u64 (eo_work_units options)),
      (''submission_mode'', JString (if eo_submission options = ForkJoin then ''fork-join'' else ''external'')),
      (''task_bytes'', json_u64 task_bytes), (''task_slab_bytes'', json_u64 (task_bytes * 262144)),
      (''reference_runtime'', JString (case taskflow of Some v \<Rightarrow> v | None \<Rightarrow> ''none'')),
      (''serial_baseline'', JObject
         [(''t1_seconds'', json_double serial_seconds), (''cpu_bound_gate_passed'', JBool (f64_less (f64_lit 1 1000) serial_seconds)),
          (''gate_note'', JString gate_note)]),
      (''rows'', JArray (map (granularity_row_json (eo_work_units options)) rows)),
      (''analysis'', JObject
         [(''per_task_overhead_ns'', JObject (fit_members ''standard'' ''standard_r_squared'' (leg_fit workers rows 0) @
             fit_members ''thunderbolt'' ''thunderbolt_r_squared'' (leg_fit workers rows 1))),
          (''method'', JString method_note)])]"

definition scaling_row_json :: "CpuTopology \<Rightarrow> float64 \<Rightarrow> float64 \<Rightarrow> u32 \<times> RunReport \<Rightarrow> json" where
  "scaling_row_json topology standard_serial thunderbolt_serial row = JObject
     [(''workers'', json_u64 (ucast (fst row))), (''uses_smt_siblings'', JBool (in_smt_domain topology (fst row))),
      (''speedup_standard'', json_double (row_speedup standard_serial (snd row) 0)),
      (''speedup_thunderbolt'', json_double (row_speedup thunderbolt_serial (snd row) 1)),
      (''legs'', JArray (map (\<lambda>leg. leg_json leg False) (rr_legs (snd row))))]"

definition scaling_members :: "CpuTopology \<Rightarrow> ExperimentOptions \<Rightarrow> Environment \<Rightarrow> (u32 \<times> RunReport) list \<Rightarrow> (string \<times> json) list" where
  "scaling_members topology options env rows =
     result_members ''scaling'' env (snd (hd rows)) @
     [(''task_count'', json_u64 kTaskCount), (''work_units'', json_u64 (eo_work_units options)),
      (''rows'', JArray (map (scaling_row_json topology (leg_median (snd (hd rows)) 0) (leg_median (snd (hd rows)) 1)) rows))]"

lemma write_granularity_row_json: "write_granularity_row units row w = write_element (granularity_row_json units row) w"
  by (simp add: write_granularity_row_def granularity_row_json_def Let_def write_legs_json field_defs del: put_put)

lemma write_granularity_rows_json:
  "fold (write_granularity_row units) rows w = write_elements (map (granularity_row_json units) rows) w"
  by (induction rows arbitrary: w) (simp_all add: write_granularity_row_json)

lemma write_fit_json: "write_fit key rkey fit w = write_members (fit_members key rkey fit) w"
  by (simp add: write_fit_def fit_members_def field_defs del: put_put)

lemma granularity_document_json:
  "granularity_document task_bytes taskflow workers options env t1 rows =
     write_element (JObject (granularity_members task_bytes taskflow workers options env t1 rows)) json_writer_new"
  by (simp add: granularity_document_def granularity_members_def Let_def begin_result_json write_members_append
      write_granularity_rows_json write_fit_json field_defs del: put_put)

lemma write_scaling_row_json:
  "write_scaling_row topology s t row w = write_element (scaling_row_json topology s t row) w"
  by (simp add: write_scaling_row_def scaling_row_json_def Let_def split_beta write_legs_json field_defs del: put_put)

lemma write_scaling_rows_json:
  "fold (write_scaling_row topology s t) rows w = write_elements (map (scaling_row_json topology s t) rows) w"
  by (induction rows arbitrary: w) (simp_all add: write_scaling_row_json)

lemma scaling_document_json:
  "scaling_document topology options env rows =
     write_element (JObject (scaling_members topology options env rows)) json_writer_new"
  by (simp add: scaling_document_def scaling_members_def Let_def begin_result_json write_members_append
      write_scaling_rows_json field_defs del: put_put)

section \<open>The documents can be written\<close>

lemma speedup_finite:
  "f64_finite (f64_div serial (leg_median report i)) \<Longrightarrow> f64_finite (row_speedup serial report i)"
proof -
  have "f64_finite 0" by code_simp
  then show "f64_finite (f64_div serial (leg_median report i)) \<Longrightarrow> ?thesis" by (simp add: row_speedup_def)
qed

definition fit_finite :: "LinearFit \<Rightarrow> bool" where
  "fit_finite fit \<longleftrightarrow> \<not> fit_valid fit \<or> (f64_finite (f64_mul (fit_slope fit) (f64_of_int (10 ^ 9))) \<and> f64_finite (fit_r_squared fit))"

lemma fit_members_ok: "fit_finite fit \<Longrightarrow> list_all (\<lambda>(key, v). json_ok v) (fit_members key rkey fit)"
  by (auto simp: fit_finite_def fit_members_def json_double_def)

lemma granularity_row_ok: "report_finite (gr_report row) \<Longrightarrow> element_ok (granularity_row_json units row)"
  using legs_ok by (simp add: granularity_row_json_def json_u64_def)

lemma granularity_ok:
  assumes "rows \<noteq> []" "list_all (\<lambda>row. report_finite (gr_report row)) rows" "f64_finite t1"
    "fit_finite (leg_fit workers rows 0)" "fit_finite (leg_fit workers rows 1)"
  shows "json_ok (JObject (granularity_members task_bytes taskflow workers options env t1 rows))"
proof -
  have "report_finite (gr_report (hd rows))" using assms(1,2) by (cases rows) simp_all
  moreover have "list_all element_ok (map (granularity_row_json (eo_work_units options)) rows)"
    using assms(2) granularity_row_ok by (auto simp: list_all_iff)
  ultimately show ?thesis using assms(3-5) result_ok fit_members_ok
    by (simp add: granularity_members_def json_number_defs del: list.map)
qed

lemma scaling_row_ok:
  "report_finite (snd row) \<Longrightarrow> f64_finite (row_speedup standard_serial (snd row) 0) \<Longrightarrow>
   f64_finite (row_speedup thunderbolt_serial (snd row) 1) \<Longrightarrow>
   element_ok (scaling_row_json topology standard_serial thunderbolt_serial row)"
  using legs_ok by (simp add: scaling_row_json_def json_number_defs)

text \<open>The numbers of a scaling row, the speedups among them, are finite.\<close>

definition scaling_row_finite :: "float64 \<Rightarrow> float64 \<Rightarrow> u32 \<times> RunReport \<Rightarrow> bool" where
  "scaling_row_finite standard_serial thunderbolt_serial row \<longleftrightarrow>
     report_finite (snd row) \<and> f64_finite (row_speedup standard_serial (snd row) 0) \<and>
     f64_finite (row_speedup thunderbolt_serial (snd row) 1)"

lemma scaling_ok:
  assumes "rows \<noteq> []" "list_all (scaling_row_finite (leg_median (snd (hd rows)) 0) (leg_median (snd (hd rows)) 1)) rows"
  shows "json_ok (JObject (scaling_members topology options env rows))"
proof -
  have "report_finite (snd (hd rows))" using assms by (cases rows) (simp_all add: scaling_row_finite_def)
  moreover have "list_all element_ok (map (scaling_row_json topology (leg_median (snd (hd rows)) 0) (leg_median (snd (hd rows)) 1)) rows)"
    using assms(2) scaling_row_ok by (auto simp: list_all_iff scaling_row_finite_def)
  ultimately show ?thesis using result_ok by (simp add: scaling_members_def json_number_defs del: list.map)
qed

text \<open>
  A granularity run that writes its document exits with 0, and the document, when the measured numbers are finite,
  is JSON text with one row per task count of the sweep, each with every leg of the experiment and the inline counters.
\<close>

theorem granularity_recorded:
  assumes "run_granularity topology env mhz nominal serial sampler task_bytes taskflow can_write options m = (code, Some written)"
    and "measure_serial_baseline serial (eo_work_units options) m = (t1, m1)"
    and "granularity_rows mhz nominal sampler taskflow (experiment_workers topology options) options m1 = (rows, m2)"
    and "list_all (\<lambda>row. report_finite (gr_report row)) rows" "f64_finite t1"
    and "fit_finite (leg_fit (experiment_workers topology options) rows 0)"
      "fit_finite (leg_fit (experiment_workers topology options) rows 1)"
  shows "code = 0 \<and> map gr_task_count rows = kTaskCounts \<and>
    (\<exists>ms. parse_json written = Some (JObject ms) \<and>
      (''workers'', json_u64 (ucast (experiment_workers topology options))) \<in> set ms \<and>
      (''rows'', JArray (map (granularity_row_json (eo_work_units options)) rows)) \<in> set ms)"
proof -
  let ?w = "experiment_workers topology options"
  have counts: "map gr_task_count rows = kTaskCounts"
    using granularity_rows_counts [of mhz nominal sampler taskflow ?w options m1] by (simp add: assms(3))
  then have ne: "rows \<noteq> []" by (auto simp: kTaskCounts_def)
  have written: "code = 0" "written = jw_out (granularity_document task_bytes taskflow ?w options env t1 rows) @ [CHR 0x0A]"
    using assms(1) by (simp_all add: run_granularity_def assms(2,3) written_document_def Let_def split: if_splits)
  have "parse_json written = Some (JObject (granularity_members task_bytes taskflow ?w options env t1 rows))"
    unfolding written(2) granularity_document_json by (rule json_roundtrip_line [OF granularity_ok [OF ne assms(4-7)]])
  then show ?thesis using counts written(1) by (auto simp: granularity_members_def)
qed

text \<open>The worker counts of the scaling experiment start at 1, so there is at least one.\<close>

lemma experiment_workers_pos: "experiment_workers topology options \<noteq> 0"
  by (auto simp: experiment_workers_def)

lemma scaling_run:
  assumes "experiment_workers topology options \<noteq> -1"
  obtains rows where "scaling_rows mhz nominal sampler options (experiment_workers topology options) 1 [] m = Some rows"
    "map (\<lambda>row. unat (fst row)) rows = [1..<unat (experiment_workers topology options) + 1]" "rows \<noteq> []"
    "snd (hd rows) = fst (scaling_report mhz nominal sampler options 1 m)"
proof -
  let ?n = "unat (experiment_workers topology options)"
  have "0 < ?n" using experiment_workers_pos by (simp add: unat_gt_0)
  moreover obtain rows where "scaling_rows mhz nominal sampler options (experiment_workers topology options) 1 [] m = Some rows"
    "map (\<lambda>row. unat (fst row)) rows = [1..<1 + ?n]" "0 < ?n \<longrightarrow> snd (hd rows) = fst (scaling_report mhz nominal sampler options 1 m)"
    using scaling_rows_run [of "experiment_workers topology options" 1 ?n mhz nominal sampler options "[]" m] assms by auto
  ultimately show thesis by (intro that [of rows]) auto
qed

text \<open>
  C40. The scaling experiment ends exactly when the number of workers is not the largest 32-bit number, at which its
  loop counter wraps around; and then it has measured one row for every worker count from 1 to that number, in order.
\<close>

theorem scaling_sweep_ends:
  "(run_scaling topology env mhz nominal sampler can_write options m = None \<longleftrightarrow> experiment_workers topology options = -1) \<and>
   (\<forall>rows. scaling_rows mhz nominal sampler options (experiment_workers topology options) 1 [] m = Some rows \<longrightarrow>
      map (\<lambda>row. unat (fst row)) rows = [1..<unat (experiment_workers topology options) + 1])"
proof (cases "experiment_workers topology options = -1")
  case True
  then have "scaling_rows mhz nominal sampler options (experiment_workers topology options) 1 [] m = None"
    using scaling_rows_stop by (metis option.exhaust)
  then show ?thesis by (simp add: run_scaling_def True)
next
  case False
  then obtain rows where rows: "scaling_rows mhz nominal sampler options (experiment_workers topology options) 1 [] m = Some rows"
    "map (\<lambda>row. unat (fst row)) rows = [1..<unat (experiment_workers topology options) + 1]"
    by (rule scaling_run)
  show ?thesis unfolding run_scaling_def rows(1) using False rows(2) by simp
qed

text \<open>
  The document of a scaling run, when its numbers are finite, is JSON text with one row per worker count, which says
  for every row whether its workers share physical cores and what its speedup over the row with one worker is.
\<close>

theorem scaling_recorded:
  assumes "run_scaling topology env mhz nominal sampler can_write options m = Some (code, Some written)"
    and "scaling_rows mhz nominal sampler options (experiment_workers topology options) 1 [] m = Some rows"
    and "serial = fst (scaling_report mhz nominal sampler options 1 m)"
    and "list_all (scaling_row_finite (leg_median serial 0) (leg_median serial 1)) rows"
  shows "code = 0 \<and> (\<exists>ms. parse_json written = Some (JObject ms) \<and>
      (''rows'', JArray (map (scaling_row_json topology (leg_median serial 0) (leg_median serial 1)) rows)) \<in> set ms)"
proof -
  have "experiment_workers topology options \<noteq> -1" using scaling_rows_stop [OF assms(2)] .
  then obtain "rows \<noteq> []" "snd (hd rows) = serial"
    by (rule scaling_run [of topology options mhz nominal sampler m]) (use assms(2,3) in simp)
  note first = this
  have written: "code = 0" "written = jw_out (scaling_document topology options env rows) @ [CHR 0x0A]"
    using assms(1,2) by (auto simp: run_scaling_def written_document_def split: if_splits)
  have "parse_json written = Some (JObject (scaling_members topology options env rows))"
    unfolding written(2) scaling_document_json
    by (rule json_roundtrip_line [OF scaling_ok [OF first(1)]]) (use assms(4) in \<open>simp add: first(2)\<close>)
  then show ?thesis using written(1) by (auto simp: scaling_members_def first(2))
qed

lemma granularity_rows_each:
  "row \<in> set (fst (granularity_rows mhz nominal sampler taskflow workers options m)) \<Longrightarrow>
     \<exists>n m'. row = fst (granularity_row_of mhz nominal sampler taskflow workers options n m')"
proof -
  let ?step = "\<lambda>task_count (rows, m). case granularity_row_of mhz nominal sampler taskflow workers options task_count m of
             (row, m') \<Rightarrow> (rows @ [row], m')"
  have "row \<in> set (fst (fold ?step ts (rows, m))) \<Longrightarrow>
      row \<in> set rows \<or> (\<exists>n m'. row = fst (granularity_row_of mhz nominal sampler taskflow workers options n m'))" for ts rows m
  proof (induction ts arbitrary: rows m)
    case (Cons t ts)
    obtain row' m' where r: "granularity_row_of mhz nominal sampler taskflow workers options t m = (row', m')" by fastforce
    have "\<exists>n m'. row' = fst (granularity_row_of mhz nominal sampler taskflow workers options n m')" using r by (metis fst_conv)
    then show ?case using Cons.IH [of "rows @ [row']" m'] Cons.prems by (auto simp: r)
  qed simp
  then show "row \<in> set (fst (granularity_rows mhz nominal sampler taskflow workers options m)) \<Longrightarrow> ?thesis"
    by (fastforce simp: granularity_rows_def)
qed

section \<open>Runs without repetitions\<close>

text \<open>The smallest runs, for the examples: no repetition is measured, so every summary is empty.\<close>

lemma empty_run:
  assumes "ro_warmup options = 0" "ro_repetitions options = 0" "f64_finite (ro_throttle_fraction options)"
  shows "report_finite (fst (run_interleaved mhz 0 legs options e))" "snd (run_interleaved mhz 0 legs options e) = e"
    "i < length legs \<Longrightarrow> leg_median (fst (run_interleaved mhz 0 legs options e)) i = 0"
proof -
  let ?ls = "map (\<lambda>leg. leg_result_new (leg_name leg)) legs"
  have r: "run_rounds mhz legs options e = (?ls, initial_order (ro_leg_order options) (length legs), mt_seed (ro_order_seed options), e)"
    by (simp add: run_rounds_def assms)
  have m: "median_clock ?ls = 0"
    by (simp add: median_clock_def observed_clocks_def leg_result_new_def)
  have z: "f64_finite 0" by code_simp
  have l: "lr_timing (summarise_leg e leg (flag_leg f (leg_result_new name))) = summary_new"
    "leg_finite (summarise_leg e leg (flag_leg f (leg_result_new name)))" for f name and leg :: "'a Leg"
    using z by (simp_all add: summarise_leg_def flag_leg_def leg_result_new_def summarize_def leg_finite_def summary_finite_def
        summary_new_def Let_def)
  show "snd (run_interleaved mhz 0 legs options e) = e" by (simp add: run_interleaved_def r Let_def)
  have "list_all leg_finite (rr_legs (fst (run_interleaved mhz 0 legs options e)))"
    by (auto simp: run_interleaved_def r Let_def list_all_iff l dest!: set_zip_rightD)
  then show "report_finite (fst (run_interleaved mhz 0 legs options e))"
    using assms(3) z by (simp add: report_finite_def run_interleaved_def r Let_def m)
  show "i < length legs \<Longrightarrow> leg_median (fst (run_interleaved mhz 0 legs options e)) i = 0"
    by (simp add: leg_median_def run_interleaved_def r Let_def l) (simp add: summary_new_def)
qed

lemma fold_fixed: "(\<And>x. f x b = b) \<Longrightarrow> fold f xs b = b"
  by (induction xs) simp_all

lemma scaling_rows_one:
  "scaling_rows mhz nominal sampler options 1 1 [] m = Some [(1, fst (scaling_report mhz nominal sampler options 1 m))]"
proof -
  obtain report m' where r: "scaling_report mhz nominal sampler options 1 m = (report, m')" by fastforce
  have "scaling_rows mhz nominal sampler options 1 2 rows m' = Some rows" for rows by (subst scaling_rows.simps) (simp add: word_le_def)
  then show ?thesis by (subst scaling_rows.simps) (simp add: r)
qed

definition example_options :: ExperimentOptions where
  "example_options = experiment_options_new\<lparr>eo_output_path := ''out.json'',
     eo_run := run_options_new\<lparr>ro_warmup := 0, ro_repetitions := 0\<rparr>\<rparr>"

lemma example_protocol:
  "ro_warmup (eo_run example_options) = 0" "ro_repetitions (eo_run example_options) = 0"
  "f64_finite (ro_throttle_fraction (eo_run example_options))" "eo_output_path example_options \<noteq> []" "eo_workers example_options = 0"
proof -
  have "f64_finite (f64_lit 92 100)" by code_simp
  then show "f64_finite (ro_throttle_fraction (eo_run example_options))" by (simp add: example_options_def run_options_new_def)
qed (simp_all add: example_options_def experiment_options_new_def)

theorem scaling_recorded_witness:
  "\<exists>written ms. run_scaling (topology_new\<lparr>logical_processor_count := 1\<rparr>) environment_new (\<lambda>m. (0, m)) 0
     (\<lambda>plan workload m. (\<lparr>sn_seconds = 0, sn_inline_executions = 0, sn_pool_acquires = 0, sn_pool_contended = 0\<rparr>, m)) True
     example_options () = Some (0, Some written) \<and> parse_json written = Some (JObject ms)"
proof -
  let ?t = "topology_new\<lparr>logical_processor_count := 1\<rparr>" and ?mhz = "\<lambda>m :: unit. (0 :: float64, m)"
  let ?s = "\<lambda>(plan :: sample_plan) (workload :: ChunkedWorkload) (m :: unit).
    (\<lparr>sn_seconds = 0, sn_inline_executions = 0, sn_pool_acquires = 0, sn_pool_contended = 0\<rparr> :: sample_answer, m)"
  let ?report = "fst (scaling_report ?mhz 0 ?s example_options 1 ())"
  have w: "experiment_workers ?t example_options = 1" by (simp add: experiment_workers_def example_protocol topology_new_def)
  have rows: "scaling_rows ?mhz 0 ?s example_options (experiment_workers ?t example_options) 1 [] () = Some [(1, ?report)]"
    unfolding w by (rule scaling_rows_one)
  then obtain written where run: "run_scaling ?t environment_new ?mhz 0 ?s True example_options () = Some (0, Some written)"
    by (simp add: run_scaling_def written_document_def example_protocol)
  have "f64_finite 0" "\<not> f64_less 0 0" by code_simp+
  then have "list_all (scaling_row_finite (leg_median ?report 0) (leg_median ?report 1)) [(1, ?report)]"
    by (simp add: scaling_row_finite_def scaling_report_def Let_def row_speedup_def empty_run [OF example_protocol(1-3)])
  from scaling_recorded [OF run rows refl this] show ?thesis using run by blast
qed

theorem granularity_recorded_witness:
  "\<exists>written ms. run_granularity (topology_new\<lparr>logical_processor_count := 10000\<rparr>) environment_new (\<lambda>m. (0, m)) 0
     (\<lambda>workload m. (0, m))
     (\<lambda>plan workload m. (\<lparr>sn_seconds = 0, sn_inline_executions = 0, sn_pool_acquires = 0, sn_pool_contended = 0\<rparr>, m)) 256 None True
     example_options () = (0, Some written) \<and> parse_json written = Some (JObject ms)"
proof -
  let ?t = "topology_new\<lparr>logical_processor_count := 10000\<rparr>" and ?mhz = "\<lambda>m :: unit. (0 :: float64, m)"
  let ?serial = "\<lambda>(workload :: ChunkedWorkload) (m :: unit). (0 :: float64, m)"
  let ?s = "\<lambda>(plan :: sample_plan) (workload :: ChunkedWorkload) (m :: unit).
    (\<lparr>sn_seconds = 0, sn_inline_executions = 0, sn_pool_acquires = 0, sn_pool_contended = 0\<rparr> :: sample_answer, m)"
  let ?w = "experiment_workers ?t example_options"
  have w: "?w = 10000" by (simp add: experiment_workers_def example_protocol topology_new_def)
  define rows where "rows = fst (granularity_rows ?mhz 0 ?s None ?w example_options ())"
  then have rows: "granularity_rows ?mhz 0 ?s None ?w example_options () = (rows, ())" by (simp only: prod_eq_iff) simp
  have "f64_finite 0" "\<not> f64_less 0 0" by code_simp+
  then have t1: "measure_serial_baseline ?serial (eo_work_units example_options) () = (0, ())"
    unfolding measure_serial_baseline_def by (intro fold_fixed) simp
  obtain written where run: "run_granularity ?t environment_new ?mhz 0 ?serial ?s 256 None True example_options () = (0, Some written)"
    using rows by (simp add: run_granularity_def t1 written_document_def example_protocol)
  have "report_finite (gr_report (fst (granularity_row_of ?mhz 0 ?s None ?w example_options n ())))" for n
    by (simp add: granularity_row_of_def split_beta empty_run(1) [OF example_protocol(1-3)])
  then have fin: "list_all (\<lambda>row. report_finite (gr_report row)) rows"
    using granularity_rows_each [of _ ?mhz 0 ?s None ?w example_options "()"] unfolding rows by (fastforce simp: list_all_iff)
  have "map gr_task_count rows = kTaskCounts"
    using granularity_rows_counts [of ?mhz 0 ?s None ?w example_options "()"] by (simp only: rows fst_conv)
  then have "gr_task_count row \<in> set kTaskCounts" if "row \<in> set rows" for row using that by (metis in_set_conv_nth length_map nth_map nth_mem)
  moreover have "list_all (\<lambda>n. \<not> ucast (10000 :: u32) * 8 \<le> n) kTaskCounts" by code_simp
  ultimately have "fitted_rows ?w rows = []" unfolding w by (auto simp: fitted_rows_def list_all_iff filter_empty_conv)
  then have fits: "fit_finite (leg_fit ?w rows 0)" "fit_finite (leg_fit ?w rows 1)"
    by (simp_all add: leg_fit_def fit_linear_def fit_finite_def fit_new_def)
  from granularity_recorded [OF run t1 rows fin _ fits] show ?thesis using run \<open>f64_finite 0\<close> by blast
qed

theorem scaling_sweep_ends_witness:
  "run_scaling topology_new environment_new (\<lambda>m. (0, m)) 0
     (\<lambda>plan workload m. (\<lparr>sn_seconds = 0, sn_inline_executions = 0, sn_pool_acquires = 0, sn_pool_contended = 0\<rparr>, m)) True
     (example_options\<lparr>eo_workers := -1\<rparr>) () = None \<and>
   run_scaling topology_new environment_new (\<lambda>m. (0, m)) 0
     (\<lambda>plan workload m. (\<lparr>sn_seconds = 0, sn_inline_executions = 0, sn_pool_acquires = 0, sn_pool_contended = 0\<rparr>, m)) True
     (example_options\<lparr>eo_workers := 2\<rparr>) () \<noteq> None"
proof -
  have "experiment_workers topology_new (example_options\<lparr>eo_workers := -1\<rparr>) = -1"
    "experiment_workers topology_new (example_options\<lparr>eo_workers := 2\<rparr>) \<noteq> -1"
    by (simp_all add: experiment_workers_def)
  then show ?thesis by (simp only: scaling_sweep_ends [THEN conjunct1]) simp
qed

end
