(* ===== verification/Game_Taskflow.thy ===== *)
theory Game_Taskflow
  imports Engine_Determinism
begin

text \<open>
  \<open>game_benchmarks/TaskflowSim.cpp\<close>: the frame as a Taskflow graph. Taskflow promises that \<open>for_each_index\<close> runs
  its body once for every index and that waiting returns after all of them; which worker runs which index when is an
  argument, a sequence of turns. The graph has every batch of every chain ready from the start, so its state is the
  state of a frame whose batches have all been claimed.
\<close>

definition flow_start :: "WorldState \<Rightarrow> WorldState \<Rightarrow> frame_state" where
  "flow_start inn out =
     \<lparr>fr_cursor = (\<lambda>c. batch_count_for (chain_size c inn)),
      fr_program = (\<lambda>c b. if b < batch_count_for (chain_size c inn) then batch_program c (chain_size c inn) b else []),
      fr_left = {}, fr_out = out\<rparr>"

text \<open>One turn of batch \<open>b\<close> of chain \<open>c\<close>: its next entity.\<close>

definition flow_step :: "libm \<Rightarrow> WorldState \<Rightarrow> chain \<times> nat \<Rightarrow> frame_state \<Rightarrow> frame_state" where
  "flow_step lm inn cb f =
     (case cb of (c, b) \<Rightarrow>
        case fr_program f c b of
          [] \<Rightarrow> f
        | s # rest \<Rightarrow>
            f\<lparr>fr_out := run_stage lm inn s (fr_out f), fr_program := (fr_program f)(c := (fr_program f c)(b := rest))\<rparr>)"

definition tick_with_taskflow :: "libm \<Rightarrow> (chain \<times> nat) list \<Rightarrow> Simulation \<Rightarrow> Simulation option" where
  "tick_with_taskflow lm schedule sim =
     (let inn = w_current (sim_world sim);
          f = fold (flow_step lm inn) schedule (flow_start inn (prepared_next sim))
      in if list_all (\<lambda>c. list_all (\<lambda>b. fr_program f c b = []) [0..<batch_count_for (chain_size c inn)])
           [VehicleChain, NpcChain, AircraftChain]
         then Some (finish_tick (sim\<lparr>sim_world := set_next (fr_out f) (sim_world sim)\<rparr>))
         else None)"

fun run_flows :: "libm \<Rightarrow> (chain \<times> nat) list list \<Rightarrow> Simulation \<Rightarrow> Simulation option" where
  "run_flows lm [] sim = Some sim"
| "run_flows lm (schedule # schedules) sim = Option.bind (tick_with_taskflow lm schedule sim) (run_flows lm schedules)"

section \<open>The graph computes the serial frame\<close>

lemma flow_start_inv: "frame_inv lm inn out [] (flow_start inn out)"
proof -
  have "entity_inv inn [] (flow_start inn out) c i" for c i
    using batch_in_range [of i "chain_size c inn"]
    by (auto simp: entity_inv_def flow_start_def steps_at_batch intro!: exI [of _ "i div kBatchSize"])
  then show ?thesis using program_chain by (auto simp: frame_inv_def flow_start_def split: if_splits)
qed

lemma flow_run_inv:
  "frame_inv lm inn out tr f \<Longrightarrow> \<exists>tr'. frame_inv lm inn out tr' (fold (flow_step lm inn) cbs f)"
proof (induction cbs arbitrary: f tr)
  case (Cons cb cbs)
  obtain c b where cb: "cb = (c, b)" by fastforce
  have "\<exists>tr'. frame_inv lm inn out tr' (flow_step lm inn cb f)"
  proof (cases "fr_program f c b")
    case Nil
    then show ?thesis using Cons.prems by (auto simp: flow_step_def cb)
  next
    case (Cons s rest)
    then show ?thesis using run_step_inv [OF \<open>frame_inv lm inn out tr f\<close> Cons refl] by (auto simp: flow_step_def cb)
  qed
  then show ?case using Cons.IH by auto
qed auto

lemma flow_frame:
  "fr_cursor (fold (flow_step lm inn) cbs f) = fr_cursor f"
  "fr_program f c b = [] \<Longrightarrow> fr_program (fold (flow_step lm inn) cbs f) c b = []"
proof -
  have cur: "fr_cursor (flow_step lm inn cb f) = fr_cursor f" for cb f
    by (auto simp: flow_step_def split: prod.splits list.splits)
  show "fr_cursor (fold (flow_step lm inn) cbs f) = fr_cursor f" by (induction cbs arbitrary: f) (simp_all add: cur)
  have "fr_program f c b = [] \<Longrightarrow> fr_program (flow_step lm inn cb f) c b = []" for cb f
    by (auto simp: flow_step_def split: prod.splits list.splits)
  then show "fr_program f c b = [] \<Longrightarrow> fr_program (fold (flow_step lm inn) cbs f) c b = []"
    by (induction cbs arbitrary: f) simp_all
qed

lemma flow_is_serial:
  assumes "tick_with_taskflow lm schedule sim = Some sim'"
  shows "sim' = tick_serial lm sim"
proof -
  let ?inn = "w_current (sim_world sim)"
  let ?f = "fold (flow_step lm ?inn) schedule (flow_start ?inn (prepared_next sim))"
  obtain tr where tr: "frame_inv lm ?inn (prepared_next sim) tr ?f" using flow_run_inv [OF flow_start_inv] by blast
  have all: "list_all (\<lambda>c. list_all (\<lambda>b. fr_program ?f c b = []) [0..<batch_count_for (chain_size c ?inn)])
      [VehicleChain, NpcChain, AircraftChain]"
    and s: "sim' = finish_tick (sim\<lparr>sim_world := set_next (fr_out ?f) (sim_world sim)\<rparr>)"
    using assms by (auto simp: tick_with_taskflow_def Let_def split: if_splits)
  have empty: "fr_program ?f c b = []" for c b
  proof (cases "b < batch_count_for (chain_size c ?inn)")
    case True
    then show ?thesis using all by (cases c) (simp_all add: list_all_iff)
  next
    case False
    then show ?thesis by (intro flow_frame(2)) (simp add: flow_start_def)
  qed
  have "fold (run_stage lm ?inn) tr (prepared_next sim) = fold (run_stage lm ?inn) (serial_steps ?inn) (prepared_next sim)"
  proof (rule frame.fold_same_order)
    fix k :: "chain \<times> nat"
    obtain c i where k: "k = (c, i)" by (cases k)
    have "entity_inv ?inn tr ?f c i" using tr by (simp add: frame_inv_def)
    moreover have "fr_cursor ?f c = batch_count_for (chain_size c ?inn)" by (simp add: flow_frame flow_start_def)
    ultimately show "filter (\<lambda>s. step_key s = k) tr = filter (\<lambda>s. step_key s = k) (serial_steps ?inn)"
      using batch_in_range [of i "chain_size c ?inn"] unfolding k steps_at_serial by (auto simp: entity_inv_def empty)
  qed
  moreover have "fr_out ?f = fold (run_stage lm ?inn) tr (prepared_next sim)" using tr by (simp add: frame_inv_def)
  ultimately show ?thesis unfolding s by (simp add: tick_serial_steps)
qed

lemma flows_are_serial: "run_flows lm schedules sim = Some sim' \<Longrightarrow> sim' = (tick_serial lm ^^ length schedules) sim"
proof (induction schedules arbitrary: sim)
  case (Cons schedule schedules)
  obtain s1 where s1: "tick_with_taskflow lm schedule sim = Some s1" "run_flows lm schedules s1 = Some sim'"
    using Cons.prems by (auto split: bind_splits)
  show ?case using Cons.IH [OF s1(2)] flow_is_serial [OF s1(1)] by (simp only: length_Cons funpow_Suc_right o_apply)
qed simp

section \<open>The graph finishes\<close>

text \<open>A batch has at most 128 steps (32 entities, four stages).\<close>

lemma flow_progress: "fr_program (fold (flow_step lm inn) cbs f) c b = drop (count_list cbs (c, b)) (fr_program f c b)"
proof (induction cbs arbitrary: f)
  case (Cons cb cbs)
  have "fr_program (flow_step lm inn cb f) c b = (if cb = (c, b) then drop 1 (fr_program f c b) else fr_program f c b)"
    by (auto simp: flow_step_def split: prod.splits list.splits)
  then show ?case using Cons by simp
qed simp

definition fair_flow :: "SceneSpec \<Rightarrow> (chain \<times> nat) list \<Rightarrow> bool" where
  "fair_flow scene schedule \<longleftrightarrow> (\<forall>c b. b < batch_count_for (scene_count scene c) \<longrightarrow> 128 \<le> count_list schedule (c, b))"

lemma flow_returns: "sized scene sim \<Longrightarrow> fair_flow scene schedule \<Longrightarrow> tick_with_taskflow lm schedule sim \<noteq> None"
proof -
  let ?inn = "w_current (sim_world sim)"
  assume s: "sized scene sim" "fair_flow scene schedule"
  have "fr_program (fold (flow_step lm ?inn) schedule (flow_start ?inn (prepared_next sim))) c b = []"
    if b: "b < batch_count_for (chain_size c ?inn)" for c b
  proof -
    have "128 \<le> count_list schedule (c, b)" using s b by (simp add: fair_flow_def sized_current)
    moreover have "length (batch_program c (chain_size c ?inn) b) \<le> 128" by (rule length_batch)
    ultimately show ?thesis using b by (simp add: flow_progress flow_start_def)
  qed
  then show "tick_with_taskflow lm schedule sim \<noteq> None" by (simp add: tick_with_taskflow_def Let_def list_all_iff)
qed

lemma run_flows_return:
  "sized scene sim \<Longrightarrow> (\<forall>schedule \<in> set schedules. fair_flow scene schedule) \<Longrightarrow> run_flows lm schedules sim \<noteq> None"
proof (induction schedules arbitrary: sim)
  case (Cons schedule schedules)
  have "tick_with_taskflow lm schedule sim \<noteq> None" using Cons.prems by (intro flow_returns) auto
  then obtain s1 where s1: "tick_with_taskflow lm schedule sim = Some s1" by blast
  have "sized scene s1" using tick_serial_sized [OF Cons.prems(1)] flow_is_serial [OF s1] by simp
  then show ?case using Cons by (simp add: s1)
qed simp

text \<open>
  The Taskflow graph computes the same simulation: however Taskflow interleaves its batches, a run of frames
  that returns leaves exactly the simulation the serial ticks leave, and it returns when every batch keeps running.
\<close>

theorem taskflow_deterministic:
  "(\<forall>sim. run_flows lm schedules (simulation_new scene seed) = Some sim \<longrightarrow>
      sim = (tick_serial lm ^^ length schedules) (simulation_new scene seed)) \<and>
   ((\<forall>schedule \<in> set schedules. fair_flow scene schedule) \<longrightarrow>
      run_flows lm schedules (simulation_new scene seed) \<noteq> None)"
  using flows_are_serial run_flows_return [OF simulation_new_sized] by auto

theorem taskflow_deterministic_witness:
  "run_flows \<lparr>l_sin = id, l_cos = id, l_pow = (\<lambda>x _. x)\<rparr> [concat (replicate 200 [(NpcChain, 0), (NpcChain, 1)])]
     (simulation_new \<lparr>scene_name = ''two batches'', scene_vehicles = 0, scene_npcs = 33, scene_aircraft = 0\<rparr> 42) =
   Some (tick_serial \<lparr>l_sin = id, l_cos = id, l_pow = (\<lambda>x _. x)\<rparr>
     (simulation_new \<lparr>scene_name = ''two batches'', scene_vehicles = 0, scene_npcs = 33, scene_aircraft = 0\<rparr> 42))"
proof -
  let ?scene = "\<lparr>scene_name = ''two batches'', scene_vehicles = 0, scene_npcs = 33, scene_aircraft = 0\<rparr>"
  let ?lm = "\<lparr>l_sin = id, l_cos = id, l_pow = (\<lambda>x _. x)\<rparr> :: libm"
  let ?schedules = "[concat (replicate 200 [(NpcChain, 0), (NpcChain, 1)])] :: (chain \<times> nat) list list"
  have "fair_flow ?scene (concat (replicate 200 [(NpcChain, 0), (NpcChain, 1)]))"
    unfolding fair_flow_def
  proof (intro allI)
    fix c b
    show "b < batch_count_for (scene_count ?scene c) \<longrightarrow> 128 \<le> count_list (concat (replicate 200 [(NpcChain, 0), (NpcChain, 1)])) (c, b)"
      by (cases c) (auto simp: batch_count_for_def kBatchSize_def count_list_concat_replicate less_2_cases_iff)
  qed
  then have fair: "\<forall>schedule \<in> set ?schedules. fair_flow ?scene schedule" by simp
  obtain sim where sim: "run_flows ?lm ?schedules (simulation_new ?scene 42) = Some sim"
    using taskflow_deterministic [of ?lm ?schedules ?scene 42] fair by blast
  then have "sim = (tick_serial ?lm ^^ length ?schedules) (simulation_new ?scene 42)"
    using taskflow_deterministic [of ?lm ?schedules ?scene 42] by blast
  then show ?thesis using sim by (simp only: list.size funpow_simps_right One_nat_def add_0 add_Suc_right id_apply o_apply funpow.simps)
qed

end
