(* ===== verification/Game_Benchmark.thy ===== *)
theory Game_Benchmark
  imports Game_Taskflow Bench_Report
begin

text \<open>
  \<open>game_benchmarks/SimBenchmark.cpp\<close>: the A/B benchmark of the simulation and the frame-time study. How long a run
  takes comes from the environment of \<open>Bench_Runner\<close>; how the tasks of the frames of a verification run are scheduled
  is an argument; printing is left out. The result is the exit code and the document written, if any.
\<close>

section \<open>Options and legs\<close>

record SimBenchmarkOptions =
  sb_scene :: SceneSpec
  sb_seed :: u64
  sb_ticks :: u64
  sb_workers :: u32
  sb_legs :: "string list"
  sb_repetitions :: int
  sb_warmup :: int
  sb_leg_order :: LegOrder
  sb_order_seed :: u64
  sb_output_path :: string
  sb_affinity :: AffinityMode

definition stage_bits :: "string \<Rightarrow> u32" where
  "stage_bits name =
     (if take 13 name \<noteq> ''thunderbolt_s'' then kOptNone
      else fold (\<lambda>c bits. if c = CHR ''2'' then bits OR kOptThreadCache
                           else if c = CHR ''3'' then bits OR kOptInPlaceSubmit else bits) (drop 13 name) kOptNone)"

definition resolve_workers :: "u32 \<Rightarrow> u32 \<Rightarrow> u32" where
  "resolve_workers logical requested =
     (if requested \<noteq> 0 then requested else if 0 < logical then logical else 1)"

text \<open>What a leg runs: the serial tick, the Taskflow graph, or a runtime with its configuration.\<close>

datatype leg_plan = SerialLeg | TaskflowLeg | StandardLeg RuntimeConfig | ThunderboltLeg RuntimeConfig

definition runtime_leg :: "string \<Rightarrow> RuntimeConfig \<Rightarrow> leg_plan" where
  "runtime_leg name config = (if name = ''standard'' then StandardLeg config else ThunderboltLeg config)"

definition base_config :: "u32 \<Rightarrow> RuntimeConfig" where
  "base_config workers = default_config\<lparr>worker_count := workers, task_capacity := 262144\<rparr>"

text \<open>The chain of tests on the name that \<open>make_leg\<close> and the verification share.\<close>

definition named_mode :: "string \<Rightarrow> RuntimeConfig \<Rightarrow> RuntimeConfig" where
  "named_mode name config =
     (if name = ''thunderbolt_static'' then config\<lparr>scheduler := Static\<rparr>
      else if name = ''thunderbolt_aging'' then config\<lparr>scheduler := PriorityAging\<rparr>
      else if name = ''thunderbolt_o1'' then config\<lparr>optimizations := kOptSkipEmptyDeques\<rparr>
      else if name = ''thunderbolt_o2'' then config\<lparr>optimizations := kOptSingleBarrierOnComplete\<rparr>
      else if name = ''thunderbolt_o12'' then config\<lparr>optimizations := kOptSkipEmptyDeques OR kOptSingleBarrierOnComplete\<rparr>
      else if take 13 name = ''thunderbolt_s'' then config\<lparr>optimizations := stage_bits name\<rparr>
      else config)"

definition make_leg_plan :: "bool \<Rightarrow> SimBenchmarkOptions \<Rightarrow> u32 \<Rightarrow> string \<Rightarrow> leg_plan" where
  "make_leg_plan have_taskflow options workers name =
     (if name = ''serial'' then SerialLeg
      else if have_taskflow \<and> name = ''taskflow'' then TaskflowLeg
      else
        (let config = named_mode name ((base_config workers)\<lparr>affinity := sb_affinity options\<rparr>)
         in runtime_leg name (if name = ''thunderbolt_pinned'' then config\<lparr>affinity := TopologyAware\<rparr> else config)))"

definition verify_plan :: "bool \<Rightarrow> u32 \<Rightarrow> string \<Rightarrow> leg_plan" where
  "verify_plan have_taskflow workers name =
     (if name = ''serial'' then SerialLeg
      else if have_taskflow \<and> name = ''taskflow'' then TaskflowLeg
      else runtime_leg name (named_mode name (base_config workers)))"

text \<open>
  The plan of the frame-time study. \<open>None\<close>: in a build without Taskflow the leg \<open>taskflow\<close> has no runtime, and the
  first tick goes through a null pointer.
\<close>

definition capture_plan :: "bool \<Rightarrow> SimBenchmarkOptions \<Rightarrow> u32 \<Rightarrow> string \<Rightarrow> leg_plan option" where
  "capture_plan have_taskflow options workers name =
     (let config = (base_config workers)\<lparr>affinity := sb_affinity options\<rparr>;
          config = (if name = ''thunderbolt_static'' then config\<lparr>scheduler := Static\<rparr>
                    else if name = ''thunderbolt_aging'' then config\<lparr>scheduler := PriorityAging\<rparr> else config)
      in if name = ''serial'' then Some SerialLeg
         else if name = ''taskflow'' then (if have_taskflow then Some TaskflowLeg else None)
         else Some (runtime_leg name config))"

text \<open>The ticks of a leg on a simulation, under the given schedules, one per tick.\<close>

fun run_plan :: "libm \<Rightarrow> leg_plan \<Rightarrow> (chain \<times> nat) list list \<Rightarrow> Simulation \<Rightarrow> Simulation option" where
  "run_plan lm SerialLeg schedules sim = Some ((tick_serial lm ^^ length schedules) sim)"
| "run_plan lm TaskflowLeg schedules sim = run_flows lm schedules sim"
| "run_plan lm (StandardLeg config) schedules sim = run_ticks lm (map (Pair (worker_count config)) schedules) sim"
| "run_plan lm (ThunderboltLeg config) schedules sim = run_ticks lm (map (Pair (worker_count config)) schedules) sim"

section \<open>The verification that all legs agree\<close>

record verify_state =
  vs_reference_hash :: u64
  vs_first :: bool
  vs_all_agree :: bool

definition check_hash :: "u64 \<Rightarrow> verify_state \<Rightarrow> verify_state" where
  "check_hash h st =
     (if vs_first st then st\<lparr>vs_reference_hash := h, vs_first := False\<rparr>
      else if h \<noteq> vs_reference_hash st then st\<lparr>vs_all_agree := False\<rparr> else st)"

fun verify_legs ::
  "libm \<Rightarrow> bool \<Rightarrow> SimBenchmarkOptions \<Rightarrow> u32 \<Rightarrow> (string \<Rightarrow> (chain \<times> nat) list list) \<Rightarrow> string list \<Rightarrow> verify_state \<Rightarrow>
   verify_state option" where
  "verify_legs lm have_taskflow options workers schedules [] st = Some st"
| "verify_legs lm have_taskflow options workers schedules (name # names) st =
     (case run_plan lm (verify_plan have_taskflow workers name) (schedules name)
             (simulation_new (sb_scene options) (sb_seed options)) of
        None \<Rightarrow> None
      | Some sim \<Rightarrow> verify_legs lm have_taskflow options workers schedules names (check_hash (state_hash sim) st))"

section \<open>The A/B benchmark\<close>

text \<open>\<open>seconds_of\<close>: the elapsed seconds of one timed run of a leg; here of three serial runs.\<close>

definition measure_serial_tick :: "(leg_plan \<Rightarrow> 'e \<Rightarrow> float64 \<times> 'e) \<Rightarrow> SimBenchmarkOptions \<Rightarrow> 'e \<Rightarrow> float64 \<times> 'e" where
  "measure_serial_tick seconds_of options e =
     (case fold (\<lambda>_ (best, e). case seconds_of SerialLeg e of (seconds, e') \<Rightarrow>
                   (if f64_abs best = 0 \<or> f64_less seconds best then seconds else best, e')) [0..<3] (0, e) of
        (best, e') \<Rightarrow> (f64_div best (f64_of_int (uint (sb_ticks options))), e'))"

definition make_leg :: "bool \<Rightarrow> (leg_plan \<Rightarrow> 'e \<Rightarrow> float64 \<times> 'e) \<Rightarrow> SimBenchmarkOptions \<Rightarrow> u32 \<Rightarrow> string \<Rightarrow> 'e Leg" where
  "make_leg have_taskflow seconds_of options workers name =
     \<lparr>leg_name = name, leg_run_once = seconds_of (make_leg_plan have_taskflow options workers name),
      leg_record_counters = None\<rparr>"

definition sim_run_options :: "SimBenchmarkOptions \<Rightarrow> RunOptions" where
  "sim_run_options options = run_options_new\<lparr>ro_repetitions := sb_repetitions options, ro_warmup := sb_warmup options,
     ro_leg_order := sb_leg_order options, ro_order_seed := sb_order_seed options\<rparr>"

definition simulation_document ::
  "SimBenchmarkOptions \<Rightarrow> u32 \<Rightarrow> Environment \<Rightarrow> float64 \<Rightarrow> bool \<Rightarrow> verify_state \<Rightarrow> RunReport \<Rightarrow> JsonWriter" where
  "simulation_document options workers env serial_tick_ms cpu_bound_enough st report =
     (let w1 = begin_result_document ''simulation'' env report json_writer_new;
          w2 = field_string ''scene'' (scene_name (sb_scene options)) w1;
          w3 = field_u64 ''vehicles'' (of_nat (scene_vehicles (sb_scene options))) w2;
          w4 = field_u64 ''npcs'' (of_nat (scene_npcs (sb_scene options))) w3;
          w5 = field_u64 ''aircraft'' (of_nat (scene_aircraft (sb_scene options))) w4;
          w6 = field_u64 ''seed'' (sb_seed options) w5;
          w7 = field_u64 ''ticks'' (sb_ticks options) w6;
          w8 = field_u64 ''workers'' (ucast workers) w7;
          w9 = field_double ''serial_tick_ms'' serial_tick_ms (begin_object_key ''workload_gate'' w8);
          w10 = end_object (field_bool ''cpu_bound_enough'' cpu_bound_enough w9);
          w11 = field_string ''state_hash'' (hash_to_string (vs_reference_hash st)) w10;
          w12 = field_bool ''all_legs_agree'' (vs_all_agree st) w11;
          w13 = fold (\<lambda>leg. write_leg leg True) (rr_legs report) (begin_array ''legs'' w12)
      in end_object (end_array w13))"

text \<open>\<open>None\<close>: a leg of the verification does not return. \<open>can_write\<close>: the output file opens.\<close>

definition run_simulation_benchmark ::
  "libm \<Rightarrow> bool \<Rightarrow> u32 \<Rightarrow> ('e \<Rightarrow> float64 \<times> 'e) \<Rightarrow> float64 \<Rightarrow> (leg_plan \<Rightarrow> 'e \<Rightarrow> float64 \<times> 'e) \<Rightarrow>
   (string \<Rightarrow> (chain \<times> nat) list list) \<Rightarrow> Environment \<Rightarrow> bool \<Rightarrow> SimBenchmarkOptions \<Rightarrow> 'e \<Rightarrow> (int \<times> string option) option" where
  "run_simulation_benchmark lm have_taskflow logical mhz nominal seconds_of schedules env can_write options e =
     (let workers = resolve_workers logical (sb_workers options);
          (serial_seconds, e1) = measure_serial_tick seconds_of options e;
          serial_tick_ms = f64_mul serial_seconds (f64_of_int 1000);
          cpu_bound_enough = f64_le (f64_lit 1 2) serial_tick_ms;
          legs = map (make_leg have_taskflow seconds_of options workers) (sb_legs options);
          (report, e2) = run_interleaved mhz nominal legs (sim_run_options options) e1
      in case verify_legs lm have_taskflow options workers schedules (sb_legs options)
                \<lparr>vs_reference_hash = 0, vs_first = True, vs_all_agree = True\<rparr> of
           None \<Rightarrow> None
         | Some st \<Rightarrow>
             (let text = jw_out (simulation_document options workers env serial_tick_ms cpu_bound_enough st report) @ [CHR 0x0A];
                  code = (if vs_all_agree st then 0 else 1)
              in if sb_output_path options = [] then Some (code, None)
                 else if can_write then Some (code, Some text) else Some (1, None)))"

section \<open>The frame-time study\<close>

definition frame_leg_document :: "string \<Rightarrow> float64 list \<Rightarrow> JsonWriter \<Rightarrow> JsonWriter" where
  "frame_leg_document name ticks w0 =
     (let vs = sort_key f64_key ticks;
          med = percentile_sorted vs (f64_lit 50 100);
          p95 = percentile_sorted vs (f64_lit 95 100);
          p99 = percentile_sorted vs (f64_lit 99 100);
          p999 = percentile_sorted vs (f64_lit 999 1000);
          worst = last vs;
          low1 = (if f64_less 0 p99 then f64_div (f64_of_int 1000) p99 else 0);
          w1 = field_string ''leg'' name (begin_object w0);
          w2 = field_u64 ''tick_count'' (of_nat (length ticks)) w1;
          w3 = field_double ''median_ms'' med w2;
          w4 = field_double ''p95_ms'' p95 w3;
          w5 = field_double ''p99_ms'' p99 w4;
          w6 = field_double ''p999_ms'' p999 w5;
          w7 = field_double ''worst_ms'' worst w6;
          w8 = field_double ''one_percent_low_fps'' low1 w7;
          w9 = field_double ''p99_over_median'' (if f64_less 0 med then f64_div p99 med else 0) w8
      in end_object w9)"

text \<open>\<open>tick_seconds\<close>: the elapsed seconds of every tick of a leg.\<close>

definition frame_leg ::
  "bool \<Rightarrow> (leg_plan \<Rightarrow> float64 list) \<Rightarrow> SimBenchmarkOptions \<Rightarrow> u32 \<Rightarrow> string \<Rightarrow> JsonWriter \<Rightarrow> JsonWriter option" where
  "frame_leg have_taskflow tick_seconds options workers name w =
     (if sb_ticks options = 0 then Some w
      else case capture_plan have_taskflow options workers name of
        None \<Rightarrow> None
      | Some plan \<Rightarrow>
          (let ticks = map (\<lambda>s. f64_mul s (f64_of_int 1000)) (tick_seconds plan)
           in if ticks = [] then Some w else Some (frame_leg_document name ticks w)))"

fun frame_legs ::
  "bool \<Rightarrow> (leg_plan \<Rightarrow> float64 list) \<Rightarrow> SimBenchmarkOptions \<Rightarrow> u32 \<Rightarrow> string list \<Rightarrow> JsonWriter \<Rightarrow> JsonWriter option" where
  "frame_legs have_taskflow tick_seconds options workers [] w = Some w"
| "frame_legs have_taskflow tick_seconds options workers (name # names) w =
     (case frame_leg have_taskflow tick_seconds options workers name w of
        None \<Rightarrow> None | Some w' \<Rightarrow> frame_legs have_taskflow tick_seconds options workers names w')"

definition frame_note :: string where
  "frame_note = ''Percentiles are over INDIVIDUAL TICKS, not run medians. The '' @ [CHR 0x27] @ ''1% low fps'' @ [CHR 0x27] @
     '' column is the reciprocal of the 99th-percentile tick time - the frame rate the worst 1% of ticks sustain, not an average of them.''"

definition run_frame_time_study ::
  "bool \<Rightarrow> u32 \<Rightarrow> (leg_plan \<Rightarrow> float64 list) \<Rightarrow> Environment \<Rightarrow> bool \<Rightarrow> SimBenchmarkOptions \<Rightarrow> (int \<times> string option) option" where
  "run_frame_time_study have_taskflow logical tick_seconds env can_write options =
     (let workers = resolve_workers logical (sb_workers options);
          w1 = field_string ''schema'' ''thunderbolt-benchmark-1'' (begin_object json_writer_new);
          w2 = field_string ''benchmark'' ''frame_time_distribution'' w1;
          w3 = write_environment env w2;
          w4 = field_string ''scene'' (scene_name (sb_scene options)) w3;
          w5 = field_u64 ''ticks'' (sb_ticks options) w4;
          w6 = field_u64 ''workers'' (ucast workers) w5;
          w7 = field_string ''affinity'' (if sb_affinity options = AffinityDisabled then ''disabled'' else ''topology_aware'') w6;
          w8 = field_string ''note'' frame_note w7
      in case frame_legs have_taskflow tick_seconds options workers (sb_legs options) (begin_array ''legs'' w8) of
           None \<Rightarrow> None
         | Some w9 \<Rightarrow>
             (let text = jw_out (end_object (end_array w9)) @ [CHR 0x0A]
              in if sb_output_path options = [] then Some (0, None)
                 else if can_write then Some (0, Some text) else Some (1, None)))"

section \<open>Every leg computes the same world\<close>

lemma run_plan_world:
  "run_plan lm plan schedules sim = Some sim' \<Longrightarrow> sim_world sim' = sim_world ((tick_serial lm ^^ length schedules) sim)"
  by (cases plan) (auto dest: run_ticks_serial flows_are_serial)

lemma run_plan_hash:
  "run_plan lm plan schedules sim = Some sim' \<Longrightarrow> state_hash sim' = state_hash ((tick_serial lm ^^ length schedules) sim)"
  using run_plan_world by (simp add: state_hash_def)

lemma check_same_hash:
  "vs_all_agree st \<Longrightarrow> vs_first st \<or> vs_reference_hash st = h \<Longrightarrow>
   vs_all_agree (check_hash h st) \<and> \<not> vs_first (check_hash h st) \<and> vs_reference_hash (check_hash h st) = h"
  by (auto simp: check_hash_def)

lemma verify_legs_agree:
  assumes "\<And>name. name \<in> set names \<Longrightarrow> length (schedules name) = n"
    and "verify_legs lm have_taskflow options workers schedules names st = Some st'"
    and "vs_all_agree st" "vs_first st \<or> vs_reference_hash st = h"
    and "h = state_hash ((tick_serial lm ^^ n) (simulation_new (sb_scene options) (sb_seed options)))"
  shows "vs_all_agree st' \<and> (names \<noteq> [] \<longrightarrow> vs_reference_hash st' = h)"
  using assms
proof (induction names arbitrary: st)
  case (Cons name names)
  obtain sim where sim: "run_plan lm (verify_plan have_taskflow workers name) (schedules name)
      (simulation_new (sb_scene options) (sb_seed options)) = Some sim"
    "verify_legs lm have_taskflow options workers schedules names (check_hash (state_hash sim) st) = Some st'"
    using Cons.prems(2) by (auto split: option.splits)
  have "state_hash sim = h" using run_plan_hash [OF sim(1)] Cons.prems(1,5) by simp
  then have c: "vs_all_agree (check_hash (state_hash sim) st)" "\<not> vs_first (check_hash (state_hash sim) st)"
      "vs_reference_hash (check_hash (state_hash sim) st) = h"
    using check_same_hash [OF Cons.prems(3,4)] by simp_all
  have r: "vs_all_agree st' \<and> (names \<noteq> [] \<longrightarrow> vs_reference_hash st' = h)"
    using Cons.IH [OF _ sim(2) c(1) disjI2 [OF c(3)] Cons.prems(5)] Cons.prems(1) by simp
  show ?case
  proof (cases "names = []")
    case True
    then have "st' = check_hash (state_hash sim) st" using sim(2) by simp
    then show ?thesis using c by simp
  next
    case False
    then show ?thesis using r by simp
  qed
qed simp

text \<open>Schedules that let every leg of the verification return.\<close>

definition fair_leg :: "bool \<Rightarrow> SceneSpec \<Rightarrow> u32 \<Rightarrow> string \<Rightarrow> (chain \<times> nat) list list \<Rightarrow> bool" where
  "fair_leg have_taskflow scene workers name schedules \<longleftrightarrow>
     (case verify_plan have_taskflow workers name of
        SerialLeg \<Rightarrow> True
      | TaskflowLeg \<Rightarrow> (\<forall>schedule \<in> set schedules. fair_flow scene schedule)
      | StandardLeg config \<Rightarrow> (\<forall>schedule \<in> set schedules. fair_frame scene (worker_count config, schedule))
      | ThunderboltLeg config \<Rightarrow> (\<forall>schedule \<in> set schedules. fair_frame scene (worker_count config, schedule)))"

lemma fair_leg_returns:
  assumes "fair_leg have_taskflow scene workers name schedules"
  shows "run_plan lm (verify_plan have_taskflow workers name) schedules (simulation_new scene seed) \<noteq> None"
proof (cases "verify_plan have_taskflow workers name")
  case TaskflowLeg
  then show ?thesis using assms run_flows_return [OF simulation_new_sized] by (simp add: fair_leg_def)
next
  case (StandardLeg config)
  have "run_ticks lm (map (Pair (worker_count config)) schedules) (simulation_new scene seed) \<noteq> None"
    using assms by (intro run_ticks_return [OF simulation_new_sized]) (auto simp: fair_leg_def StandardLeg)
  then show ?thesis by (simp add: StandardLeg)
next
  case (ThunderboltLeg config)
  have "run_ticks lm (map (Pair (worker_count config)) schedules) (simulation_new scene seed) \<noteq> None"
    using assms by (intro run_ticks_return [OF simulation_new_sized]) (auto simp: fair_leg_def ThunderboltLeg)
  then show ?thesis by (simp add: ThunderboltLeg)
qed simp

lemma verify_legs_return:
  assumes "\<And>name. name \<in> set names \<Longrightarrow> fair_leg have_taskflow (sb_scene options) workers name (schedules name)"
  shows "verify_legs lm have_taskflow options workers schedules names st \<noteq> None"
  using assms
proof (induction names arbitrary: st)
  case (Cons name names)
  have "run_plan lm (verify_plan have_taskflow workers name) (schedules name) (simulation_new (sb_scene options) (sb_seed options)) \<noteq> None"
    using Cons.prems by (intro fair_leg_returns) simp
  then show ?case using Cons by auto
qed simp

section \<open>The document\<close>

definition simulation_members ::
  "SimBenchmarkOptions \<Rightarrow> u32 \<Rightarrow> Environment \<Rightarrow> float64 \<Rightarrow> bool \<Rightarrow> verify_state \<Rightarrow> RunReport \<Rightarrow> (string \<times> json) list" where
  "simulation_members options workers env serial_tick_ms cpu_bound_enough st report =
     result_members ''simulation'' env report @
     [(''scene'', JString (scene_name (sb_scene options))), (''vehicles'', json_u64 (of_nat (scene_vehicles (sb_scene options)))),
      (''npcs'', json_u64 (of_nat (scene_npcs (sb_scene options)))), (''aircraft'', json_u64 (of_nat (scene_aircraft (sb_scene options)))),
      (''seed'', json_u64 (sb_seed options)), (''ticks'', json_u64 (sb_ticks options)), (''workers'', json_u64 (ucast workers)),
      (''workload_gate'', JObject [(''serial_tick_ms'', json_double serial_tick_ms), (''cpu_bound_enough'', JBool cpu_bound_enough)]),
      (''state_hash'', JString (hash_to_string (vs_reference_hash st))), (''all_legs_agree'', JBool (vs_all_agree st)),
      (''legs'', JArray (map (\<lambda>leg. leg_json leg True) (rr_legs report)))]"

lemma simulation_document_json:
  "simulation_document options workers env ms ok st report =
     write_element (JObject (simulation_members options workers env ms ok st report)) json_writer_new"
  by (simp add: simulation_document_def simulation_members_def Let_def begin_result_json write_members_append write_legs_json
      field_defs del: put_put)

lemma simulation_ok:
  "report_finite report \<Longrightarrow> f64_finite ms \<Longrightarrow> json_ok (JObject (simulation_members options workers env ms ok st report))"
  using result_ok legs_ok by (simp add: simulation_members_def json_number_defs)

text \<open>The parts of a run: the report, the serial tick and the verification.\<close>

definition sim_report ::
  "bool \<Rightarrow> u32 \<Rightarrow> ('e \<Rightarrow> float64 \<times> 'e) \<Rightarrow> float64 \<Rightarrow> (leg_plan \<Rightarrow> 'e \<Rightarrow> float64 \<times> 'e) \<Rightarrow> SimBenchmarkOptions \<Rightarrow> 'e \<Rightarrow> RunReport" where
  "sim_report have_taskflow logical mhz nominal seconds_of options e =
     fst (run_interleaved mhz nominal
       (map (make_leg have_taskflow seconds_of options (resolve_workers logical (sb_workers options))) (sb_legs options))
       (sim_run_options options) (snd (measure_serial_tick seconds_of options e)))"

definition serial_ms :: "(leg_plan \<Rightarrow> 'e \<Rightarrow> float64 \<times> 'e) \<Rightarrow> SimBenchmarkOptions \<Rightarrow> 'e \<Rightarrow> float64" where
  "serial_ms seconds_of options e = f64_mul (fst (measure_serial_tick seconds_of options e)) (f64_of_int 1000)"

abbreviation verified where
  "verified lm have_taskflow logical schedules options \<equiv>
     verify_legs lm have_taskflow options (resolve_workers logical (sb_workers options)) schedules (sb_legs options)
       \<lparr>vs_reference_hash = 0, vs_first = True, vs_all_agree = True\<rparr>"

lemma run_parts:
  "run_simulation_benchmark lm have_taskflow logical mhz nominal seconds_of schedules env can_write options e =
     (case verified lm have_taskflow logical schedules options of
        None \<Rightarrow> None
      | Some st \<Rightarrow>
          if sb_output_path options = [] then Some (if vs_all_agree st then 0 else 1, None)
          else if can_write then Some (if vs_all_agree st then 0 else 1,
            Some (jw_out (simulation_document options (resolve_workers logical (sb_workers options)) env
              (serial_ms seconds_of options e) (f64_le (f64_lit 1 2) (serial_ms seconds_of options e)) st
              (sim_report have_taskflow logical mhz nominal seconds_of options e)) @ [CHR 0x0A]))
          else Some (1, None))"
  by (simp add: run_simulation_benchmark_def sim_report_def serial_ms_def Let_def case_prod_beta split: option.split)

lemma verified_agrees:
  assumes "\<forall>name \<in> set (sb_legs options). length (schedules name) = unat (sb_ticks options)"
    and "verified lm have_taskflow logical schedules options = Some st"
  shows "vs_all_agree st \<and> (sb_legs options \<noteq> [] \<longrightarrow> vs_reference_hash st =
    state_hash ((tick_serial lm ^^ unat (sb_ticks options)) (simulation_new (sb_scene options) (sb_seed options))))"
  using verify_legs_agree [OF _ assms(2)] assms(1) by simp

text \<open>
  C28. The verification at the end of an A/B run never finds a disagreement: whatever legs are compared and however
  their tasks are scheduled, a run that returns exits with 0 unless its output file cannot be written; and a run whose
  legs all keep running returns.
\<close>

theorem legs_always_agree:
  assumes "\<forall>name \<in> set (sb_legs options). length (schedules name) = unat (sb_ticks options)"
  shows "(\<forall>code written. run_simulation_benchmark lm have_taskflow logical mhz nominal seconds_of schedules env can_write options e =
        Some (code, written) \<longrightarrow> code = (if sb_output_path options = [] \<or> can_write then 0 else 1)) \<and>
    ((\<forall>name \<in> set (sb_legs options). fair_leg have_taskflow (sb_scene options)
        (resolve_workers logical (sb_workers options)) name (schedules name)) \<longrightarrow>
     run_simulation_benchmark lm have_taskflow logical mhz nominal seconds_of schedules env can_write options e \<noteq> None)"
proof (intro conjI allI impI)
  show "code = (if sb_output_path options = [] \<or> can_write then 0 else 1)"
    if "run_simulation_benchmark lm have_taskflow logical mhz nominal seconds_of schedules env can_write options e = Some (code, written)"
    for code written
    using that verified_agrees [OF assms] by (auto simp: run_parts split: option.splits if_splits)
  assume "\<forall>name \<in> set (sb_legs options). fair_leg have_taskflow (sb_scene options)
      (resolve_workers logical (sb_workers options)) name (schedules name)"
  then have "verified lm have_taskflow logical schedules options \<noteq> None" by (intro verify_legs_return) simp
  then show "run_simulation_benchmark lm have_taskflow logical mhz nominal seconds_of schedules env can_write options e \<noteq> None"
    by (auto simp: run_parts)
qed

theorem legs_always_agree_witness:
  "\<exists>written. run_simulation_benchmark \<lparr>l_sin = id, l_cos = id, l_pow = (\<lambda>x _. x)\<rparr> True 8 (\<lambda>e. (f64_of_int 1600, e)) (f64_of_int 2208)
     (\<lambda>plan e. (f64_lit 1 2, e)) (\<lambda>_. [[]]) environment_new True
     \<lparr>sb_scene = \<lparr>scene_name = ''empty'', scene_vehicles = 0, scene_npcs = 0, scene_aircraft = 0\<rparr>, sb_seed = 42, sb_ticks = 1,
       sb_workers = 0, sb_legs = [''serial'', ''thunderbolt''], sb_repetitions = 1, sb_warmup = 0, sb_leg_order = OrderFixed,
       sb_order_seed = 1, sb_output_path = ''out.json'', sb_affinity = AffinityDisabled\<rparr> () = Some (0, written)"
proof -
  let ?o = "\<lparr>sb_scene = \<lparr>scene_name = ''empty'', scene_vehicles = 0, scene_npcs = 0, scene_aircraft = 0\<rparr>, sb_seed = 42, sb_ticks = 1,
       sb_workers = 0, sb_legs = [''serial'', ''thunderbolt''], sb_repetitions = 1, sb_warmup = 0, sb_leg_order = OrderFixed,
       sb_order_seed = 1, sb_output_path = ''out.json'', sb_affinity = AffinityDisabled\<rparr>"
  let ?lm = "\<lparr>l_sin = id, l_cos = id, l_pow = (\<lambda>x _. x)\<rparr> :: libm"
  have len: "\<forall>name \<in> set (sb_legs ?o). length [[] :: (chain \<times> nat) list] = unat (sb_ticks ?o)" by simp
  have plans: "verify_plan True 8 ''serial'' = SerialLeg" "verify_plan True 8 ''thunderbolt'' = ThunderboltLeg (base_config 8)"
    by (simp_all add: verify_plan_def runtime_leg_def named_mode_def)
  have idle: "scene_count (sb_scene ?o) c = 0" for c by (cases c) simp_all
  then have "fair_frame (sb_scene ?o) (worker_count (base_config 8), [])" by (simp add: fair_frame_def stage_claimants_def)
  then have fair: "\<forall>name \<in> set (sb_legs ?o). fair_leg True (sb_scene ?o) (resolve_workers 8 (sb_workers ?o)) name [[]]"
    by (simp add: resolve_workers_def fair_leg_def plans)
  note r = legs_always_agree [of ?o "\<lambda>_. [[]]" ?lm True 8 "\<lambda>e. (f64_of_int 1600, e)" "f64_of_int 2208"
      "\<lambda>plan e. (f64_lit 1 2, e)" environment_new True "()", OF len]
  obtain code written where run: "run_simulation_benchmark ?lm True 8 (\<lambda>e. (f64_of_int 1600, e)) (f64_of_int 2208)
      (\<lambda>plan e. (f64_lit 1 2, e)) (\<lambda>_. [[]]) environment_new True ?o () = Some (code, written)"
    using r [THEN conjunct2, THEN mp, OF fair] by fastforce
  then have "code = 0" using r [THEN conjunct1, rule_format, OF run] by simp
  then show ?thesis using run by blast
qed

text \<open>
  C31. The document an A/B run writes is JSON text, when the measured numbers are finite, and records the legs of the
  report, the agreement of all legs and the state hash of the serial simulation.
\<close>

theorem simulation_document_recorded:
  assumes "\<forall>name \<in> set (sb_legs options). length (schedules name) = unat (sb_ticks options)" "sb_legs options \<noteq> []"
    and "run_simulation_benchmark lm have_taskflow logical mhz nominal seconds_of schedules env can_write options e = Some (code, Some written)"
    and "report_finite (sim_report have_taskflow logical mhz nominal seconds_of options e)" "f64_finite (serial_ms seconds_of options e)"
  shows "\<exists>ms. parse_json written = Some (JObject ms) \<and> (''all_legs_agree'', JBool True) \<in> set ms \<and>
    (''state_hash'', JString (hash_to_string (state_hash
       ((tick_serial lm ^^ unat (sb_ticks options)) (simulation_new (sb_scene options) (sb_seed options)))))) \<in> set ms \<and>
    (''legs'', JArray (map (\<lambda>leg. leg_json leg True) (rr_legs (sim_report have_taskflow logical mhz nominal seconds_of options e)))) \<in> set ms"
proof -
  let ?report = "sim_report have_taskflow logical mhz nominal seconds_of options e"
  let ?ms = "serial_ms seconds_of options e" and ?w = "resolve_workers logical (sb_workers options)"
  obtain st where st: "verified lm have_taskflow logical schedules options = Some st"
    and written: "written = jw_out (simulation_document options ?w env ?ms (f64_le (f64_lit 1 2) ?ms) st ?report) @ [CHR 0x0A]"
    using assms(3) by (auto simp: run_parts split: option.splits if_splits)
  have "parse_json written = Some (JObject (simulation_members options ?w env ?ms (f64_le (f64_lit 1 2) ?ms) st ?report))"
    unfolding written simulation_document_json by (rule json_roundtrip_line [OF simulation_ok [OF assms(4,5)]])
  then show ?thesis using verified_agrees [OF assms(1) st] assms(2) by (auto simp: simulation_members_def)
qed

text \<open>The numbers of the example below: half a second per run, an unreadable clock.\<close>

lemma half_second:
  "\<not> f64_less 0 0" "f64_finite (f64_lit 1 2)" "f64_finite (f64_sub (f64_lit 1 2) (f64_lit 1 2))"
  "f64_finite (f64_div (f64_add 0 (f64_lit 1 2)) (f64_of_int 1))" "f64_finite (f64_lit 92 100)" "f64_finite 0"
  "f64_abs 0 = 0" "f64_abs (f64_lit 1 2) \<noteq> 0" "\<not> f64_less (f64_lit 1 2) (f64_lit 1 2)"
  "f64_finite (f64_mul (f64_div (f64_lit 1 2) (f64_of_int 1)) (f64_of_int 1000))"
  by code_simp+

theorem simulation_document_recorded_witness:
  "\<exists>code written ms. run_simulation_benchmark \<lparr>l_sin = id, l_cos = id, l_pow = (\<lambda>x _. x)\<rparr> True 8 (\<lambda>e. (0, e)) 0
     (\<lambda>plan e. (f64_lit 1 2, e)) (\<lambda>_. [[]]) environment_new True
     \<lparr>sb_scene = \<lparr>scene_name = ''empty'', scene_vehicles = 0, scene_npcs = 0, scene_aircraft = 0\<rparr>, sb_seed = 42, sb_ticks = 1,
       sb_workers = 0, sb_legs = [''serial'', ''thunderbolt''], sb_repetitions = 1, sb_warmup = 0, sb_leg_order = OrderFixed,
       sb_order_seed = 1, sb_output_path = ''out.json'', sb_affinity = AffinityDisabled\<rparr> () = Some (code, Some written) \<and>
     parse_json written = Some (JObject ms) \<and> (''all_legs_agree'', JBool True) \<in> set ms"
proof -
  let ?o = "\<lparr>sb_scene = \<lparr>scene_name = ''empty'', scene_vehicles = 0, scene_npcs = 0, scene_aircraft = 0\<rparr>, sb_seed = 42, sb_ticks = 1,
       sb_workers = 0, sb_legs = [''serial'', ''thunderbolt''], sb_repetitions = 1, sb_warmup = 0, sb_leg_order = OrderFixed,
       sb_order_seed = 1, sb_output_path = ''out.json'', sb_affinity = AffinityDisabled\<rparr>"
  let ?lm = "\<lparr>l_sin = id, l_cos = id, l_pow = (\<lambda>x _. x)\<rparr> :: libm"
  let ?mhz = "\<lambda>e :: unit. (0 :: float64, e)" and ?secs = "\<lambda>(plan :: leg_plan) (e :: unit). (f64_lit 1 2, e)"
  have len: "\<forall>name \<in> set (sb_legs ?o). length [[] :: (chain \<times> nat) list] = unat (sb_ticks ?o)" "sb_legs ?o \<noteq> []" by simp_all
  have plans: "verify_plan True 8 ''serial'' = SerialLeg" "verify_plan True 8 ''thunderbolt'' = ThunderboltLeg (base_config 8)"
    by (simp_all add: verify_plan_def runtime_leg_def named_mode_def)
  have idle: "scene_count (sb_scene ?o) c = 0" for c by (cases c) simp_all
  then have "fair_frame (sb_scene ?o) (worker_count (base_config 8), [])" by (simp add: fair_frame_def stage_claimants_def)
  then have fair: "\<And>name. name \<in> set (sb_legs ?o) \<Longrightarrow> fair_leg True (sb_scene ?o) (resolve_workers 8 (sb_workers ?o)) name [[]]"
    by (auto simp: resolve_workers_def fair_leg_def plans)
  have "verified ?lm True 8 (\<lambda>_. [[]]) ?o \<noteq> None" by (intro verify_legs_return fair)
  then obtain code written where run: "run_simulation_benchmark ?lm True 8 ?mhz 0 ?secs (\<lambda>_. [[]]) environment_new True ?o () =
      Some (code, Some written)"
    by (auto simp: run_parts)
  have fin: "report_finite (sim_report True 8 ?mhz 0 ?secs ?o ())" "f64_finite (serial_ms ?secs ?o ())"
    by (simp_all add: sim_report_def serial_ms_def measure_serial_tick_def run_interleaved_def run_rounds_def run_round_def
        run_slot_def take_sample_def push_sample_def median_clock_def observed_clocks_def flag_leg_def flag_sample_def
        summarise_leg_def summarize_def percentile_sorted_def leg_result_new_def make_leg_def sim_run_options_def run_options_new_def
        initial_order_def report_finite_def leg_finite_def summary_finite_def sample_finite_def summary_new_def Let_def upt_rec half_second)
  show ?thesis using simulation_document_recorded [OF len(1) len(2) run fin] run by blast
qed

section \<open>What the legs run\<close>

text \<open>The verification runs what was measured, the pinning apart.\<close>

fun unpinned :: "leg_plan \<Rightarrow> leg_plan" where
  "unpinned (StandardLeg config) = StandardLeg (config\<lparr>affinity := AffinityDisabled\<rparr>)"
| "unpinned (ThunderboltLeg config) = ThunderboltLeg (config\<lparr>affinity := AffinityDisabled\<rparr>)"
| "unpinned plan = plan"

lemma measured_is_verified: "unpinned (make_leg_plan have_taskflow options workers name) = verify_plan have_taskflow workers name"
  by (simp add: make_leg_plan_def verify_plan_def runtime_leg_def named_mode_def base_config_def default_config_def Let_def)

text \<open>
  The frame-time study takes the optimisation bits of no name, so that these legs measure the default runtime; and
  in a build without Taskflow the leg \<open>taskflow\<close> is the default runtime of the A/B run and a null pointer in the study.
\<close>

lemma study_ignores_stages:
  "capture_plan have_taskflow options workers ''thunderbolt_s2'' = capture_plan have_taskflow options workers ''thunderbolt''"
  "capture_plan have_taskflow options workers ''thunderbolt_o12'' = capture_plan have_taskflow options workers ''thunderbolt''"
  "make_leg_plan have_taskflow options workers ''thunderbolt_s2'' \<noteq> make_leg_plan have_taskflow options workers ''thunderbolt''"
  by (simp_all add: capture_plan_def make_leg_plan_def runtime_leg_def named_mode_def base_config_def default_config_def
      stage_bits_def kOptNone_def kOptThreadCache_def kOptInPlaceSubmit_def)

lemma taskflow_missing:
  "capture_plan False options workers ''taskflow'' = None"
  "make_leg_plan False options workers ''taskflow'' = make_leg_plan False options workers ''thunderbolt''"
  by (simp_all add: capture_plan_def make_leg_plan_def runtime_leg_def named_mode_def)

text \<open>With no ticks the serial tick is infinite, and the document is no JSON.\<close>

lemma no_ticks_infinite:
  "sb_ticks options = 0 \<Longrightarrow> serial_ms (\<lambda>plan e. (f64_lit 1 2, e)) options e = f64_inf"
proof -
  have "f64_mul (f64_div (f64_lit 1 2) (f64_of_int 0)) (f64_of_int 1000) = f64_inf" by code_simp
  moreover have "\<not> f64_abs (f64_lit 1 2) = 0" "\<not> f64_less (f64_lit 1 2) (f64_lit 1 2)" by code_simp+
  ultimately show "sb_ticks options = 0 \<Longrightarrow> ?thesis"
    by (simp add: serial_ms_def measure_serial_tick_def upt_rec f64_abs_def f64_negative_def)
qed

end
