(* ===== verification/Game_Cli.thy ===== *)
theory Game_Cli
  imports Game_Benchmark Bench_Cli Runtime_Base
begin

text \<open>
  \<open>game_benchmarks/main.cpp\<close>: the command line of \<open>thunderbolt-sim\<close>, the single run behind \<open>--hash\<close> and the
  dispatch to the studies. Progress output and the watchdog thread, which aborts a run that takes longer than
  twenty seconds, are left out; the printed hash is part of the result.
\<close>

section \<open>The arguments\<close>

record sim_args =
  sa_scene :: string
  sa_runtime :: string
  sa_seed :: u64
  sa_ticks :: u64
  sa_workers :: u32
  sa_hash_only :: bool
  sa_ab_legs :: "string list"
  sa_reps :: int
  sa_warmup :: int
  sa_leg_order :: LegOrder
  sa_order_seed :: u64
  sa_output_path :: string
  sa_frame_times :: bool
  sa_affinity_on :: bool

definition sim_args_new :: sim_args where
  "sim_args_new = \<lparr>sa_scene = ''full_mixed'', sa_runtime = ''thunderbolt'', sa_seed = 42, sa_ticks = 600, sa_workers = 0,
     sa_hash_only = False, sa_ab_legs = [], sa_reps = 8, sa_warmup = 2, sa_leg_order = OrderShuffle,
     sa_order_seed = 0x7B01715EED, sa_output_path = [], sa_frame_times = False, sa_affinity_on = False\<rparr>"

definition sim_parse_uint :: "string \<Rightarrow> u64 option" where
  "sim_parse_uint s = (case strtoull s of None \<Rightarrow> None | Some (v, end_text) \<Rightarrow> if end_text = [] then Some v else None)"

text \<open>The loop over the commas of \<open>--ab\<close>; empty names are passed over.\<close>

definition is_comma :: "char \<Rightarrow> bool" where
  "is_comma c \<longleftrightarrow> c = CHR '',''"

function split_legs :: "string \<Rightarrow> string list" where
  "split_legs s =
     (let leg = takeWhile (\<lambda>c. \<not> is_comma c) s;
          rest = dropWhile (\<lambda>c. \<not> is_comma c) s;
          pushed = (if leg = [] then [] else [leg])
      in if rest = [] then pushed else pushed @ split_legs (tl rest))"
  by auto
termination
proof (relation "measure length", simp)
  fix s :: string and rest
  assume r: "rest = dropWhile (\<lambda>c. \<not> is_comma c) s" "rest \<noteq> []"
  have "length rest \<le> length s" unfolding r(1) by (rule length_dropWhile_le)
  then show "(tl rest, s) \<in> measure length" using r(2) by (cases rest) simp_all
qed

declare split_legs.simps [simp del]

text \<open>An option that takes a number: exit code 2 when it is none.\<close>

definition number_arg :: "string list \<Rightarrow> (u64 \<Rightarrow> sim_args) \<Rightarrow> int + sim_args \<times> string list" where
  "number_arg rest assign = (case sim_parse_uint (hd rest) of None \<Rightarrow> Inl 2 | Some v \<Rightarrow> Inr (assign v, tl rest))"

definition sim_arg :: "string \<Rightarrow> string list \<Rightarrow> sim_args \<Rightarrow> int + sim_args \<times> string list" where
  "sim_arg arg rest st =
     (let more = (rest \<noteq> []) in
      if arg = ''--help'' \<or> arg = ''-h'' then Inl 0
      else if arg = ''--list-scenes'' then Inl 0
      else if arg = ''--hash'' then Inr (st\<lparr>sa_hash_only := True\<rparr>, rest)
      else if arg = ''--scene'' \<and> more then Inr (st\<lparr>sa_scene := hd rest\<rparr>, tl rest)
      else if arg = ''--runtime'' \<and> more then Inr (st\<lparr>sa_runtime := hd rest\<rparr>, tl rest)
      else if (arg = ''--workers'' \<or> arg = ''-w'') \<and> more then number_arg rest (\<lambda>v. st\<lparr>sa_workers := ucast v\<rparr>)
      else if arg = ''--seed'' \<and> more then number_arg rest (\<lambda>v. st\<lparr>sa_seed := v\<rparr>)
      else if arg = ''--ticks'' \<and> more then number_arg rest (\<lambda>v. st\<lparr>sa_ticks := v\<rparr>)
      else if arg = ''--ab'' \<and> more then Inr (st\<lparr>sa_ab_legs := split_legs (hd rest)\<rparr>, tl rest)
      else if arg = ''--reps'' \<and> more then number_arg rest (\<lambda>v. st\<lparr>sa_reps := static_cast_int v\<rparr>)
      else if arg = ''--warmup'' \<and> more then number_arg rest (\<lambda>v. st\<lparr>sa_warmup := static_cast_int v\<rparr>)
      else if arg = ''--leg-order'' \<and> more then
        (case parse_leg_order (hd rest) of None \<Rightarrow> Inl 2 | Some mode \<Rightarrow> Inr (st\<lparr>sa_leg_order := mode\<rparr>, tl rest))
      else if arg = ''--order-seed'' \<and> more then number_arg rest (\<lambda>v. st\<lparr>sa_order_seed := v\<rparr>)
      else if arg = ''--frame-times'' then Inr (st\<lparr>sa_frame_times := True\<rparr>, rest)
      else if arg = ''--affinity'' then Inr (st\<lparr>sa_affinity_on := True\<rparr>, rest)
      else if arg = ''--out'' \<and> more then Inr (st\<lparr>sa_output_path := hd rest\<rparr>, tl rest)
      else Inl 2)"

lemma sim_arg_rest:
  assumes "sim_arg arg rest st = Inr (st', rest')"
  shows "length rest' \<le> length rest"
proof -
  have "rest' = tl rest \<or> rest' = rest"
    using assms unfolding sim_arg_def number_arg_def Let_def by (auto split: if_splits option.splits)
  then show ?thesis by auto
qed

function sim_args_loop :: "string list \<Rightarrow> sim_args \<Rightarrow> int + sim_args" where
  "sim_args_loop [] st = Inr st"
| "sim_args_loop (arg # rest) st =
     (case sim_arg arg rest st of Inl code \<Rightarrow> Inl code | Inr (st', rest') \<Rightarrow> sim_args_loop rest' st')"
  by pat_completeness auto
termination by (relation "measure (\<lambda>(args, st). length args)") (auto dest: sim_arg_rest)

section \<open>The program\<close>

definition bench_options :: "SceneSpec \<Rightarrow> sim_args \<Rightarrow> SimBenchmarkOptions" where
  "bench_options scene a =
     \<lparr>sb_scene = scene, sb_seed = sa_seed a, sb_ticks = sa_ticks a, sb_workers = sa_workers a, sb_legs = sa_ab_legs a,
      sb_repetitions = sa_reps a, sb_warmup = sa_warmup a, sb_leg_order = sa_leg_order a, sb_order_seed = sa_order_seed a,
      sb_output_path = sa_output_path a,
      sb_affinity = (if sa_affinity_on a then TopologyAware else AffinityDisabled)\<rparr>"

text \<open>What the single run executes; \<open>None\<close> is the error exit for a runtime that does not exist.\<close>

definition single_plan :: "bool \<Rightarrow> sim_args \<Rightarrow> leg_plan option" where
  "single_plan have_taskflow a =
     (let config = default_config\<lparr>worker_count := sa_workers a, task_capacity := 262144\<rparr>
      in if sa_runtime a = ''serial'' then Some SerialLeg
         else if sa_runtime a = ''taskflow'' then (if have_taskflow then Some TaskflowLeg else None)
         else if sa_runtime a = ''standard'' then Some (StandardLeg config)
         else if sa_runtime a = ''thunderbolt'' then Some (ThunderboltLeg config)
         else None)"

text \<open>A runtime asked for 0 workers resolves the number itself, when it is constructed.\<close>

fun constructed :: "u32 \<Rightarrow> leg_plan \<Rightarrow> leg_plan" where
  "constructed logical (StandardLeg config) = StandardLeg (config\<lparr>worker_count := resolve_worker_count logical config\<rparr>)"
| "constructed logical (ThunderboltLeg config) = ThunderboltLeg (config\<lparr>worker_count := resolve_worker_count logical config\<rparr>)"
| "constructed logical plan = plan"

text \<open>\<open>schedules\<close>: how the frames of the single run are scheduled. The result of a run that does not return is \<open>None\<close>.\<close>

definition single_run :: "libm \<Rightarrow> bool \<Rightarrow> u32 \<Rightarrow> (chain \<times> nat) list list \<Rightarrow> SceneSpec \<Rightarrow> sim_args \<Rightarrow> (int \<times> string option) option" where
  "single_run lm have_taskflow logical schedules scene a =
     (case single_plan have_taskflow a of
        None \<Rightarrow> Some (2, None)
      | Some plan \<Rightarrow>
          (case run_plan lm (constructed logical plan) schedules (simulation_new scene (sa_seed a)) of
             None \<Rightarrow> None
           | Some sim \<Rightarrow> Some (0, if sa_hash_only a then Some (hash_to_string (state_hash sim) @ [CHR 0x0A]) else None)))"

text \<open>\<open>main\<close>, with the two studies as arguments.\<close>

definition sim_main ::
  "libm \<Rightarrow> bool \<Rightarrow> u32 \<Rightarrow> (SimBenchmarkOptions \<Rightarrow> (int \<times> string option) option) \<Rightarrow>
   (SimBenchmarkOptions \<Rightarrow> (int \<times> string option) option) \<Rightarrow> (chain \<times> nat) list list \<Rightarrow> string list \<Rightarrow> (int \<times> string option) option" where
  "sim_main lm have_taskflow logical frame_time_study ab_benchmark schedules args =
     (case sim_args_loop args sim_args_new of
        Inl code \<Rightarrow> Some (code, None)
      | Inr a \<Rightarrow>
          (case find_scene (sa_scene a) of
             None \<Rightarrow> Some (2, None)
           | Some scene \<Rightarrow>
               if sa_ab_legs a \<noteq> [] then
                 (if sa_frame_times a then frame_time_study (bench_options scene a) else ab_benchmark (bench_options scene a))
               else single_run lm have_taskflow logical schedules scene a))"

section \<open>The printed hash\<close>

text \<open>
  C36. The hash \<open>thunderbolt-sim --hash\<close> prints depends on the scene, the seed and the number of ticks alone: whatever
  runtime and worker count are asked for and however the tasks are scheduled, a run that ends well prints the hash
  of the serial simulation; any other outcome prints none.
\<close>

theorem printed_hash_exact:
  assumes "sim_args_loop args sim_args_new = Inr a" "sa_hash_only a" "sa_ab_legs a = []"
    and "length schedules = unat (sa_ticks a)"
    and "sim_main lm have_taskflow logical frame_time_study ab_benchmark schedules args = Some (code, printed)"
  shows "(code = 0 \<and> (\<exists>scene. find_scene (sa_scene a) = Some scene \<and>
      printed = Some (hash_to_string (state_hash ((tick_serial lm ^^ unat (sa_ticks a)) (simulation_new scene (sa_seed a)))) @ [CHR 0x0A]))) \<or>
    (code = 2 \<and> printed = None \<and> (find_scene (sa_scene a) = None \<or> single_plan have_taskflow a = None))"
proof (cases "find_scene (sa_scene a)")
  case None
  then show ?thesis using assms by (simp add: sim_main_def)
next
  case (Some scene)
  then have run: "single_run lm have_taskflow logical schedules scene a = Some (code, printed)"
    using assms by (simp add: sim_main_def)
  show ?thesis
  proof (cases "single_plan have_taskflow a")
    case None
    then show ?thesis using run by (simp add: single_run_def)
  next
    case (Some plan)
    then obtain sim where sim: "run_plan lm (constructed logical plan) schedules (simulation_new scene (sa_seed a)) = Some sim"
        "code = 0" "printed = Some (hash_to_string (state_hash sim) @ [CHR 0x0A])"
      using run assms(2) by (auto simp: single_run_def split: option.splits)
    then show ?thesis using run_plan_hash [OF sim(1)] assms(4) \<open>find_scene (sa_scene a) = Some scene\<close> by simp
  qed
qed

theorem printed_hash_exact_witness:
  "\<exists>scene. find_scene ''5_aircraft'' = Some scene \<and>
     sim_main \<lparr>l_sin = id, l_cos = id, l_pow = (\<lambda>x _. x)\<rparr> False 4 (\<lambda>_. None) (\<lambda>_. None) [[]]
       [''--scene'', ''5_aircraft'', ''--runtime'', ''serial'', ''--ticks'', ''1'', ''--hash''] =
     Some (0, Some (hash_to_string (state_hash (tick_serial \<lparr>l_sin = id, l_cos = id, l_pow = (\<lambda>x _. x)\<rparr>
       (simulation_new scene 42))) @ [CHR 0x0A]))"
proof -
  let ?lm = "\<lparr>l_sin = id, l_cos = id, l_pow = (\<lambda>x _. x)\<rparr> :: libm"
  let ?args = "[''--scene'', ''5_aircraft'', ''--runtime'', ''serial'', ''--ticks'', ''1'', ''--hash'']"
  let ?a = "sim_args_new\<lparr>sa_scene := ''5_aircraft'', sa_runtime := ''serial'', sa_ticks := 1, sa_hash_only := True\<rparr>"
  have parsed: "sim_args_loop ?args sim_args_new = Inr ?a" by code_simp
  have a: "sa_hash_only ?a" "sa_ab_legs ?a = []" "length [[] :: (chain \<times> nat) list] = unat (sa_ticks ?a)"
      "sa_scene ?a = ''5_aircraft''" "sa_seed ?a = 42"
    by (simp_all add: sim_args_new_def)
  obtain scene where scene: "find_scene ''5_aircraft'' = Some scene"
    by (simp add: find_scene_def kScenes_def)
  have plan: "single_plan False ?a = Some SerialLeg" by (simp add: single_plan_def sim_args_new_def)
  have "sim_main ?lm False 4 (\<lambda>_. None) (\<lambda>_. None) [[]] ?args = single_run ?lm False 4 [[]] scene ?a"
    using scene by (simp add: sim_main_def parsed a del: sim_args_loop.simps)
  then obtain code printed where run: "sim_main ?lm False 4 (\<lambda>_. None) (\<lambda>_. None) [[]] ?args = Some (code, printed)"
    by (simp add: single_run_def plan del: sim_args_loop.simps)
  from printed_hash_exact [OF parsed a(1-3) run] show ?thesis
    using run scene plan by (simp add: a sim_args_new_def)
qed

section \<open>The list of legs\<close>

lemma split_leg: "\<forall>c \<in> set leg. \<not> is_comma c \<Longrightarrow> leg \<noteq> [] \<Longrightarrow> split_legs (leg @ CHR '','' # s) = leg # split_legs s"
  by (subst split_legs.simps) (simp add: takeWhile_append2 dropWhile_append2 is_comma_def Let_def)

lemma split_last: "\<forall>c \<in> set leg. \<not> is_comma c \<Longrightarrow> leg \<noteq> [] \<Longrightarrow> split_legs leg = [leg]"
proof -
  assume leg: "\<forall>c \<in> set leg. \<not> is_comma c" "leg \<noteq> []"
  then have tw: "takeWhile (\<lambda>c. \<not> is_comma c) leg = leg" "dropWhile (\<lambda>c. \<not> is_comma c) leg = []"
    by (simp_all add: takeWhile_eq_all_conv)
  show ?thesis by (subst split_legs.simps) (simp add: Let_def tw leg(2))
qed

fun join_legs :: "string list \<Rightarrow> string" where
  "join_legs [] = []"
| "join_legs [leg] = leg"
| "join_legs (leg # legs) = leg @ CHR '','' # join_legs legs"

lemma split_joined: "\<forall>leg \<in> set legs. leg \<noteq> [] \<and> (\<forall>c \<in> set leg. \<not> is_comma c) \<Longrightarrow> split_legs (join_legs legs) = legs"
proof (induction legs rule: join_legs.induct)
  case 1
  show ?case by (subst split_legs.simps) simp
qed (simp_all add: split_last split_leg)

end
