(* ===== verification/Bench_Environment.thy ===== *)
theory Bench_Environment
  imports Bench_Report
begin

text \<open>
  \<open>benchmarks/harness/Environment.cpp\<close>: what a results document records of the machine and the build, and the
  clock readings. The answers of the operating system (files, \<open>uname\<close>, \<open>sysinfo\<close>, the Windows queries) and the
  build constants are arguments.
\<close>

section \<open>The operating system and the memory\<close>

text \<open>\<open>contents.find(key)\<close>: what follows the first occurrence.\<close>

fun after_key :: "string \<Rightarrow> string \<Rightarrow> string option" where
  "after_key key s =
     (if take (length key) s = key then Some (drop (length key) s)
      else case s of [] \<Rightarrow> None | c # t \<Rightarrow> after_key key t)"

declare after_key.simps [simp del]

definition unquoted :: "string \<Rightarrow> string" where
  "unquoted value =
     (if 2 \<le> length value \<and> hd value = CHR 0x22 \<and> last value = CHR 0x22 then butlast (tl value) else value)"

definition query_os_linux :: "string \<Rightarrow> (string \<times> string) option \<Rightarrow> string" where
  "query_os_linux contents uts =
     (let from_uname = (case uts of Some (sysname, release) \<Rightarrow> sysname @ '' '' @ release
                        | None \<Rightarrow> ''Linux (version unavailable)'')
      in case after_key ''PRETTY_NAME='' contents of
           None \<Rightarrow> from_uname
         | Some rest \<Rightarrow>
             (let value = unquoted (takeWhile (\<lambda>c. c \<noteq> CHR 0x0A) rest)
              in if value \<noteq> [] then value else from_uname))"

definition query_os_windows :: "(u32 \<times> u32 \<times> u32) option \<Rightarrow> string" where
  "query_os_windows version =
     (case version of
        Some (major, minor, build) \<Rightarrow>
          ''Windows '' @ show_natural (uint major) @ ''.'' @ show_natural (uint minor) @ '' build '' @ show_natural (uint build)
      | None \<Rightarrow> ''Windows (version unavailable)'')"

text \<open>\<open>sysinfo\<close>: the memory in units, and the size of a unit.\<close>

definition query_ram_linux :: "(u64 \<times> u32) option \<Rightarrow> u64" where
  "query_ram_linux info = (case info of Some (totalram, mem_unit) \<Rightarrow> totalram * ucast mem_unit | None \<Rightarrow> 0)"

definition query_ram_windows :: "u64 option \<Rightarrow> u64" where
  "query_ram_windows status = (case status of Some total_phys \<Rightarrow> total_phys | None \<Rightarrow> 0)"

section \<open>The clock\<close>

text \<open>\<open>read_number\<close>: the number at the start of a file, if the file opens and holds one.\<close>

definition read_cpufreq_khz :: "(string \<Rightarrow> float64 option) \<Rightarrow> string \<Rightarrow> u32 \<Rightarrow> float64" where
  "read_cpufreq_khz read_number filename logical =
     (case read_number (''/sys/devices/system/cpu/cpu'' @ show_natural (uint logical) @ ''/cpufreq/'' @ filename) of
        Some khz \<Rightarrow> khz | None \<Rightarrow> 0)"

definition add_clock :: "(string \<Rightarrow> float64 option) \<Rightarrow> nat \<Rightarrow> float64 \<times> nat \<Rightarrow> float64 \<times> nat" where
  "add_clock read_number logical acc =
     (case acc of (acc_mhz, found) \<Rightarrow>
        (let khz = read_cpufreq_khz read_number ''scaling_cur_freq'' (of_nat logical)
         in if f64_less 0 khz then (f64_add acc_mhz (f64_div khz (f64_of_int 1000)), found + 1) else (acc_mhz, found)))"

definition sample_current_mhz_linux :: "(string \<Rightarrow> float64 option) \<Rightarrow> u32 \<Rightarrow> float64" where
  "sample_current_mhz_linux read_number processors =
     (if processors = 0 then 0
      else case fold (add_clock read_number) [0..<unat processors] (0, 0) of
        (acc_mhz, found) \<Rightarrow> if 0 < found then f64_div acc_mhz (f64_of_int (int found)) else 0)"

definition nominal_max_mhz_linux :: "(string \<Rightarrow> float64 option) \<Rightarrow> float64" where
  "nominal_max_mhz_linux read_number =
     (let khz = read_cpufreq_khz read_number ''cpuinfo_max_freq'' 0
      in if f64_less 0 khz then f64_div khz (f64_of_int 1000) else 0)"

text \<open>
  The Windows query reports a status and fills one (maximal, current) pair per logical processor; 0 is
  \<open>STATUS_SUCCESS\<close>.
\<close>

definition query_processor_power :: "u32 \<Rightarrow> int \<Rightarrow> (nat \<Rightarrow> u32 \<times> u32) \<Rightarrow> (u32 \<times> u32) list option" where
  "query_processor_power processors status filled =
     (if processors = 0 then None
      else if status = 0 then Some (map filled [0..<unat processors]) else None)"

definition sample_current_mhz_windows :: "u32 \<Rightarrow> int \<Rightarrow> (nat \<Rightarrow> u32 \<times> u32) \<Rightarrow> float64" where
  "sample_current_mhz_windows processors status filled =
     (case query_processor_power processors status filled of
        None \<Rightarrow> 0
      | Some info \<Rightarrow>
          if info = [] then 0
          else f64_div (fold (\<lambda>(max_mhz, current_mhz) acc_mhz. f64_add acc_mhz (f64_of_int (uint current_mhz))) info 0)
                 (f64_of_int (int (length info))))"

definition nominal_max_mhz_windows :: "u32 \<Rightarrow> int \<Rightarrow> (nat \<Rightarrow> u32 \<times> u32) \<Rightarrow> float64" where
  "nominal_max_mhz_windows processors status filled =
     (case query_processor_power processors status filled of
        None \<Rightarrow> 0 | Some info \<Rightarrow> if info = [] then 0 else f64_of_int (uint (fst (hd info))))"

section \<open>The time stamp\<close>

text \<open>
  \<open>gmtime\<close> and \<open>strftime\<close> with \<open>%Y-%m-%dT%H:%M:%SZ\<close>, for times since 1970: the year and the month are counted
  off the days.
\<close>

definition leap :: "nat \<Rightarrow> bool" where
  "leap y = (y mod 4 = 0 \<and> (y mod 100 \<noteq> 0 \<or> y mod 400 = 0))"

definition year_days :: "nat \<Rightarrow> nat" where
  "year_days y = (if leap y then 366 else 365)"

definition month_days :: "nat \<Rightarrow> nat list" where
  "month_days y = [31, if leap y then 29 else 28, 31, 30, 31, 30, 31, 31, 30, 31, 30, 31]"

fun year_of :: "nat \<Rightarrow> nat \<Rightarrow> nat \<times> nat" where
  "year_of y days = (if days < year_days y \<or> year_days y = 0 then (y, days) else year_of (y + 1) (days - year_days y))"

declare year_of.simps [simp del]

fun month_of :: "nat list \<Rightarrow> nat \<Rightarrow> nat \<Rightarrow> nat \<times> nat" where
  "month_of [] m days = (m, days)"
| "month_of (l # ls) m days = (if days < l then (m, days) else month_of ls (m + 1) (days - l))"

definition civil :: "nat \<Rightarrow> nat \<times> nat \<times> nat" where
  "civil days =
     (case year_of 1970 days of (y, in_year) \<Rightarrow>
        (case month_of (month_days y) 1 in_year of (m, in_month) \<Rightarrow> (y, m, in_month + 1)))"

definition padded :: "nat \<Rightarrow> nat \<Rightarrow> string" where
  "padded width n = (let s = show_natural (int n) in replicate (width - length s) (CHR 0x30) @ s)"

definition utc_timestamp :: "nat \<Rightarrow> string" where
  "utc_timestamp seconds =
     (case civil (seconds div 86400) of (y, m, d) \<Rightarrow>
        (let s = seconds mod 86400
         in show_natural (int y) @ ''-'' @ padded 2 m @ ''-'' @ padded 2 d @ ''T'' @ padded 2 (s div 3600) @ '':''
              @ padded 2 (s div 60 mod 60) @ '':'' @ padded 2 (s mod 60) @ ''Z''))"

section \<open>The record\<close>

text \<open>
  \<open>BuildInfo.cpp\<close>: what the preprocessor selects. The predefined macros of the compiler are the argument, \<open>None\<close>
  or \<open>False\<close> where the macro is not defined.
\<close>

record BuildInfo =
  bi_version :: string
  bi_compiler :: string
  bi_configuration :: string
  bi_cpp_standard :: string
  bi_debug_assertions :: bool
  bi_address_sanitizer :: bool

record Macros =
  MSC_FULL_VER :: "string option"
  clang_version :: "string option"
  GNUC_VERSION :: "string option"
  SANITIZE_ADDRESS :: bool
  has_feature_address_sanitizer :: "bool option"
  THUNDERBOLT_VERSION_STRING :: string
  THUNDERBOLT_BUILD_CONFIG :: string
  cplusplus :: string
  THUNDERBOLT_DEBUG :: int

definition kCompiler :: "Macros \<Rightarrow> string" where
  "kCompiler d =
     (case MSC_FULL_VER d of Some v \<Rightarrow> ''MSVC '' @ v
      | None \<Rightarrow> (case clang_version d of Some v \<Rightarrow> ''Clang '' @ v
          | None \<Rightarrow> (case GNUC_VERSION d of Some v \<Rightarrow> ''GCC '' @ v | None \<Rightarrow> ''unknown'')))"

definition kAsan :: "Macros \<Rightarrow> bool" where
  "kAsan d =
     (if SANITIZE_ADDRESS d then True
      else case has_feature_address_sanitizer d of Some b \<Rightarrow> b | None \<Rightarrow> False)"

definition build_info :: "Macros \<Rightarrow> BuildInfo" where
  "build_info d =
     \<lparr>bi_version = THUNDERBOLT_VERSION_STRING d, bi_compiler = kCompiler d,
      bi_configuration = THUNDERBOLT_BUILD_CONFIG d, bi_cpp_standard = cplusplus d,
      bi_debug_assertions = (THUNDERBOLT_DEBUG d \<noteq> 0), bi_address_sanitizer = kAsan d\<rparr>"

definition capture_environment :: "CpuTopology \<Rightarrow> BuildInfo \<Rightarrow> u64 \<Rightarrow> string \<Rightarrow> string \<Rightarrow> Environment" where
  "capture_environment topology build ram os timestamp =
     \<lparr>env_cpu_brand = brand topology,
      env_physical_cores = (if detected topology then physical_core_count topology else 0),
      env_logical_processors = logical_processor_count topology, env_smt = has_smt topology, env_ram_bytes = ram, env_os = os,
      env_compiler = bi_compiler build, env_build_config = bi_configuration build, env_thunderbolt_version = bi_version build,
      env_debug_assertions = bi_debug_assertions build, env_address_sanitizer = bi_address_sanitizer build,
      env_timestamp_utc = timestamp\<rparr>"

section \<open>What the record promises\<close>

text \<open>The name of a distribution, quoted as os-release quotes it, is read back exactly.\<close>

lemma after_key_here: "after_key key (key @ s) = Some s"
  by (subst after_key.simps) simp

lemma pretty_name_read:
  assumes "name \<noteq> []" "\<forall>c\<in>set name. c \<noteq> CHR 0x0A"
  shows "query_os_linux (''PRETTY_NAME='' @ [CHR 0x22] @ name @ [CHR 0x22, CHR 0x0A] @ rest) uts = name"
proof -
  have "takeWhile (\<lambda>c. c \<noteq> CHR 0x0A) ([CHR 0x22] @ name @ [CHR 0x22, CHR 0x0A] @ rest) = CHR 0x22 # name @ [CHR 0x22]"
    using assms(2) by (simp add: takeWhile_append2)
  then show ?thesis
    using assms(1) unfolding query_os_linux_def after_key_here by (simp add: unquoted_def)
qed

text \<open>Without a clock driver both readings are 0, the value that means \<open>not available\<close>.\<close>

lemma add_clock_none: "read_number = (\<lambda>f. None) \<Longrightarrow> fold (add_clock read_number) js acc = acc"
  by (induction js arbitrary: acc) (auto simp: add_clock_def read_cpufreq_khz_def f64_less_def split: prod.splits)

lemma no_clock_is_zero:
  "sample_current_mhz_linux (\<lambda>f. None) processors = 0" "nominal_max_mhz_linux (\<lambda>f. None) = 0"
  by (simp_all add: sample_current_mhz_linux_def add_clock_none nominal_max_mhz_linux_def read_cpufreq_khz_def f64_less_def)

text \<open>The calendar date counts exactly the days since the epoch, and is a date of its month.\<close>

lemma year_of_counts:
  "year_of y days = (y', r) \<Longrightarrow>
     y \<le> y' \<and> (\<Sum>k\<leftarrow>[y..<y']. year_days k) + r = days \<and> r < year_days y'"
proof (induction y days rule: year_of.induct)
  case (1 y days)
  show ?case
  proof (cases "days < year_days y")
    case True
    then show ?thesis using 1(2) by (simp add: year_of.simps [of y])
  next
    case False
    have "year_days y \<noteq> 0" by (simp add: year_days_def)
    then have "y + 1 \<le> y'" "(\<Sum>k\<leftarrow>[y + 1..<y']. year_days k) + r = days - year_days y" "r < year_days y'"
      using 1 False by (simp_all add: year_of.simps [of y])
    moreover have "[y..<y'] = y # [y + 1..<y']"
      using \<open>y + 1 \<le> y'\<close> by (simp add: upt_conv_Cons)
    ultimately show ?thesis using False by simp
  qed
qed

lemma month_of_counts:
  "month_of ls m days = (m', r) \<Longrightarrow> days < sum_list ls \<Longrightarrow>
     m \<le> m' \<and> m' - m < length ls \<and> sum_list (take (m' - m) ls) + r = days \<and> r < ls ! (m' - m)"
proof (induction ls m days rule: month_of.induct)
  case (2 l ls m days)
  show ?case
  proof (cases "days < l")
    case True
    then show ?thesis using 2(2) by simp
  next
    case False
    then have "m + 1 \<le> m'" "m' - (m + 1) < length ls" "sum_list (take (m' - (m + 1)) ls) + r = days - l"
        "r < ls ! (m' - (m + 1))"
      using 2 by auto
    moreover have "m' - m = Suc (m' - (m + 1))"
      using \<open>m + 1 \<le> m'\<close> by simp
    ultimately show ?thesis using False by simp
  qed
qed simp

lemma civil_counts_days:
  assumes "civil days = (y, m, d)"
  shows "(\<Sum>k\<leftarrow>[1970..<y]. year_days k) + sum_list (take (m - 1) (month_days y)) + (d - 1) = days \<and>
         1970 \<le> y \<and> 1 \<le> m \<and> m \<le> 12 \<and> 1 \<le> d \<and> d \<le> month_days y ! (m - 1)"
proof -
  obtain r where y: "year_of 1970 days = (y, r)" and m: "month_of (month_days y) 1 r = (m, d - 1)" and "1 \<le> d"
    using assms by (auto simp: civil_def split: prod.splits)
  have len: "length (month_days y) = 12" "sum_list (month_days y) = year_days y"
    by (simp_all add: month_days_def year_days_def)
  note Y = year_of_counts [OF y]
  have M: "1 \<le> m \<and> m - 1 < 12 \<and> sum_list (take (m - 1) (month_days y)) + (d - 1) = r \<and> d - 1 < month_days y ! (m - 1)"
    using month_of_counts [OF m] Y by (simp add: len)
  show ?thesis
    using Y M \<open>1 \<le> d\<close> by linarith
qed

text \<open>An address sanitizer build is recorded as one whichever macro announces it.\<close>

lemma sanitizer_recorded:
  "SANITIZE_ADDRESS d \<or> has_feature_address_sanitizer d = Some True \<Longrightarrow>
     env_address_sanitizer (capture_environment topology (build_info d) ram os stamp)"
  by (auto simp: capture_environment_def build_info_def kAsan_def)

end
